(* ===== verification/Prelude.thy ===== *)
theory Prelude
  imports Main "HOL-Library.Word" "HOL-Library.AList"
begin

section \<open>Shared types, association maps and result values\<close>

text \<open>
  What the components share. Machine integers keep the width the Rust code gives them
  (\<open>u32\<close> for sequence numbers, \<open>u64\<close> for timestamps); arithmetic on them wraps, as it does
  in a release build. A Rust map (\<open>HashMap\<close>, \<open>BTreeMap\<close>, \<open>IndexMap\<close>) is an association list
  with distinct keys: the list order is the iteration order, which the \<open>HashMap\<close> of the code
  leaves open, so a lemma about every list holds for every iteration order. \<open>Result\<close> is a
  sum with the error on the left and \<open>?\<close> is \<open>bind_result\<close>.
\<close>

type_synonym u8 = "8 word"
type_synonym u16 = "16 word"
type_synonym u32 = "32 word"
type_synonym u64 = "64 word"
type_synonym bytes = "u8 list"
type_synonym ('k, 'v) amap = "('k \<times> 'v) list"

named_theorems result_simps \<open>rewriting of result values\<close>
named_theorems amap_simps \<open>rewriting of association maps\<close>

subsection \<open>Results\<close>

definition bind_result :: "'e + 'a \<Rightarrow> ('a \<Rightarrow> 'e + 'b) \<Rightarrow> 'e + 'b" where
  "bind_result r f = (case r of Inl e \<Rightarrow> Inl e | Inr x \<Rightarrow> f x)"

lemma bind_result_Inl [simp, result_simps]: "bind_result (Inl e) f = Inl e"
  by (simp add: bind_result_def)

lemma bind_result_Inr [simp, result_simps]: "bind_result (Inr x) f = f x"
  by (simp add: bind_result_def)

lemma bind_result_eq_Inr [result_simps]:
  "bind_result r f = Inr y \<longleftrightarrow> (\<exists>x. r = Inr x \<and> f x = Inr y)"
  by (cases r) auto

lemma bind_result_eq_Inl [result_simps]:
  "bind_result r f = Inl e \<longleftrightarrow> r = Inl e \<or> (\<exists>x. r = Inr x \<and> f x = Inl e)"
  by (cases r) auto

subsection \<open>Association maps\<close>

definition amap_wf :: "('k, 'v) amap \<Rightarrow> bool" where
  "amap_wf m \<longleftrightarrow> distinct (map fst m)"

definition amap_eq :: "('k, 'v) amap \<Rightarrow> ('k, 'v) amap \<Rightarrow> bool" where
  "amap_eq m n \<longleftrightarrow>
     list_all (\<lambda>(k, v). map_of n k = Some v) m \<and> list_all (\<lambda>(k, v). map_of m k = Some v) n"

definition amap_insert :: "'k \<Rightarrow> 'v \<Rightarrow> ('k, 'v) amap \<Rightarrow> ('k, 'v) amap" where
  "amap_insert k v m = AList.update k v m"

definition amap_remove :: "'k \<Rightarrow> ('k, 'v) amap \<Rightarrow> ('k, 'v) amap" where
  "amap_remove k m = AList.delete k m"

lemma map_of_amap_insert [simp, amap_simps]: "map_of (amap_insert k v m) = (map_of m)(k \<mapsto> v)"
  by (simp add: amap_insert_def update_conv')

lemma map_of_amap_remove [simp, amap_simps]: "map_of (amap_remove k m) = (map_of m)(k := None)"
  by (simp add: amap_remove_def delete_conv')

lemma amap_wf_Nil [simp]: "amap_wf []"
  by (simp add: amap_wf_def)

lemma amap_wf_Cons [simp]: "amap_wf ((k, v) # m) \<longleftrightarrow> k \<notin> fst ` set m \<and> amap_wf m"
  by (simp add: amap_wf_def)

lemma amap_wf_insert [simp, intro]: "amap_wf m \<Longrightarrow> amap_wf (amap_insert k v m)"
  by (simp add: amap_wf_def amap_insert_def distinct_update)

lemma amap_wf_remove [simp, intro]: "amap_wf m \<Longrightarrow> amap_wf (amap_remove k m)"
  by (simp add: amap_wf_def amap_remove_def distinct_delete)

lemma amap_wf_filter [simp, intro]: "amap_wf m \<Longrightarrow> amap_wf (filter P m)"
  by (simp add: amap_wf_def distinct_map_filter)

lemma amap_keys_insert [simp, amap_simps]: "fst ` set (amap_insert k v m) = insert k (fst ` set m)"
  by (simp add: amap_insert_def dom_update)

lemma amap_mem_iff: "amap_wf m \<Longrightarrow> (k, v) \<in> set m \<longleftrightarrow> map_of m k = Some v"
  by (simp add: amap_wf_def)

lemma amap_notin_None: "map_of m k = None \<longleftrightarrow> k \<notin> fst ` set m"
  by (simp add: map_of_eq_None_iff)

lemma amap_eq_iff:
  assumes "amap_wf m" and "amap_wf n"
  shows "amap_eq m n \<longleftrightarrow> map_of m = map_of n"
proof
  assume eq: "amap_eq m n"
  show "map_of m = map_of n"
  proof
    fix k
    show "map_of m k = map_of n k"
    proof (cases "map_of m k")
      case None
      with eq assms show ?thesis
        by (cases "map_of n k") (fastforce simp: amap_eq_def list_all_iff dest: map_of_SomeD)+
    next
      case (Some v)
      with eq have "map_of n k = Some v"
        by (fastforce simp: amap_eq_def list_all_iff dest: map_of_SomeD)
      with Some show ?thesis by simp
    qed
  qed
next
  assume "map_of m = map_of n"
  with assms show "amap_eq m n"
    by (auto simp: amap_eq_def list_all_iff amap_mem_iff)
qed

text \<open>Lookups through two levels of maps: the entry API of the code (\<open>entry().or_default()\<close>).\<close>

definition amap_get :: "('k, 'v list) amap \<Rightarrow> 'k \<Rightarrow> 'v list" where
  "amap_get m k = (case map_of m k of None \<Rightarrow> [] | Some v \<Rightarrow> v)"

definition lookup2 :: "('a, ('b, 'v) amap) amap \<Rightarrow> 'a \<Rightarrow> 'b \<Rightarrow> 'v option" where
  "lookup2 m a b = (case map_of m a of None \<Rightarrow> None | Some n \<Rightarrow> map_of n b)"

definition insert2 ::
  "'a \<Rightarrow> 'b \<Rightarrow> 'v \<Rightarrow> ('a, ('b, 'v) amap) amap \<Rightarrow> ('a, ('b, 'v) amap) amap" where
  "insert2 a b v m = amap_insert a (amap_insert b v (amap_get m a)) m"

lemma lookup2_Nil [simp]: "lookup2 [] a b = None"
  by (simp add: lookup2_def)

lemma lookup2_notin [simp]: "a \<notin> fst ` set m \<Longrightarrow> lookup2 m a b = None"
  by (simp add: lookup2_def map_of_eq_None_iff [THEN iffD2])

lemma lookup2_insert2 [simp, amap_simps]:
  "lookup2 (insert2 a b v m) a' b' = (if a' = a \<and> b' = b then Some v else lookup2 m a' b')"
  by (auto simp: lookup2_def insert2_def amap_get_def split: option.splits)

lemma amap_wf_insert2 [simp, intro]: "amap_wf m \<Longrightarrow> amap_wf (insert2 a b v m)"
  by (simp add: insert2_def)

definition amap_wf2 :: "('a, ('b, 'v) amap) amap \<Rightarrow> bool" where
  "amap_wf2 m \<longleftrightarrow> amap_wf m \<and> list_all (\<lambda>(_, n). amap_wf n) m"

lemma amap_wf2_D: "amap_wf2 m \<Longrightarrow> map_of m a = Some n \<Longrightarrow> amap_wf n"
  by (auto simp: amap_wf2_def list_all_iff dest!: map_of_SomeD)

lemma amap_wf2_insert [intro]:
  assumes "amap_wf2 m" and "amap_wf n"
  shows "amap_wf2 (amap_insert a n m)"
proof -
  have "(k, v) \<in> set (amap_insert a n m) \<Longrightarrow> (k, v) = (a, n) \<or> (k, v) \<in> set m" for k v
    using assms by (auto simp: amap_wf2_def amap_mem_iff split: if_splits)
  then show ?thesis
    using assms unfolding amap_wf2_def list_all_iff by fastforce
qed

lemma amap_wf2_insert2 [intro]: "amap_wf2 m \<Longrightarrow> amap_wf2 (insert2 a b v m)"
  unfolding insert2_def
  by (intro amap_wf2_insert amap_wf_insert)
    (auto simp: amap_get_def dest: amap_wf2_D split: option.splits)

subsection \<open>Words\<close>

lemma word_plus_one_neq [simp]: "(x :: 'a::len word) + 1 \<noteq> x"
  by simp

lemma unat_plus_one: "x \<noteq> (- 1 :: 'a::len word) \<Longrightarrow> unat (x + 1) = Suc (unat x)"
  by (metis add.commute add_eq_0_iff2 unatSuc)

lemma unat_u32_less: "unat (w :: u32) < 2 ^ 32"
  by (rule less_le_trans[OF unsigned_less]) simp

lemma in_map_filter: "y \<in> set (List.map_filter f xs) \<longleftrightarrow> (\<exists>x \<in> set xs. f x = Some y)"
  by (induction xs) (auto simp: map_filter_simps split: option.splits)

subsection \<open>Sorting by a key\<close>

lemma sort_key_unique:
  fixes f :: "'a \<Rightarrow> 'b :: linorder"
  assumes "distinct (map f xs)" "sorted (map f ys)" "distinct (map f ys)" "set ys = set xs"
  shows "sort_key f xs = ys"
proof (rule map_sorted_distinct_set_unique[of f])
  show "distinct (map f (sort_key f xs))" "inj_on f (set (sort_key f xs) \<union> set ys)"
    using assms(1,4) by (simp_all add: distinct_map)
qed (use assms in simp_all)

lemma sort_key_snoc:
  fixes f :: "'a \<Rightarrow> 'b :: linorder"
  assumes "distinct (map f xs)" "distinct (map f ys)" "set ys = insert r (set xs)" "\<forall>x \<in> set xs. f x < f r"
  shows "sort_key f ys = sort_key f xs @ [r]"
  using assms(2)
proof (rule sort_key_unique)
  show "sorted (map f (sort_key f xs @ [r]))"
    using assms(4) by (auto simp: sorted_append intro: less_imp_le)
  show "distinct (map f (sort_key f xs @ [r]))"
    using assms(1,4) by (auto simp: distinct_map)
  show "set (sort_key f xs @ [r]) = set ys"
    using assms(3) by simp
qed

lemma sort_key_tail:
  fixes f :: "'a \<Rightarrow> 'b :: linorder"
  assumes "distinct (map f xs)" "distinct (map f ys)" "sort_key f xs = r # rs" "set ys = set xs - {r}"
  shows "sort_key f ys = rs"
  using assms(2)
proof (rule sort_key_unique)
  have "sorted (map f (r # rs))" "distinct (map f (r # rs))" "set (r # rs) = set xs"
    using assms(1) sorted_sort_key[of f xs] unfolding assms(3)[symmetric] by (simp_all add: distinct_map)
  then show "sorted (map f rs)" "distinct (map f rs)" "set rs = set ys"
    using assms(4) by auto
qed

subsection \<open>States that are merged\<close>

text \<open>The contract of a state-based merge: on the states the predicate \<open>ok\<close> describes it
  implements a join of what the states mean, and that join is a semilattice. Folding the merge over
  the states of several replicas then depends only on which states were merged.\<close>

locale merge_contract =
  fixes merge :: "'s \<Rightarrow> 's \<Rightarrow> 's"
    and meaning :: "'s \<Rightarrow> 't"
    and join :: "'t \<Rightarrow> 't \<Rightarrow> 't"
    and ok :: "'s \<Rightarrow> bool"
  assumes ok_merge: "ok a \<Longrightarrow> ok b \<Longrightarrow> ok (merge a b)"
    and meaning_merge: "ok a \<Longrightarrow> ok b \<Longrightarrow> meaning (merge a b) = join (meaning a) (meaning b)"
    and join_commute: "ok a \<Longrightarrow> ok b \<Longrightarrow> join (meaning a) (meaning b) = join (meaning b) (meaning a)"
    and join_assoc: "ok a \<Longrightarrow> ok b \<Longrightarrow> ok c \<Longrightarrow>
      join (join (meaning a) (meaning b)) (meaning c) = join (meaning a) (join (meaning b) (meaning c))"
    and join_idem: "ok a \<Longrightarrow> join (meaning a) (meaning a) = meaning a"
begin

lemma ok_fold: "ok s \<Longrightarrow> \<forall>x \<in> set xs. ok x \<Longrightarrow> ok (fold merge xs s)"
  by (induction xs arbitrary: s) (simp_all add: ok_merge)

lemma merge_commute: "ok a \<Longrightarrow> ok b \<Longrightarrow> meaning (merge a b) = meaning (merge b a)"
  by (simp add: meaning_merge join_commute)

lemma merge_assoc:
  "ok a \<Longrightarrow> ok b \<Longrightarrow> ok c \<Longrightarrow> meaning (merge (merge a b) c) = meaning (merge a (merge b c))"
  by (simp add: meaning_merge ok_merge join_assoc)

lemma merge_idem: "ok a \<Longrightarrow> meaning (merge a a) = meaning a"
  by (simp add: meaning_merge join_idem)

lemma fold_meaning_cong:
  "ok s \<Longrightarrow> ok t \<Longrightarrow> meaning s = meaning t \<Longrightarrow> \<forall>x \<in> set xs. ok x \<Longrightarrow>
   meaning (fold merge xs s) = meaning (fold merge xs t)"
  by (induction xs arbitrary: s t) (simp_all add: ok_merge meaning_merge)

lemma fold_merge_first:
  assumes "ok s" "ok x" "\<forall>y \<in> set xs. ok y"
  shows "meaning (fold merge xs (merge x s)) = meaning (merge x (fold merge xs s))"
  using assms
proof (induction xs arbitrary: s)
  case (Cons y xs)
  have "meaning (merge y (merge x s)) = meaning (merge x (merge y s))"
    using Cons.prems join_assoc[of y x s] join_assoc[of x y s] join_commute[of x y]
    by (simp add: ok_merge meaning_merge)
  then have "meaning (fold merge xs (merge y (merge x s))) = meaning (fold merge xs (merge x (merge y s)))"
    using Cons.prems by (intro fold_meaning_cong) (simp_all add: ok_merge)
  then show ?case
    using Cons by (simp add: ok_merge)
qed simp

lemma fold_merge_absorb:
  assumes "ok s" "x \<in> set xs" "\<forall>y \<in> set xs. ok y"
  shows "meaning (merge x (fold merge xs s)) = meaning (fold merge xs s)"
  using assms
proof (induction xs arbitrary: s)
  case (Cons y xs)
  show ?case
  proof (cases "x \<in> set xs")
    case True
    then show ?thesis
      using Cons by (simp add: ok_merge)
  next
    case False
    with Cons.prems have [simp]: "y = x" and ok: "ok x" "ok (fold merge xs s)" "\<forall>y \<in> set xs. ok y"
      by (auto simp: ok_fold)
    have "meaning (merge x (fold merge xs (merge x s))) = join (meaning x) (meaning (merge x (fold merge xs s)))"
      using ok Cons.prems fold_merge_first[of s x xs] by (simp add: meaning_merge ok_merge ok_fold)
    also have "\<dots> = meaning (merge x (fold merge xs s))"
      using ok by (simp add: meaning_merge join_assoc[symmetric] join_idem)
    also have "\<dots> = meaning (fold merge xs (merge x s))"
      using ok Cons.prems fold_merge_first[of s x xs] by simp
    finally show ?thesis
      by simp
  qed
qed simp

lemma fold_merge_initial:
  assumes "ok s" "\<forall>y \<in> set xs. ok y"
  shows "meaning (merge s (fold merge xs s)) = meaning (fold merge xs s)"
  using assms fold_merge_first[of s s xs] fold_meaning_cong[of "merge s s" s xs]
  by (simp add: ok_merge merge_idem)

lemma fold_merge_below:
  assumes "ok s" "ok b" "\<forall>y \<in> set xs. ok y"
    and "meaning (merge s b) = meaning b" "\<forall>x \<in> set xs. meaning (merge x b) = meaning b"
  shows "meaning (merge (fold merge xs s) b) = meaning b"
  using assms
proof (induction xs arbitrary: s)
  case (Cons y xs)
  have "meaning (merge (merge y s) b) = meaning b"
    using Cons.prems by (simp add: meaning_merge ok_merge join_assoc)
  then show ?case
    using Cons by (simp add: ok_merge)
qed simp

lemma fold_merge_set:
  assumes "ok s" "\<forall>y \<in> set xs. ok y" "set ys = set xs"
  shows "meaning (fold merge xs s) = meaning (fold merge ys s)"
proof -
  have ok: "ok (fold merge xs s)" "ok (fold merge ys s)"
    using assms by (simp_all add: ok_fold)
  have "meaning (merge (fold merge xs s) (fold merge ys s)) = meaning (fold merge ys s)"
    using assms ok by (intro fold_merge_below) (simp_all add: fold_merge_initial fold_merge_absorb)
  moreover have "meaning (merge (fold merge ys s) (fold merge xs s)) = meaning (fold merge xs s)"
    using assms ok by (intro fold_merge_below) (simp_all add: fold_merge_initial fold_merge_absorb)
  ultimately show ?thesis
    using merge_commute[OF ok] by simp
qed

end

end
