(* ===== verification/Core_Logs.thy ===== *)
theory Core_Logs
  imports Prelude
begin

section \<open>Log heights, their difference, and cursors\<close>

text \<open>
  \<open>p2panda-core/src/logs.rs\<close> and \<open>p2panda-core/src/cursor.rs\<close>: the state vector of a replica
  (height of every log of every author), the ranges of entries another replica needs, and the
  cursor that tracks a state vector.
\<close>

type_synonym seq_num = u32
type_synonym ('a, 'l) log_heights = "('a, ('l, seq_num) amap) amap"
type_synonym log_range = "seq_num option \<times> seq_num option"
type_synonym ('a, 'l) log_ranges = "('a, ('l, log_range) amap) amap"

subsection \<open>Comparing two state vectors\<close>

definition compare_log ::
  "'a \<Rightarrow> ('l, seq_num) amap \<Rightarrow> 'l \<times> seq_num \<Rightarrow> ('a, 'l) log_ranges \<Rightarrow> ('a, 'l) log_ranges" where
  "compare_log verifying_key remote_logs e remote_needs =
     (case e of (log_id, local_log_height) \<Rightarrow>
       (case map_of remote_logs log_id of
          None \<Rightarrow> insert2 verifying_key log_id (None, Some local_log_height) remote_needs
        | Some remote_log_height \<Rightarrow>
            if remote_log_height < local_log_height
            then insert2 verifying_key log_id
                   (Some remote_log_height, Some local_log_height) remote_needs
            else remote_needs))"

definition compare_author ::
  "('a, 'l) log_heights \<Rightarrow> 'a \<times> ('l, seq_num) amap \<Rightarrow> ('a, 'l) log_ranges \<Rightarrow> ('a, 'l) log_ranges"
where
  "compare_author remote e remote_needs =
     (case e of (verifying_key, local_logs) \<Rightarrow>
       (case map_of remote verifying_key of
          None \<Rightarrow>
            amap_insert verifying_key
              (map (\<lambda>(log_id, log_height). (log_id, (None, Some log_height))) local_logs)
              remote_needs
        | Some remote_logs \<Rightarrow>
            if amap_eq local_logs remote_logs then remote_needs
            else fold (compare_log verifying_key remote_logs) local_logs remote_needs))"

definition compare :: "('a, 'l) log_heights \<Rightarrow> ('a, 'l) log_heights \<Rightarrow> ('a, 'l) log_ranges" where
  "compare local remote = fold (compare_author remote) local []"

text \<open>What the documentation of \<open>compare\<close> promises, one log at a time.\<close>

definition needed :: "seq_num option \<Rightarrow> seq_num option \<Rightarrow> log_range option" where
  "needed local_height remote_height =
     (case local_height of
        None \<Rightarrow> None
      | Some h \<Rightarrow>
          (case remote_height of
             None \<Rightarrow> Some (None, Some h)
           | Some r \<Rightarrow> if r < h then Some (Some r, Some h) else None))"

subsection \<open>Cursors\<close>

record ('a, 'l) cursor =
  cursor_name :: string
  cursor_state :: "('a, 'l) log_heights"

definition cursor_new :: "string \<Rightarrow> ('a, 'l) log_heights \<Rightarrow> ('a, 'l) cursor" where
  "cursor_new name state = \<lparr>cursor_name = name, cursor_state = state\<rparr>"

definition log_height :: "('a, 'l) cursor \<Rightarrow> 'a \<Rightarrow> 'l \<Rightarrow> seq_num option" where
  "log_height c author log_id = lookup2 (cursor_state c) author log_id"

definition cursor_compare ::
  "('a, 'l) cursor \<Rightarrow> ('a, 'l) log_heights \<Rightarrow> ('a, 'l) log_ranges" where
  "cursor_compare c other = compare other (cursor_state c)"

definition advance :: "('a, 'l) cursor \<Rightarrow> 'a \<Rightarrow> 'l \<Rightarrow> seq_num \<Rightarrow> ('a, 'l) cursor" where
  "advance c author log_id h =
     (case log_height c author log_id of
        Some current \<Rightarrow>
          if h \<le> current then c
          else c\<lparr>cursor_state := insert2 author log_id h (cursor_state c)\<rparr>
      | None \<Rightarrow> c\<lparr>cursor_state := insert2 author log_id h (cursor_state c)\<rparr>)"

subsection \<open>Correctness of the difference\<close>

lemma lookup2_fold_compare_log:
  assumes "amap_wf ls" and "\<forall>l. l \<in> fst ` set ls \<longrightarrow> lookup2 acc a l = None"
  shows "lookup2 (fold (compare_log a rs) ls acc) a' l =
    (if a' = a \<and> l \<in> fst ` set ls then needed (map_of ls l) (map_of rs l) else lookup2 acc a' l)"
  using assms
proof (induction ls arbitrary: acc)
  case Nil
  then show ?case by simp
next
  case (Cons e ls)
  obtain k h where e: "e = (k, h)" by (cases e)
  let ?acc = "compare_log a rs e acc"
  have step: "lookup2 ?acc a' l =
      (if a' = a \<and> l = k then needed (Some h) (map_of rs k) else lookup2 acc a' l)" for a' l
    using Cons.prems(2) e by (auto simp: compare_log_def needed_def split: option.splits)
  have wf: "amap_wf ls" "k \<notin> fst ` set ls"
    using Cons.prems(1) e by auto
  have "lookup2 ?acc a l = None" if "l \<in> fst ` set ls" for l
    using Cons.prems(2) that wf(2) unfolding step by auto
  with Cons.IH [of ?acc] wf have IH: "lookup2 (fold (compare_log a rs) ls ?acc) a' l =
      (if a' = a \<and> l \<in> fst ` set ls then needed (map_of ls l) (map_of rs l)
       else lookup2 ?acc a' l)"
    by blast
  show ?case
    using wf(2) unfolding fold_Cons comp_def IH step by (auto simp: e)
qed

lemma lookup2_amap_insert [simp]:
  "lookup2 (amap_insert a n m) a' l = (if a' = a then map_of n l else lookup2 m a' l)"
  by (simp add: lookup2_def)

lemma map_of_all_needed:
  "map_of (map (\<lambda>(log_id, h). (log_id, (None, Some h))) ls) l = needed (map_of ls l) None"
  by (induction ls) (auto simp: needed_def)

lemma needed_refl [simp]: "needed h h = None"
  by (simp add: needed_def split: option.splits)

lemma needed_None [simp]: "needed None r = None"
  by (simp add: needed_def)

lemma lookup2_compare_author:
  assumes "amap_wf ls" and "amap_wf2 remote" and "\<forall>l. lookup2 acc a l = None"
  shows "lookup2 (compare_author remote (a, ls) acc) a' l =
    (if a' = a then needed (map_of ls l) (lookup2 remote a l) else lookup2 acc a' l)"
proof (cases "map_of remote a")
  case None
  then show ?thesis
    by (simp add: compare_author_def lookup2_def map_of_all_needed)
next
  case (Some rs)
  then have rs: "amap_wf rs" and lu: "lookup2 remote a l = map_of rs l" for l
    using assms(2) by (auto simp: lookup2_def dest: amap_wf2_D)
  show ?thesis
  proof (cases "amap_eq ls rs")
    case True
    then have "map_of ls = map_of rs"
      using amap_eq_iff [OF assms(1) rs] by simp
    with True Some assms(3) show ?thesis
      by (simp add: compare_author_def lu)
  next
    case False
    with Some have "compare_author remote (a, ls) acc = fold (compare_log a rs) ls acc"
      by (simp add: compare_author_def)
    moreover have "l \<notin> fst ` set ls \<Longrightarrow> map_of ls l = None"
      by (simp add: map_of_eq_None_iff)
    ultimately show ?thesis
      using lookup2_fold_compare_log [OF assms(1), of acc a rs a' l] assms(3)
      by (auto simp: lu)
  qed
qed

lemma lookup2_fold_compare_author:
  assumes "amap_wf2 remote" and "amap_wf2 local"
    and "\<forall>a l. a \<in> fst ` set local \<longrightarrow> lookup2 acc a l = None"
  shows "lookup2 (fold (compare_author remote) local acc) a l =
    (if a \<in> fst ` set local then needed (lookup2 local a l) (lookup2 remote a l)
     else lookup2 acc a l)"
  using assms
proof (induction local arbitrary: acc)
  case Nil
  then show ?case by simp
next
  case (Cons e es)
  obtain k ls where e: "e = (k, ls)" by (cases e)
  have wf: "amap_wf ls" "amap_wf2 es" "k \<notin> fst ` set es"
    using Cons.prems(2) e by (auto simp: amap_wf2_def)
  have free: "\<forall>l. lookup2 acc k l = None"
    using Cons.prems(3) e by simp
  note author = lookup2_compare_author [OF wf(1) Cons.prems(1) free]
  have "\<forall>a l. a \<in> fst ` set es \<longrightarrow> lookup2 (compare_author remote e acc) a l = None"
    using Cons.prems(3) wf(3) by (auto simp: e author)
  note IH = Cons.IH [OF Cons.prems(1) wf(2) this]
  have "lookup2 (e # es) a l = (if a = k then map_of ls l else lookup2 es a l)"
    by (simp add: e lookup2_def)
  with wf(3) show ?case
    unfolding fold_Cons comp_def IH by (auto simp: e author)
qed

lemma lookup2_compare:
  assumes "amap_wf2 local" and "amap_wf2 remote"
  shows "lookup2 (compare local remote) a l = needed (lookup2 local a l) (lookup2 remote a l)"
  using lookup2_fold_compare_author [OF assms(2,1), of "[]" a l]
  by (auto simp: compare_def split: if_splits)

text \<open>
  C25. \<open>compare\<close> computes exactly the range of entries the remote is missing, for every log
  of every author: nothing when the local side does not have the log or is not ahead, the whole
  log when the remote does not know it, and otherwise the entries after the remote height up to
  the local height. The early exits of the code (unknown author, equal logs) do not change this.
\<close>

theorem compare_exact:
  assumes "amap_wf2 local" and "amap_wf2 remote"
  shows "lookup2 (compare local remote) a l =
    (case lookup2 local a l of
       None \<Rightarrow> None
     | Some h \<Rightarrow>
         (case lookup2 remote a l of
            None \<Rightarrow> Some (None, Some h)
          | Some r \<Rightarrow> if r < h then Some (Some r, Some h) else None))"
  using lookup2_compare [OF assms] by (simp add: needed_def)

theorem compare_exact_witness:
  "lookup2 (compare [(0::nat, [(7::nat, 20)]), (1, [(7, 3)])] [(0, [(7, 10)])]) 0 7 =
     Some (Some 10, Some 20) \<and>
   lookup2 (compare [(0::nat, [(7::nat, 20)]), (1, [(7, 3)])] [(0, [(7, 10)])]) 1 7 =
     Some (None, Some 3)"
proof -
  have wf: "amap_wf2 [(0::nat, [(7::nat, 20::seq_num)]), (1, [(7, 3)])]"
    "amap_wf2 [(0::nat, [(7::nat, 10::seq_num)])]"
    by (simp_all add: amap_wf2_def)
  show ?thesis
    using compare_exact [OF wf, of 0 7] compare_exact [OF wf, of 1 7]
    by (simp add: lookup2_def)
qed

subsection \<open>Cursors only move forward\<close>

lemma log_height_advance:
  "log_height (advance c a l h) a' l' =
   (if a' = a \<and> l' = l
    then Some (case log_height c a l of None \<Rightarrow> h | Some cur \<Rightarrow> max cur h)
    else log_height c a' l')"
  by (auto simp: advance_def log_height_def max_def split: option.splits)

definition advances :: "('a \<times> 'l \<times> seq_num) list \<Rightarrow> ('a, 'l) cursor \<Rightarrow> ('a, 'l) cursor" where
  "advances xs c = fold (\<lambda>(a, l, h) c. advance c a l h) xs c"

definition heights_seen :: "('a \<times> 'l \<times> seq_num) list \<Rightarrow> ('a, 'l) cursor \<Rightarrow> 'a \<Rightarrow> 'l \<Rightarrow> seq_num set" where
  "heights_seen xs c a l = set_option (log_height c a l) \<union> {h. (a, l, h) \<in> set xs}"

lemma finite_heights_seen [simp]: "finite (heights_seen xs c a l)"
proof -
  have "{h. (a, l, h) \<in> set xs} \<subseteq> (snd \<circ> snd) ` set xs"
    by force
  then show ?thesis
    by (auto simp: heights_seen_def intro: finite_subset)
qed

lemma log_height_advances:
  "log_height (advances xs c) a l =
   (if heights_seen xs c a l = {} then None else Some (Max (heights_seen xs c a l)))"
proof (induction xs rule: rev_induct)
  case Nil
  then show ?case
    by (cases "log_height c a l") (simp_all add: advances_def heights_seen_def)
next
  case (snoc x xs)
  obtain a' l' h where x: "x = (a', l', h)"
    by (cases x)
  have step: "log_height (advances (xs @ [x]) c) a l = log_height (advance (advances xs c) a' l' h) a l"
    by (simp add: advances_def x)
  have seen: "heights_seen (xs @ [x]) c a l =
      (if a = a' \<and> l = l' then insert h (heights_seen xs c a l) else heights_seen xs c a l)"
    by (auto simp: heights_seen_def x)
  show ?case
    unfolding step seen log_height_advance using snoc.IH
    by (cases "heights_seen xs c a l = {}"; cases "a = a'"; cases "l = l'") (simp_all add: max.commute)
qed

text \<open>A cursor is a state vector of maxima. After any sequence of acknowledgements the height of
  every log is the largest one ever seen for it (and no height if none was), so acknowledgements may
  arrive in any order, repeatedly or late without moving a cursor backwards.\<close>

lemma cursor_is_maximum:
  "log_height (fold (\<lambda>(a, l, h) c. advance c a l h) xs c) a l =
   (let seen = set_option (log_height c a l) \<union> {h. (a, l, h) \<in> set xs}
    in if seen = {} then None else Some (Max seen))"
  using log_height_advances[of xs c a l] by (simp add: advances_def heights_seen_def Let_def)

subsection \<open>Convergence of two replicas\<close>

lemma amap_wf2_compare_log:
  "amap_wf2 acc \<Longrightarrow> amap_wf2 (compare_log a rs e acc)"
  by (auto simp: compare_log_def split: option.splits prod.splits)

lemma amap_wf2_compare_author:
  assumes "amap_wf ls" and "amap_wf2 acc"
  shows "amap_wf2 (compare_author remote (a, ls) acc)"
proof -
  have "amap_wf2 (fold (compare_log a rs) ls acc)" for rs
    using assms(2) by (induction ls arbitrary: acc) (simp_all add: amap_wf2_compare_log)
  moreover have "amap_wf (map (\<lambda>(log_id, h). (log_id, (None :: seq_num option, Some h))) ls)"
    using assms(1) by (simp add: amap_wf_def comp_def case_prod_unfold)
  ultimately show ?thesis
    using assms(2) by (auto simp: compare_author_def split: option.splits)
qed

lemma amap_wf2_compare:
  assumes "amap_wf2 local"
  shows "amap_wf2 (compare local remote)"
proof -
  have "amap_wf2 (fold (compare_author remote) local acc)" if "amap_wf2 acc" for acc
    using assms that
  proof (induction local arbitrary: acc)
    case (Cons e es)
    then have "amap_wf (snd e)" "amap_wf2 es"
      by (auto simp: amap_wf2_def)
    with Cons show ?case
      using amap_wf2_compare_author[of "snd e" acc remote "fst e"] by simp
  qed simp
  then show ?thesis
    by (simp add: compare_def amap_wf2_def)
qed

definition range_ends :: "('a, 'l) log_ranges \<Rightarrow> ('a \<times> 'l \<times> seq_num) list" where
  "range_ends rs =
     concat (map (\<lambda>(a, ls). concat (map (\<lambda>(l, _, to). case to of None \<Rightarrow> [] | Some h \<Rightarrow> [(a, l, h)]) ls)) rs)"

lemma range_ends_iff:
  assumes "amap_wf2 rs"
  shows "(a, l, h) \<in> set (range_ends rs) \<longleftrightarrow> (\<exists>f. lookup2 rs a l = Some (f, Some h))"
proof -
  have "(a, l, h) \<in> set (range_ends rs) \<longleftrightarrow>
      (\<exists>ls f. (a, ls) \<in> set rs \<and> (l, f, Some h) \<in> set ls)"
    by (force simp: range_ends_def split: option.splits)
  also have "\<dots> \<longleftrightarrow> (\<exists>ls f. map_of rs a = Some ls \<and> map_of ls l = Some (f, Some h))"
    using assms by (auto simp: amap_wf2_def amap_mem_iff list_all_iff dest: map_of_SomeD) 
      (metis amap_mem_iff amap_wf2_D assms)+
  finally show ?thesis
    by (auto simp: lookup2_def split: option.splits)
qed

definition max_height :: "seq_num option \<Rightarrow> seq_num option \<Rightarrow> seq_num option" where
  "max_height x y =
     (case (x, y) of (None, _) \<Rightarrow> y | (_, None) \<Rightarrow> x | (Some i, Some j) \<Rightarrow> Some (max i j))"

lemma height_after_sync:
  assumes "amap_wf2 local" and "amap_wf2 remote"
  shows "log_height (advances (range_ends (compare local remote)) (cursor_new n remote)) a l =
         max_height (lookup2 local a l) (lookup2 remote a l)"
proof -
  have "heights_seen (range_ends (compare local remote)) (cursor_new n remote) a l =
      set_option (lookup2 remote a l) \<union>
      {h. \<exists>f. needed (lookup2 local a l) (lookup2 remote a l) = Some (f, Some h)}"
    by (simp add: heights_seen_def range_ends_iff amap_wf2_compare assms lookup2_compare
        cursor_new_def log_height_def)
  then show ?thesis
    by (cases "lookup2 local a l"; cases "lookup2 remote a l")
       (auto simp: log_height_advances needed_def max_height_def max_def)
qed

text \<open>C26: Log-height synchronisation converges. When two replicas exchange state vectors, each sends
  what \<open>compare\<close> says the other needs and each advances by the ranges it receives, both end with
  the same height for every log of every author, the larger of the two they started with.\<close>

theorem sync_converges:
  assumes "amap_wf2 A" and "amap_wf2 B"
  shows "log_height (advances (range_ends (compare B A)) (cursor_new n A)) a l =
           max_height (lookup2 A a l) (lookup2 B a l) \<and>
         log_height (advances (range_ends (compare A B)) (cursor_new m B)) a l =
           max_height (lookup2 A a l) (lookup2 B a l)"
  using height_after_sync[OF assms] height_after_sync[OF assms(2,1)]
  by (auto simp: max_height_def max.commute split: option.splits)

theorem sync_converges_witness:
  "log_height (advances (range_ends (compare [(1::nat, [(7::nat, 3)])] [(0, [(7, 10)])]))
     (cursor_new ''a'' [(0, [(7, 10)])])) 1 7 = Some 3"
  using sync_converges[of "[(0::nat, [(7::nat, 10)])]" "[(1, [(7, 3)])]" "''a''" 1 7]
  by (simp add: amap_wf2_def lookup2_def max_height_def)

end
