(* ===== verification/Core_Operation.thy ===== *)
theory Core_Operation
  imports Prelude
begin

section \<open>Operations: header format, signing, decoding, validation and prunable logs\<close>

text \<open>
  \<open>p2panda-core/src/operation\<close> and \<open>p2panda-core/src/prune.rs\<close>. The CBOR library, Ed25519 and
  BLAKE3 are not part of the repository: they are the records \<open>cbor_api\<close> and \<open>crypto_api\<close>,
  arguments of the definitions that call them, and the header extensions type \<open>E\<close> with its
  serialisation is the record \<open>ext_api\<close>. What the code relies on of them are the predicates
  \<open>cbor_ok\<close> and \<open>crypto_ok\<close>. The model is the production configuration (neither \<open>test\<close> nor
  \<open>test_utils\<close>), in which a header in memory has already been verified.
\<close>

type_synonym hash = bytes
type_synonym verifying_key = bytes
type_synonym signature = bytes

record 'v cbor_api =
  cbor_array :: "'v list \<Rightarrow> 'v"
  cbor_append :: "'v \<Rightarrow> 'v \<Rightarrow> 'v"
  cbor_uint :: "nat \<Rightarrow> 'v"
  cbor_bytes :: "bytes \<Rightarrow> 'v"
  cbor_encode :: "'v \<Rightarrow> bytes"
  cbor_decode :: "bytes \<Rightarrow> 'v option"
  cbor_into_array :: "'v \<Rightarrow> 'v list option"
  cbor_as_bytes :: "'v \<Rightarrow> bytes option"
  cbor_to_uint :: "nat \<Rightarrow> 'v \<Rightarrow> nat option"
  cbor_within_limits :: "'v \<Rightarrow> bool"

record 'sk crypto_api =
  hash_digest :: "bytes \<Rightarrow> hash"
  key_from_bytes :: "bytes \<Rightarrow> verifying_key option"
  key_verify :: "verifying_key \<Rightarrow> bytes \<Rightarrow> signature \<Rightarrow> bool"
  key_of :: "'sk \<Rightarrow> verifying_key"
  key_sign :: "'sk \<Rightarrow> bytes \<Rightarrow> signature"

record ('e, 'v) ext_api =
  ext_zero_sized :: "'e option"
  ext_serialized :: "'e \<Rightarrow> 'v option"
  ext_deserialized :: "'v \<Rightarrow> 'e option"

definition HASH_LEN :: nat where "HASH_LEN = 32"
definition VERIFYING_KEY_LEN :: nat where "VERIFYING_KEY_LEN = 32"
definition SIGNATURE_LEN :: nat where "SIGNATURE_LEN = 64"

subsection \<open>Data types\<close>

datatype header_error =
    DecodingHeader
  | DecodingExtensions
  | UnexpectedHeaderType
  | MissingField string
  | UnexpectedFieldType string
  | InvalidVerifyingKey
  | InvalidBytesLen string nat nat
  | HeaderUnsupportedVersion u16 u16
  | InvalidSignature
  | ExcessiveFields
  | UnexpectedExtensions
  | MissingExtensions
  | EncodingExtensions

datatype operation_error =
    UnsupportedVersion u16 u16
  | MissingSignature
  | SignatureMismatch
  | SeqNumMismatch
  | InconsistentPayloadInfo
  | MissingPayloadHash
  | PayloadMismatch
  | TooManyAuthors
  | SeqNumNonIncremental u32 u32
  | BacklinkMissing
  | BacklinkMismatch

record 'v any_header =
  version :: u16
  verifying_key :: verifying_key
  signature :: signature
  payload_size :: u32
  payload_hash :: "hash option"
  seq_num :: u32
  backlink :: "hash option"
  header_size :: u32
  digest :: hash
  extensions_cbor :: "'v option"

record ('v, 'e) header = "'v any_header" +
  extensions :: 'e

type_synonym body = bytes

record 'v any_operation =
  any_op_hash :: hash
  any_op_header :: "'v any_header"
  any_op_body :: "body option"

record ('v, 'e) operation =
  op_hash :: hash
  op_header :: "('v, 'e) header"
  op_body :: "body option"

definition body_hash :: "'sk crypto_api \<Rightarrow> body \<Rightarrow> hash" where
  "body_hash K b = hash_digest K b"

definition body_size :: "body \<Rightarrow> u32" where
  "body_size b = of_nat (length b)"

subsection \<open>Encoding\<close>

definition append_some :: "'v cbor_api \<Rightarrow> ('x \<Rightarrow> 'v) \<Rightarrow> 'x option \<Rightarrow> 'v \<Rightarrow> 'v" where
  "append_some C f x cbor = (case x of None \<Rightarrow> cbor | Some y \<Rightarrow> cbor_append C cbor (f y))"

definition encode_header ::
  "'v cbor_api \<Rightarrow> u16 \<Rightarrow> verifying_key \<Rightarrow> signature option \<Rightarrow> u32 \<Rightarrow> hash option \<Rightarrow> u32 \<Rightarrow>
   hash option \<Rightarrow> 'v option \<Rightarrow> bytes" where
  "encode_header C ver vk sig psize phash seq bl ext =
     (let cbor = cbor_array C [cbor_uint C (unat ver), cbor_bytes C vk];
          cbor = append_some C (cbor_bytes C) sig cbor;
          cbor = cbor_append C cbor (cbor_uint C (unat psize));
          cbor = append_some C (cbor_bytes C) phash cbor;
          cbor = cbor_append C cbor (cbor_uint C (unat seq));
          cbor = append_some C (cbor_bytes C) bl cbor;
          cbor = append_some C id ext cbor
      in cbor_encode C cbor)"

definition header_encode :: "'v cbor_api \<Rightarrow> ('v, 'x) any_header_scheme \<Rightarrow> bytes" where
  "header_encode C h =
     encode_header C (version h) (verifying_key h) (Some (signature h)) (payload_size h)
       (payload_hash h) (seq_num h) (backlink h) (extensions_cbor h)"

subsection \<open>Building and signing\<close>

record builder =
  b_payload_size :: u32
  b_payload_hash :: "hash option"
  b_seq_num :: u32
  b_backlink :: "hash option"

definition builder_new :: builder where
  "builder_new = \<lparr>b_payload_size = 0, b_payload_hash = None, b_seq_num = 0, b_backlink = None\<rparr>"

definition builder_body :: "'sk crypto_api \<Rightarrow> bytes \<Rightarrow> builder \<Rightarrow> builder" where
  "builder_body K bs b =
     (let size = of_nat (length bs)
      in b\<lparr>b_payload_size := size,
           b_payload_hash := (if size = 0 then None else Some (hash_digest K bs))\<rparr>)"

definition builder_chain :: "u32 \<Rightarrow> hash \<Rightarrow> builder \<Rightarrow> builder" where
  "builder_chain seq bl b =
     b\<lparr>b_seq_num := seq, b_backlink := (if 0 < seq then Some bl else None)\<rparr>"

definition builder_seq_num :: "u32 \<Rightarrow> builder \<Rightarrow> builder" where
  "builder_seq_num seq b = b\<lparr>b_seq_num := seq\<rparr>"

definition builder_backlink :: "hash option \<Rightarrow> builder \<Rightarrow> builder" where
  "builder_backlink bl b = b\<lparr>b_backlink := bl\<rparr>"

definition extensions_value :: "('e, 'v) ext_api \<Rightarrow> 'e \<Rightarrow> 'v option option" where
  "extensions_value E ext =
     (case ext_zero_sized E of
        None \<Rightarrow> map_option Some (ext_serialized E ext)
      | Some _ \<Rightarrow> Some None)"

text \<open>\<open>build\<close> is \<open>None\<close> where the code panics on extensions that cannot be serialised.\<close>

definition build ::
  "'v cbor_api \<Rightarrow> 'sk crypto_api \<Rightarrow> ('e, 'v) ext_api \<Rightarrow> builder \<Rightarrow> 'sk \<Rightarrow> 'e \<Rightarrow>
   ('v, 'e) header option" where
  "build C K E b sk ext =
     (let ver = 1;
          vk = key_of K sk
      in case extensions_value E ext of
           None \<Rightarrow> None
         | Some ext_cbor \<Rightarrow>
             (let signing_bytes = encode_header C ver vk None (b_payload_size b) (b_payload_hash b)
                                    (b_seq_num b) (b_backlink b) ext_cbor;
                  sig = key_sign K sk signing_bytes;
                  bs = encode_header C ver vk (Some sig) (b_payload_size b) (b_payload_hash b)
                         (b_seq_num b) (b_backlink b) ext_cbor
              in Some \<lparr>version = ver, verifying_key = vk, signature = sig,
                       payload_size = b_payload_size b, payload_hash = b_payload_hash b,
                       seq_num = b_seq_num b, backlink = b_backlink b,
                       header_size = of_nat (length bs), digest = hash_digest K bs,
                       extensions_cbor = ext_cbor, extensions = ext\<rparr>))"

subsection \<open>Decoding\<close>

definition next_field :: "string \<Rightarrow> 'v list \<Rightarrow> header_error + ('v \<times> 'v list)" where
  "next_field name iter =
     (case iter of [] \<Rightarrow> Inl (MissingField name) | v # rest \<Rightarrow> Inr (v, rest))"

definition uint_field ::
  "'v cbor_api \<Rightarrow> string \<Rightarrow> nat \<Rightarrow> 'v list \<Rightarrow> header_error + (nat \<times> 'v list)" where
  "uint_field C name width iter =
     bind_result (next_field name iter) (\<lambda>(v, rest).
       case cbor_to_uint C width v of
         None \<Rightarrow> Inl (UnexpectedFieldType name)
       | Some n \<Rightarrow> Inr (n, rest))"

definition bytes_field ::
  "'v cbor_api \<Rightarrow> string \<Rightarrow> nat \<Rightarrow> 'v list \<Rightarrow> header_error + (bytes \<times> 'v list)" where
  "bytes_field C name len iter =
     bind_result (next_field name iter) (\<lambda>(v, rest).
       case cbor_as_bytes C v of
         None \<Rightarrow> Inl (UnexpectedFieldType name)
       | Some bs \<Rightarrow>
           if length bs = len then Inr (bs, rest) else Inl (InvalidBytesLen name len (length bs)))"

definition optional_hash ::
  "'v cbor_api \<Rightarrow> string \<Rightarrow> bool \<Rightarrow> 'v list \<Rightarrow> header_error + (hash option \<times> 'v list)" where
  "optional_hash C name present iter =
     (if present
      then bind_result (bytes_field C name HASH_LEN iter) (\<lambda>(bs, rest). Inr (Some bs, rest))
      else Inr (None, iter))"

definition decode_fields ::
  "'v cbor_api \<Rightarrow> 'sk crypto_api \<Rightarrow> 'v list \<Rightarrow> header_error + 'v any_header" where
  "decode_fields C K iter =
     bind_result (uint_field C ''version'' 16 iter) (\<lambda>(ver, iter).
     if (of_nat ver :: u16) \<noteq> 1 then Inl (HeaderUnsupportedVersion (of_nat ver) 1) else
     bind_result (bytes_field C ''verifying_key'' VERIFYING_KEY_LEN iter) (\<lambda>(kb, iter).
     case key_from_bytes K kb of
       None \<Rightarrow> Inl InvalidVerifyingKey
     | Some vk \<Rightarrow>
     bind_result (bytes_field C ''signature'' SIGNATURE_LEN iter) (\<lambda>(sig, iter).
     bind_result (uint_field C ''payload_size'' 32 iter) (\<lambda>(psize, iter).
     bind_result (optional_hash C ''payload_hash'' ((0 :: u32) < of_nat psize) iter) (\<lambda>(phash, iter).
     bind_result (uint_field C ''seq_num'' 32 iter) (\<lambda>(seq, iter).
     bind_result (optional_hash C ''backlink'' ((0 :: u32) < of_nat seq) iter) (\<lambda>(bl, iter).
     (let ext = (case iter of [] \<Rightarrow> None | v # _ \<Rightarrow> Some v);
          rest = (case iter of [] \<Rightarrow> [] | _ # r \<Rightarrow> r)
      in if rest \<noteq> [] then Inl ExcessiveFields
         else Inr \<lparr>version = of_nat ver, verifying_key = vk, signature = sig,
                   payload_size = of_nat psize, payload_hash = phash,
                   seq_num = of_nat seq, backlink = bl, header_size = 0, digest = [],
                   extensions_cbor = ext\<rparr>))))))))"

definition any_header_decode ::
  "'v cbor_api \<Rightarrow> 'sk crypto_api \<Rightarrow> bytes \<Rightarrow> header_error + 'v any_header" where
  "any_header_decode C K bs =
     (case cbor_decode C bs of
        None \<Rightarrow> Inl DecodingHeader
      | Some cbor \<Rightarrow>
     (case cbor_into_array C cbor of
        None \<Rightarrow> Inl UnexpectedHeaderType
      | Some sq \<Rightarrow>
     bind_result (decode_fields C K sq) (\<lambda>h.
       (let verify_bytes = cbor_encode C (cbor_array C (take 2 sq @ drop 3 sq))
        in if \<not> key_verify K (verifying_key h) verify_bytes (signature h)
           then Inl InvalidSignature
           else Inr (h\<lparr>header_size := of_nat (length bs), digest := hash_digest K bs\<rparr>)))))"

definition header_of_any ::
  "('e, 'v) ext_api \<Rightarrow> 'v any_header \<Rightarrow> header_error + ('v, 'e) header" where
  "header_of_any E a =
     bind_result
       (case extensions_cbor a of
          Some cbor \<Rightarrow>
            if ext_zero_sized E \<noteq> None then Inl UnexpectedExtensions
            else (case ext_deserialized E cbor of
                    None \<Rightarrow> Inl DecodingExtensions
                  | Some ext \<Rightarrow> Inr ext)
        | None \<Rightarrow>
            (case ext_zero_sized E of
               None \<Rightarrow> Inl MissingExtensions
             | Some ext \<Rightarrow> Inr ext))
       (\<lambda>ext. Inr (any_header.extend a (header.fields ext)))"

definition any_of_header :: "('v, 'e) header \<Rightarrow> 'v any_header" where
  "any_of_header h = any_header.truncate h"

definition header_decode ::
  "'v cbor_api \<Rightarrow> 'sk crypto_api \<Rightarrow> ('e, 'v) ext_api \<Rightarrow> bytes \<Rightarrow> header_error + ('v, 'e) header" where
  "header_decode C K E bs = bind_result (any_header_decode C K bs) (header_of_any E)"

definition any_operation_of_raw ::
  "'v cbor_api \<Rightarrow> 'sk crypto_api \<Rightarrow> bytes \<times> bytes option \<Rightarrow> header_error + 'v any_operation" where
  "any_operation_of_raw C K raw =
     (case raw of (header_bytes, body_bytes) \<Rightarrow>
       bind_result (any_header_decode C K header_bytes) (\<lambda>h.
         Inr \<lparr>any_op_hash = digest h, any_op_header = h, any_op_body = body_bytes\<rparr>))"

definition operation_from_parts :: "('v, 'e) header \<Rightarrow> body option \<Rightarrow> ('v, 'e) operation" where
  "operation_from_parts h b = \<lparr>op_hash = digest h, op_header = h, op_body = b\<rparr>"

definition any_operation_of :: "('v, 'e) operation \<Rightarrow> 'v any_operation" where
  "any_operation_of p =
     \<lparr>any_op_hash = op_hash p, any_op_header = any_of_header (op_header p), any_op_body = op_body p\<rparr>"

definition operation_of_any ::
  "('e, 'v) ext_api \<Rightarrow> 'v any_operation \<Rightarrow> header_error + ('v, 'e) operation" where
  "operation_of_any E a =
     bind_result (header_of_any E (any_op_header a)) (\<lambda>h.
       Inr \<lparr>op_hash = any_op_hash a, op_header = h, op_body = any_op_body a\<rparr>)"

subsection \<open>What the code relies on of the CBOR and crypto libraries\<close>

definition cbor_ok :: "'v cbor_api \<Rightarrow> bool" where
  "cbor_ok C \<longleftrightarrow>
     (\<forall>vs. cbor_into_array C (cbor_array C vs) = Some vs) \<and>
     (\<forall>vs v. cbor_append C (cbor_array C vs) v = cbor_array C (vs @ [v])) \<and>
     (\<forall>b. cbor_as_bytes C (cbor_bytes C b) = Some b) \<and>
     (\<forall>w n. n < 2 ^ w \<longrightarrow> cbor_to_uint C w (cbor_uint C n) = Some n) \<and>
     (\<forall>v. cbor_within_limits C v \<longrightarrow> cbor_decode C (cbor_encode C v) = Some v)"

definition crypto_ok :: "'sk crypto_api \<Rightarrow> bool" where
  "crypto_ok K \<longleftrightarrow>
     (\<forall>b. length (hash_digest K b) = HASH_LEN) \<and>
     (\<forall>sk. length (key_of K sk) = VERIFYING_KEY_LEN) \<and>
     (\<forall>sk. key_from_bytes K (key_of K sk) = Some (key_of K sk)) \<and>
     (\<forall>sk m. length (key_sign K sk m) = SIGNATURE_LEN) \<and>
     (\<forall>sk m. key_verify K (key_of K sk) m (key_sign K sk m))"

lemma cbor_okD:
  assumes "cbor_ok C"
  shows "cbor_into_array C (cbor_array C vs) = Some vs"
    and "cbor_append C (cbor_array C vs) v = cbor_array C (vs @ [v])"
    and "cbor_as_bytes C (cbor_bytes C b) = Some b"
    and "n < 2 ^ w \<Longrightarrow> cbor_to_uint C w (cbor_uint C n) = Some n"
    and "cbor_within_limits C v \<Longrightarrow> cbor_decode C (cbor_encode C v) = Some v"
  using assms unfolding cbor_ok_def by blast+

lemma crypto_okD:
  assumes "crypto_ok K"
  shows "length (hash_digest K b) = HASH_LEN"
    and "length (key_of K sk) = VERIFYING_KEY_LEN"
    and "key_from_bytes K (key_of K sk) = Some (key_of K sk)"
    and "length (key_sign K sk m) = SIGNATURE_LEN"
    and "key_verify K (key_of K sk) m (key_sign K sk m)"
  using assms unfolding crypto_ok_def by blast+

subsection \<open>The fields of a header as a list\<close>

definition opt_field :: "('x \<Rightarrow> 'v) \<Rightarrow> 'x option \<Rightarrow> 'v list" where
  "opt_field f x = (case x of None \<Rightarrow> [] | Some y \<Rightarrow> [f y])"

definition tail_fields ::
  "'v cbor_api \<Rightarrow> u32 \<Rightarrow> hash option \<Rightarrow> u32 \<Rightarrow> hash option \<Rightarrow> 'v option \<Rightarrow> 'v list" where
  "tail_fields C psize phash seq bl ext =
     cbor_uint C (unat psize) # opt_field (cbor_bytes C) phash @
     cbor_uint C (unat seq) # opt_field (cbor_bytes C) bl @ opt_field id ext"

definition header_fields ::
  "'v cbor_api \<Rightarrow> u16 \<Rightarrow> verifying_key \<Rightarrow> signature option \<Rightarrow> u32 \<Rightarrow> hash option \<Rightarrow> u32 \<Rightarrow>
   hash option \<Rightarrow> 'v option \<Rightarrow> 'v list" where
  "header_fields C ver vk sig psize phash seq bl ext =
     cbor_uint C (unat ver) # cbor_bytes C vk # opt_field (cbor_bytes C) sig @
     tail_fields C psize phash seq bl ext"

definition header_value :: "'v cbor_api \<Rightarrow> ('v, 'x) any_header_scheme \<Rightarrow> 'v" where
  "header_value C h =
     cbor_array C (header_fields C (version h) (verifying_key h) (Some (signature h)) (payload_size h)
       (payload_hash h) (seq_num h) (backlink h) (extensions_cbor h))"

lemma append_some_array:
  "cbor_ok C \<Longrightarrow> append_some C f x (cbor_array C vs) = cbor_array C (vs @ opt_field f x)"
  by (cases x) (simp_all add: append_some_def opt_field_def cbor_okD)

lemma encode_header_fields:
  assumes "cbor_ok C"
  shows "encode_header C ver vk sig psize phash seq bl ext =
         cbor_encode C (cbor_array C (header_fields C ver vk sig psize phash seq bl ext))"
  unfolding encode_header_def header_fields_def tail_fields_def
  by (simp add: append_some_array[OF assms] cbor_okD(2)[OF assms] Let_def)

lemma header_encode_value: "cbor_ok C \<Longrightarrow> header_encode C h = cbor_encode C (header_value C h)"
  by (simp add: header_encode_def header_value_def encode_header_fields)

subsection \<open>Reading single fields\<close>

lemma next_field_Cons [simp]: "next_field n (v # vs) = Inr (v, vs)"
  by (simp add: next_field_def)

lemma next_field_Inr: "next_field n it = Inr (v, r) \<longleftrightarrow> it = v # r"
  by (cases it) (auto simp: next_field_def)

lemma uint_field_uint:
  "cbor_ok C \<Longrightarrow> n < 2 ^ w \<Longrightarrow> uint_field C name w (cbor_uint C n # r) = Inr (n, r)"
  by (simp add: uint_field_def cbor_okD)

lemma bytes_field_bytes:
  "cbor_ok C \<Longrightarrow> length b = len \<Longrightarrow> bytes_field C name len (cbor_bytes C b # r) = Inr (b, r)"
  by (simp add: bytes_field_def cbor_okD)

lemma optional_hash_opt:
  "cbor_ok C \<Longrightarrow> (present \<longleftrightarrow> x \<noteq> None) \<Longrightarrow> (\<And>b. x = Some b \<Longrightarrow> length b = HASH_LEN) \<Longrightarrow>
   optional_hash C name present (opt_field (cbor_bytes C) x @ r) = Inr (x, r)"
  by (cases x) (auto simp: optional_hash_def opt_field_def bytes_field_bytes)

lemma bytes_field_Inr:
  "bytes_field C name len it = Inr (b, r) \<longleftrightarrow>
   (\<exists>v. it = v # r \<and> cbor_as_bytes C v = Some b \<and> length b = len)"
  by (cases it) (auto simp: bytes_field_def next_field_def split: option.splits if_splits)

lemma uint_field_Inr:
  "uint_field C name w it = Inr (n, r) \<longleftrightarrow> (\<exists>v. it = v # r \<and> cbor_to_uint C w v = Some n)"
  by (cases it) (auto simp: uint_field_def next_field_def split: option.splits)

lemma optional_hash_Inr:
  "optional_hash C name present it = Inr (x, r) \<Longrightarrow>
   (x \<noteq> None \<longleftrightarrow> present) \<and> (\<forall>b. x = Some b \<longrightarrow> length b = HASH_LEN)"
  by (auto simp: optional_hash_def bind_result_eq_Inr bytes_field_Inr split: if_splits)

subsection \<open>Well-formed headers\<close>

definition header_wf :: "('v, 'x) any_header_scheme \<Rightarrow> bool" where
  "header_wf h \<longleftrightarrow>
     version h = 1 \<and>
     length (signature h) = SIGNATURE_LEN \<and>
     (payload_hash h \<noteq> None \<longleftrightarrow> 0 < payload_size h) \<and>
     (backlink h \<noteq> None \<longleftrightarrow> 0 < seq_num h) \<and>
     (\<forall>b. payload_hash h = Some b \<longrightarrow> length b = HASH_LEN) \<and>
     (\<forall>b. backlink h = Some b \<longrightarrow> length b = HASH_LEN)"

lemma decode_fields_wf: "decode_fields C K it = Inr h \<Longrightarrow> header_wf h"
  unfolding decode_fields_def
  by (auto simp: bind_result_eq_Inr header_wf_def Let_def bytes_field_Inr
           split: prod.splits option.splits if_splits dest!: optional_hash_Inr)

lemma decode_fields_fields:
  assumes C: "cbor_ok C"
    and wf: "header_wf h"
    and vk: "length (verifying_key h) = VERIFYING_KEY_LEN"
            "key_from_bytes K (verifying_key h) = Some (verifying_key h)"
  shows "decode_fields C K
           (header_fields C (version h) (verifying_key h) (Some (signature h)) (payload_size h)
              (payload_hash h) (seq_num h) (backlink h) (extensions_cbor h)) =
         Inr \<lparr>version = version h, verifying_key = verifying_key h, signature = signature h,
              payload_size = payload_size h, payload_hash = payload_hash h, seq_num = seq_num h,
              backlink = backlink h, header_size = 0, digest = [],
              extensions_cbor = extensions_cbor h\<rparr>"
proof -
  have w16: "Suc 0 < 2 ^ 16" and w32: "unat (payload_size h) < 2 ^ 32" "unat (seq_num h) < 2 ^ 32"
    using unsigned_less[of "payload_size h"] unsigned_less[of "seq_num h"] by simp_all
  note fields = uint_field_uint[OF C w16] uint_field_uint[OF C w32(1)] uint_field_uint[OF C w32(2)]
    bytes_field_bytes[OF C] optional_hash_opt[OF C]
  have ext: "(case opt_field id (extensions_cbor h) of [] \<Rightarrow> None | v # _ \<Rightarrow> Some v) = extensions_cbor h"
    "(case opt_field id (extensions_cbor h) of [] \<Rightarrow> [] | _ # r \<Rightarrow> r) = []"
    by (cases "extensions_cbor h"; simp add: opt_field_def)+
  have sig: "opt_field (cbor_bytes C) (Some (signature h)) = [cbor_bytes C (signature h)]"
    by (simp add: opt_field_def)
  show ?thesis
    using wf vk unfolding header_wf_def decode_fields_def header_fields_def tail_fields_def sig
    by (simp add: fields ext Let_def)
qed

lemma any_header_decode_encode:
  assumes C: "cbor_ok C"
    and wf: "header_wf h"
    and vk: "length (verifying_key h) = VERIFYING_KEY_LEN"
            "key_from_bytes K (verifying_key h) = Some (verifying_key h)"
    and lim: "cbor_within_limits C (header_value C h)"
    and sig: "key_verify K (verifying_key h)
                (encode_header C (version h) (verifying_key h) None (payload_size h)
                   (payload_hash h) (seq_num h) (backlink h) (extensions_cbor h)) (signature h)"
  shows "any_header_decode C K (header_encode C h) =
         Inr ((any_header.truncate h)\<lparr>header_size := of_nat (length (header_encode C h)),
                                     digest := hash_digest K (header_encode C h)\<rparr>)"
  using sig unfolding any_header_decode_def encode_header_fields[OF C] header_encode_value[OF C]
  by (simp add: cbor_okD(5)[OF C lim])
     (simp add: header_value_def cbor_okD(1)[OF C] decode_fields_fields[OF C wf vk] Let_def
        any_header.truncate_def, simp add: header_fields_def opt_field_def)

lemma any_header_decode_wf: "any_header_decode C K bs = Inr h \<Longrightarrow> header_wf h"
  by (auto simp: any_header_decode_def Let_def bind_result_eq_Inr header_wf_def
           split: option.splits if_splits dest!: decode_fields_wf)

subsection \<open>The builder\<close>

definition builder_wf :: "builder \<Rightarrow> bool" where
  "builder_wf b \<longleftrightarrow>
     (b_payload_hash b \<noteq> None \<longleftrightarrow> 0 < b_payload_size b) \<and>
     (b_backlink b \<noteq> None \<longleftrightarrow> 0 < b_seq_num b) \<and>
     (\<forall>h. b_payload_hash b = Some h \<longrightarrow> length h = HASH_LEN) \<and>
     (\<forall>h. b_backlink b = Some h \<longrightarrow> length h = HASH_LEN)"

lemma builder_wf_new: "builder_wf builder_new"
  by (simp add: builder_wf_def builder_new_def)

lemma builder_wf_body: "crypto_ok K \<Longrightarrow> builder_wf b \<Longrightarrow> builder_wf (builder_body K bs b)"
  by (auto simp: builder_wf_def builder_body_def Let_def crypto_okD word_gt_0)

lemma builder_wf_chain: "length bl = HASH_LEN \<Longrightarrow> builder_wf b \<Longrightarrow> builder_wf (builder_chain seq bl b)"
  by (auto simp: builder_wf_def builder_chain_def)

lemmas builder_wf_intros = builder_wf_new builder_wf_body builder_wf_chain

lemma build_Some:
  assumes "build C K E b sk ext = Some h"
  shows "version h = 1" "verifying_key h = key_of K sk"
    "payload_size h = b_payload_size b" "payload_hash h = b_payload_hash b"
    "seq_num h = b_seq_num b" "backlink h = b_backlink b" "extensions h = ext"
    "extensions_value E ext = Some (extensions_cbor h)"
    "signature h = key_sign K sk
       (encode_header C (version h) (verifying_key h) None (payload_size h) (payload_hash h)
          (seq_num h) (backlink h) (extensions_cbor h))"
    "header_size h = of_nat (length (header_encode C h))"
    "digest h = hash_digest K (header_encode C h)"
  using assms by (auto simp: build_def Let_def header_encode_def split: option.splits)

lemma build_wf:
  "crypto_ok K \<Longrightarrow> builder_wf b \<Longrightarrow> build C K E b sk ext = Some h \<Longrightarrow> header_wf h"
  by (simp add: header_wf_def builder_wf_def build_Some[of C K E b sk ext h] crypto_okD)

lemma decode_built:
  assumes C: "cbor_ok C" and K: "crypto_ok K" and b: "builder_wf b"
    and h: "build C K E b sk ext = Some h"
    and lim: "cbor_within_limits C (header_value C h)"
  shows "any_header_decode C K (header_encode C h) = Inr (any_of_header h)"
proof -
  note H = build_Some[OF h]
  have "key_verify K (verifying_key h)
          (encode_header C (version h) (verifying_key h) None (payload_size h) (payload_hash h)
             (seq_num h) (backlink h) (extensions_cbor h)) (signature h)"
    unfolding H(2) using H(9)[unfolded H(2)] crypto_okD(5)[OF K] by metis
  note any_header_decode_encode[OF C build_wf[OF K b h] _ _ lim this]
  then show ?thesis
    using H(2) H(10,11)[symmetric]
    by (simp add: crypto_okD[OF K] any_of_header_def any_header.truncate_def)
qed

definition ext_ok :: "('e, 'v) ext_api \<Rightarrow> bool" where
  "ext_ok E \<longleftrightarrow>
     (\<forall>u e. ext_zero_sized E = Some u \<longrightarrow> e = u) \<and>
     (\<forall>e v. ext_serialized E e = Some v \<longrightarrow> ext_deserialized E v = Some e)"

lemma header_of_any_truncate:
  assumes E: "ext_ok E" and v: "extensions_value E (extensions h) = Some (extensions_cbor h)"
  shows "header_of_any E (any_of_header h) = Inr h"
proof -
  have *: "any_header.extend (any_header.truncate h) (header.fields (extensions h)) = h"
    by (cases h) (simp add: any_header.extend_def any_header.truncate_def header.fields_def)
  show ?thesis
  proof (cases "ext_zero_sized E")
    case None
    with v obtain z where "ext_serialized E (extensions h) = Some z" "extensions_cbor h = Some z"
      by (cases "ext_serialized E (extensions h)") (simp_all add: extensions_value_def)
    then show ?thesis
      using E None * by (simp add: header_of_any_def any_of_header_def ext_ok_def any_header.truncate_def)
  next
    case (Some u)
    moreover have "extensions h = u"
      using E Some by (simp add: ext_ok_def)
    ultimately show ?thesis
      using v * by (auto simp: header_of_any_def any_of_header_def extensions_value_def
                               any_header.truncate_def)
  qed
qed

subsection \<open>Length-framed arrays: an instance of the codec and the key scheme\<close>

text \<open>
  A codec whose values are their own encoding: an array is the sequence of its elements, each byte
  preceded by a one and each element closed by a zero. It satisfies \<open>cbor_ok\<close>, and \<open>prefix_keys\<close>
  satisfies \<open>crypto_ok\<close>; the concrete instances of the properties are stated over them.
\<close>

definition frame :: "bytes \<Rightarrow> bytes" where
  "frame b = concat (map (\<lambda>x. [1, x]) b) @ [0]"

fun unframe :: "bytes \<Rightarrow> bytes \<Rightarrow> bytes list option" where
  "unframe acc [] = (if acc = [] then Some [] else None)"
| "unframe acc [m] = (if m = 0 then Some [rev acc] else None)"
| "unframe acc (m # x # r) =
     (if m = 0 then map_option ((#) (rev acc)) (unframe [] (x # r)) else unframe (x # acc) r)"

definition framed :: "bytes cbor_api" where
  "framed =
     \<lparr>cbor_array = \<lambda>vs. concat (map frame vs),
      cbor_append = \<lambda>a v. a @ frame v,
      cbor_uint = \<lambda>n. replicate n 1,
      cbor_bytes = \<lambda>b. b,
      cbor_encode = \<lambda>v. v,
      cbor_decode = Some,
      cbor_into_array = unframe [],
      cbor_as_bytes = Some,
      cbor_to_uint = \<lambda>w v. if length v < 2 ^ w then Some (length v) else None,
      cbor_within_limits = \<lambda>_. True\<rparr>"

definition pad :: "nat \<Rightarrow> bytes \<Rightarrow> bytes" where
  "pad n b = take n (b @ replicate n 0)"

definition prefix_keys :: "u8 crypto_api" where
  "prefix_keys =
     \<lparr>hash_digest = pad HASH_LEN,
      key_from_bytes = Some,
      key_verify = \<lambda>k m s. s = pad SIGNATURE_LEN (take 1 k @ m),
      key_of = \<lambda>sk. replicate VERIFYING_KEY_LEN sk,
      key_sign = \<lambda>sk m. pad SIGNATURE_LEN (sk # m)\<rparr>"

definition unit_ext :: "(unit, 'v) ext_api" where
  "unit_ext = \<lparr>ext_zero_sized = Some (), ext_serialized = \<lambda>_. None, ext_deserialized = \<lambda>_. None\<rparr>"

lemma unframe_frame:
  "unframe acc (concat (map (\<lambda>x. [1, x]) b) @ 0 # r) = map_option ((#) (rev acc @ b)) (unframe [] r)"
  by (induction b arbitrary: acc) (cases r; simp)+

lemma unframe_concat: "unframe [] (concat (map frame vs)) = Some vs"
  by (induction vs) (simp_all add: frame_def unframe_frame)

lemma length_pad [simp]: "length (pad n b) = n"
  by (simp add: pad_def)

lemma cbor_ok_framed: "cbor_ok framed"
  by (simp add: cbor_ok_def framed_def unframe_concat)

lemma crypto_ok_prefix_keys: "crypto_ok prefix_keys"
  by (simp add: crypto_ok_def prefix_keys_def VERIFYING_KEY_LEN_def numeral_eq_Suc)

lemma ext_ok_unit: "ext_ok unit_ext"
  by (simp add: ext_ok_def unit_ext_def)

lemma within_limits_framed: "cbor_within_limits framed v"
  by (simp add: framed_def)

end
