(* ===== verification/Core_Validation.thy ===== *)
theory Core_Validation
  imports Core_Operation
begin

section \<open>Validation of operations, of log integrity and of prunable logs\<close>

text \<open>
  \<open>p2panda-core/src/operation/validation.rs\<close> and \<open>p2panda-core/src/prune.rs\<close>. The functions are
  generic over the traits \<open>Provenance\<close>, \<open>Digest\<close>, \<open>Chain\<close> and \<open>Offchain\<close>; \<open>log_item\<close> holds what
  the methods of these traits return, and \<open>item_of_header\<close>, \<open>item_of_operation\<close> and their
  type-erased variants are the implementations of the traits. Sequence numbers are 32 bits wide
  and \<open>seq_num() + 1\<close> wraps.
\<close>

record log_item =
  it_hash :: hash
  it_author :: verifying_key
  it_verify :: bool
  it_backlink :: "hash option"
  it_seq_num :: u32
  it_payload :: "body option"
  it_payload_hash :: "hash option"
  it_payload_size :: u32

definition item_of_header :: "('v, 'x) any_header_scheme \<Rightarrow> log_item" where
  "item_of_header h =
     \<lparr>it_hash = digest h, it_author = verifying_key h, it_verify = True, it_backlink = backlink h,
      it_seq_num = seq_num h, it_payload = None, it_payload_hash = payload_hash h,
      it_payload_size = payload_size h\<rparr>"

definition item_of_operation :: "('v, 'e) operation \<Rightarrow> log_item" where
  "item_of_operation p =
     (item_of_header (op_header p))\<lparr>it_hash := op_hash p, it_payload := op_body p\<rparr>"

definition item_of_any_operation :: "'v any_operation \<Rightarrow> log_item" where
  "item_of_any_operation p =
     (item_of_header (any_op_header p))\<lparr>it_hash := any_op_hash p, it_payload := any_op_body p\<rparr>"

definition validate_header :: "log_item \<Rightarrow> operation_error + unit" where
  "validate_header h =
     (if \<not> it_verify h then Inl SignatureMismatch
      else if (it_payload_hash h \<noteq> None \<and> it_payload_size h = 0) \<or>
              (it_payload_hash h = None \<and> 0 < it_payload_size h)
           then Inl InconsistentPayloadInfo
      else if it_backlink h \<noteq> None \<and> it_seq_num h = 0 then Inl SeqNumMismatch
      else if it_backlink h = None \<and> 0 < it_seq_num h then Inl BacklinkMissing
      else Inr ())"

definition validate_operation :: "'sk crypto_api \<Rightarrow> log_item \<Rightarrow> operation_error + unit" where
  "validate_operation K p =
     bind_result (validate_header p) (\<lambda>_.
     (let claimed_size = it_payload_size p
      in bind_result
           (if claimed_size = 0 then Inr None
            else (case it_payload_hash p of None \<Rightarrow> Inl MissingPayloadHash | Some h \<Rightarrow> Inr (Some h)))
           (\<lambda>claimed_hash.
              case it_payload p of
                None \<Rightarrow> Inr ()
              | Some body \<Rightarrow>
                  if claimed_hash \<noteq> Some (body_hash K body) \<or> claimed_size \<noteq> body_size body
                  then Inl PayloadMismatch else Inr ())))"

definition validate_backlink :: "log_item \<Rightarrow> log_item \<Rightarrow> operation_error + unit" where
  "validate_backlink past h =
     (if it_author past \<noteq> it_author h then Inl TooManyAuthors
      else if it_seq_num past + 1 \<noteq> it_seq_num h
           then Inl (SeqNumNonIncremental (it_seq_num past + 1) (it_seq_num h))
      else (case it_backlink h of
              Some bl \<Rightarrow> if it_hash past \<noteq> bl then Inl BacklinkMismatch else Inr ()
            | None \<Rightarrow> Inl BacklinkMissing))"

definition validate_prunable_backlink ::
  "log_item option \<Rightarrow> log_item \<Rightarrow> bool \<Rightarrow> operation_error + unit" where
  "validate_prunable_backlink past h prune_flag =
     (if 0 < it_seq_num h
      then (if \<not> prune_flag
            then (case past of Some p \<Rightarrow> validate_backlink p h | None \<Rightarrow> Inl BacklinkMissing)
            else Inr ())
      else (case past of Some p \<Rightarrow> validate_backlink p h | None \<Rightarrow> Inr ()))"

subsection \<open>Characterisations\<close>

lemma validate_header_ok:
  "validate_header h = Inr u \<longleftrightarrow>
   it_verify h \<and> (it_payload_hash h \<noteq> None \<longleftrightarrow> 0 < it_payload_size h) \<and>
   (it_backlink h \<noteq> None \<longleftrightarrow> 0 < it_seq_num h)"
  by (auto simp: validate_header_def word_gt_0)

lemma validate_operation_ok:
  "validate_operation K p = Inr u \<longleftrightarrow>
   validate_header p = Inr () \<and>
   (\<forall>body. it_payload p = Some body \<longrightarrow>
      it_payload_hash p = Some (body_hash K body) \<and> it_payload_size p = body_size body)"
proof (cases "validate_header p")
  case (Inr v)
  then have "it_payload_hash p \<noteq> None \<longleftrightarrow> 0 < it_payload_size p"
    by (simp add: validate_header_ok)
  with Inr show ?thesis
    by (cases "it_payload_hash p"; cases "it_payload p")
       (auto simp: validate_operation_def Let_def word_gt_0)
qed (simp add: validate_operation_def)

lemma validate_backlink_ok:
  "validate_backlink past h = Inr u \<longleftrightarrow>
   it_author past = it_author h \<and> it_seq_num h = it_seq_num past + 1 \<and>
   it_backlink h = Some (it_hash past)"
  by (auto simp: validate_backlink_def split: option.splits)

lemma validate_header_item: "header_wf h \<Longrightarrow> validate_header (item_of_header h) = Inr ()"
  by (simp add: validate_header_ok item_of_header_def header_wf_def)

lemma validate_built:
  assumes "crypto_ok K" "builder_wf b" "build C K E b sk ext = Some h"
  shows "validate_header (item_of_operation (operation_from_parts h body)) = Inr ()"
  using validate_header_item[OF build_wf[OF assms]]
  by (simp add: validate_header_ok item_of_operation_def operation_from_parts_def item_of_header_def)

subsection \<open>Properties\<close>


definition example_header :: "(bytes, unit) header" where
  "example_header =
     the (build framed prefix_keys unit_ext
            (builder_chain 7 (replicate 32 9) (builder_body prefix_keys [4, 2] builder_new)) 5 ())"

lemma example_header_built:
  "build framed prefix_keys unit_ext
     (builder_chain 7 (replicate 32 9) (builder_body prefix_keys [4, 2] builder_new)) 5 () =
   Some example_header"
  by (simp add: example_header_def build_def extensions_value_def unit_ext_def Let_def)




text \<open>C28: What decoding guarantees. Every header accepted from the network, whatever the bytes, has
  version 1, hashes of the right length exactly when size and sequence number are positive, a
  signature over the header without its signature field that verifies under the claimed key, and
  the digest and size of the received bytes; \<open>validate_header\<close> never rejects it.\<close>

theorem decoded_header_valid:
  assumes "any_header_decode C K bs = Inr h"
  shows "header_wf h \<and> validate_header (item_of_header h) = Inr () \<and>
         digest h = hash_digest K bs \<and> header_size h = of_nat (length bs) \<and>
         (\<exists>v sq. cbor_decode C bs = Some v \<and> cbor_into_array C v = Some sq \<and>
            key_verify K (verifying_key h) (cbor_encode C (cbor_array C (take 2 sq @ drop 3 sq)))
              (signature h))"
proof -
  have "header_wf h"
    using assms by (rule any_header_decode_wf)
  moreover have "digest h = hash_digest K bs \<and> header_size h = of_nat (length bs) \<and>
         (\<exists>v sq. cbor_decode C bs = Some v \<and> cbor_into_array C v = Some sq \<and>
            key_verify K (verifying_key h) (cbor_encode C (cbor_array C (take 2 sq @ drop 3 sq)))
              (signature h))"
    using assms
    by (auto simp: any_header_decode_def Let_def bind_result_eq_Inr split: option.splits if_splits)
  ultimately show ?thesis
    by (simp add: validate_header_item)
qed

theorem decoded_header_valid_witness:
  "header_wf (any_of_header example_header) \<and>
   validate_header (item_of_header (any_of_header example_header)) = Inr ()"
  using decoded_header_valid[OF decode_built[OF cbor_ok_framed crypto_ok_prefix_keys _
        example_header_built within_limits_framed]]
  by (simp add: builder_wf_intros HASH_LEN_def crypto_ok_prefix_keys)

subsection \<open>Append-only logs\<close>

text \<open>\<open>accepts past hs\<close>: the items \<open>hs\<close> arrive one after the other at a log whose latest item is
  \<open>past\<close>, and each passes \<open>validate_header\<close> and, without a prune flag, the integrity check against
  its predecessor.\<close>

fun accepts :: "log_item option \<Rightarrow> log_item list \<Rightarrow> bool" where
  "accepts past [] = True"
| "accepts past (h # hs) =
     (validate_header h = Inr () \<and> validate_prunable_backlink past h False = Inr () \<and>
      accepts (Some h) hs)"

lemma accepted_successor:
  assumes "validate_header h = Inr ()" "validate_prunable_backlink (Some p) h False = Inr ()"
  shows "it_author h = it_author p \<and> it_backlink h = Some (it_hash p) \<and>
         unat (it_seq_num h) = Suc (unat (it_seq_num p))"
proof -
  have b: "it_author p = it_author h" "it_seq_num h = it_seq_num p + 1" "it_backlink h = Some (it_hash p)"
    using assms(2) by (auto simp: validate_prunable_backlink_def validate_backlink_ok split: if_splits)
  then have "it_seq_num p + 1 \<noteq> 0"
    using assms(1) by (auto simp: validate_header_ok word_gt_0)
  then show ?thesis
    using b unatSuc[of "it_seq_num p"] by (simp add: add.commute)
qed

lemma accepts_chain:
  "accepts (Some p) hs \<Longrightarrow> i < length hs \<Longrightarrow>
   unat (it_seq_num (hs ! i)) = Suc (unat (it_seq_num p) + i) \<and>
   it_author (hs ! i) = it_author p \<and>
   it_backlink (hs ! i) = Some (it_hash ((p # hs) ! i))"
proof (induction hs arbitrary: p i)
  case (Cons h hs)
  then show ?case
    using accepted_successor[of h p] by (cases i) auto
qed simp

text \<open>C19: Log integrity. A log accepted item by item from its beginning, without pruning, is one
  hash chain: the item at position i has sequence number i, all items have the author of the first,
  and every later item links back to the hash of the one before it. In particular the sequence
  number never wraps, so no such log is longer than 2^32 items.\<close>

theorem accepted_log_is_chain:
  assumes "accepts None hs" "i < length hs"
  shows "unat (it_seq_num (hs ! i)) = i \<and> it_author (hs ! i) = it_author (hs ! 0) \<and>
         it_backlink (hs ! i) = (if i = 0 then None else Some (it_hash (hs ! (i - 1)))) \<and>
         length hs \<le> 2 ^ 32"
proof -
  obtain h t where hs: "hs = h # t"
    using assms(2) by (cases hs) auto
  have h0: "it_seq_num h = 0" "it_backlink h = None" and t: "accepts (Some h) t"
    using assms(1) hs by (auto simp: validate_prunable_backlink_def validate_header_ok word_gt_0
        split: if_splits)
  have seq: "unat (it_seq_num (hs ! j)) = j" if "j < length hs" for j
    using that accepts_chain[OF t, of "j - 1"] h0 hs by (cases j) auto
  have "length hs - 1 < 2 ^ 32"
    using seq[of "length hs - 1"] unat_u32_less[of "it_seq_num (hs ! (length hs - 1))"] hs by simp
  moreover have "it_author (hs ! i) = it_author (hs ! 0) \<and>
      it_backlink (hs ! i) = (if i = 0 then None else Some (it_hash (hs ! (i - 1))))"
    using assms(2) accepts_chain[OF t, of "i - 1"] h0 hs by (cases i) auto
  ultimately show ?thesis
    using seq[OF assms(2)] by simp
qed

definition example_log :: "log_item list" where
  "example_log =
     [\<lparr>it_hash = [1], it_author = [7], it_verify = True, it_backlink = None, it_seq_num = 0,
       it_payload = None, it_payload_hash = None, it_payload_size = 0\<rparr>,
      \<lparr>it_hash = [2], it_author = [7], it_verify = True, it_backlink = Some [1], it_seq_num = 1,
       it_payload = None, it_payload_hash = None, it_payload_size = 0\<rparr>]"

theorem accepted_log_is_chain_witness:
  "accepts None example_log \<and> it_backlink (example_log ! 1) = Some (it_hash (example_log ! 0))"
  using accepted_log_is_chain[of example_log 1]
  by (simp add: example_log_def validate_header_def validate_prunable_backlink_def validate_backlink_def)

text \<open>Operations carrying an empty body never validate. The builder records size 0 and no hash
  for an empty body, and \<open>validate_operation\<close> compares the missing hash with the hash of the empty
  body: the operation built from that very body is rejected with \<open>PayloadMismatch\<close>.\<close>

lemma empty_body_rejected:
  assumes "crypto_ok K" "length bl = HASH_LEN"
    and "build C K E (builder_chain seq bl (builder_body K [] builder_new)) sk ext = Some h"
  shows "validate_operation K (item_of_operation (operation_from_parts h (Some []))) =
         Inl PayloadMismatch"
proof -
  have "builder_wf (builder_chain seq bl (builder_body K [] builder_new))"
    using assms(1,2) by (intro builder_wf_intros)
  note validate_built[OF assms(1) this assms(3), of "Some []"]
  moreover have "payload_size h = 0"
    using build_Some(3)[OF assms(3)] by (simp add: builder_chain_def builder_body_def Let_def)
  ultimately show ?thesis
    by (simp add: validate_operation_def item_of_operation_def operation_from_parts_def
        item_of_header_def)
qed

lemma empty_body_rejected_example:
  "\<exists>h. build framed prefix_keys unit_ext
          (builder_chain 0 (replicate 32 0) (builder_body prefix_keys [] builder_new)) 5 () = Some h \<and>
       validate_operation prefix_keys (item_of_operation (operation_from_parts h (Some []))) =
         Inl PayloadMismatch"
proof -
  obtain h where h: "build framed prefix_keys unit_ext
      (builder_chain 0 (replicate 32 0) (builder_body prefix_keys [] builder_new)) 5 () = Some h"
    by (simp add: build_def extensions_value_def unit_ext_def Let_def)
  show ?thesis
    using empty_body_rejected[OF crypto_ok_prefix_keys _ h] h by (simp add: HASH_LEN_def)
qed

end
