(* ===== verification/Auth_Access.thy ===== *)
theory Auth_Access
  imports Prelude
begin

section \<open>Access levels, conditions, members and actions\<close>

text \<open>
  \<open>p2panda-auth/src/access.rs\<close>, \<open>group/member.rs\<close> and \<open>group/action.rs\<close>. The conditions type
  \<open>C\<close> belongs to the application; its \<open>PartialOrd\<close> is the argument \<open>pc\<close> of the definitions that
  compare accesses. The operators \<open><\<close>, \<open><=\<close> and \<open>>=\<close> of Rust read the partial comparison.
\<close>

datatype ordering = Less | Equal | Greater

datatype access_level = Pull | Read | Write | Manage

record 'c access =
  conditions :: "'c option"
  level :: access_level

fun level_rank :: "access_level \<Rightarrow> nat" where
  "level_rank Pull = 0"
| "level_rank Read = 1"
| "level_rank Write = 2"
| "level_rank Manage = 3"

lemma level_rank_inj [simp]: "level_rank x = level_rank y \<longleftrightarrow> x = y"
  by (cases x; cases y) simp_all

instantiation access_level :: linorder
begin

definition less_eq_access_level :: "access_level \<Rightarrow> access_level \<Rightarrow> bool" where
  "less_eq_access_level x y \<longleftrightarrow> level_rank x \<le> level_rank y"

definition less_access_level :: "access_level \<Rightarrow> access_level \<Rightarrow> bool" where
  "less_access_level x y \<longleftrightarrow> level_rank x < level_rank y"

instance
  by intro_classes (auto simp: less_eq_access_level_def less_access_level_def)

end

lemmas level_order_simps = less_eq_access_level_def less_access_level_def

definition can_read :: "access_level \<Rightarrow> bool" where
  "can_read l \<longleftrightarrow> l = Read \<or> l = Write \<or> l = Manage"

definition can_write :: "access_level \<Rightarrow> bool" where
  "can_write l \<longleftrightarrow> l = Write \<or> l = Manage"

definition can_manage :: "access_level \<Rightarrow> bool" where
  "can_manage l \<longleftrightarrow> l = Manage"

definition access_pull :: "'c access" where
  "access_pull = \<lparr>conditions = None, level = Pull\<rparr>"

definition access_read :: "'c access" where
  "access_read = \<lparr>conditions = None, level = Read\<rparr>"

definition access_write :: "'c access" where
  "access_write = \<lparr>conditions = None, level = Write\<rparr>"

definition access_manage :: "'c access" where
  "access_manage = \<lparr>conditions = None, level = Manage\<rparr>"

definition with_conditions :: "'c \<Rightarrow> 'c access \<Rightarrow> 'c access" where
  "with_conditions c a = a\<lparr>conditions := Some c\<rparr>"

definition is_pull :: "'c access \<Rightarrow> bool" where
  "is_pull a \<longleftrightarrow> level a = Pull"

definition is_manage :: "'c access \<Rightarrow> bool" where
  "is_manage a \<longleftrightarrow> level a = Manage"

definition level_cmp :: "access_level \<Rightarrow> access_level \<Rightarrow> ordering" where
  "level_cmp x y = (if x < y then Less else if x = y then Equal else Greater)"

type_synonym 'c cond_cmp = "'c \<Rightarrow> 'c \<Rightarrow> ordering option"

definition access_partial_cmp :: "'c cond_cmp \<Rightarrow> 'c access \<Rightarrow> 'c access \<Rightarrow> ordering option" where
  "access_partial_cmp pc a b =
     (case (conditions a, conditions b) of
        (Some self_cond, Some other_cond) \<Rightarrow>
          (case pc self_cond other_cond of
             Some Less \<Rightarrow> Some Less
           | Some _ \<Rightarrow> (case level_cmp (level a) (level b) of Less \<Rightarrow> Some Less | _ \<Rightarrow> Some Greater)
           | None \<Rightarrow> None)
      | (None, Some _) \<Rightarrow>
          (case level_cmp (level a) (level b) of Less \<Rightarrow> Some Less | _ \<Rightarrow> Some Greater)
      | _ \<Rightarrow> Some (level_cmp (level a) (level b)))"

definition access_cmp :: "'c cond_cmp \<Rightarrow> 'c access \<Rightarrow> 'c access \<Rightarrow> ordering" where
  "access_cmp pc a b = (case access_partial_cmp pc a b of None \<Rightarrow> Less | Some r \<Rightarrow> r)"

definition access_lt :: "'c cond_cmp \<Rightarrow> 'c access \<Rightarrow> 'c access \<Rightarrow> bool" where
  "access_lt pc a b \<longleftrightarrow> access_partial_cmp pc a b = Some Less"

definition access_le :: "'c cond_cmp \<Rightarrow> 'c access \<Rightarrow> 'c access \<Rightarrow> bool" where
  "access_le pc a b \<longleftrightarrow> access_partial_cmp pc a b \<in> {Some Less, Some Equal}"

definition access_gt :: "'c cond_cmp \<Rightarrow> 'c access \<Rightarrow> 'c access \<Rightarrow> bool" where
  "access_gt pc a b \<longleftrightarrow> access_partial_cmp pc a b = Some Greater"

definition access_ge :: "'c cond_cmp \<Rightarrow> 'c access \<Rightarrow> 'c access \<Rightarrow> bool" where
  "access_ge pc a b \<longleftrightarrow> access_partial_cmp pc a b \<in> {Some Greater, Some Equal}"

definition access_to_string :: "'c access \<Rightarrow> string" where
  "access_to_string a =
     (case level a of Pull \<Rightarrow> ''pull'' | Read \<Rightarrow> ''read'' | Write \<Rightarrow> ''write'' | Manage \<Rightarrow> ''manage'')"

definition access_from_str :: "string \<Rightarrow> string + 'c access" where
  "access_from_str s =
     (if s = ''pull'' then Inr access_pull
      else if s = ''read'' then Inr access_read
      else if s = ''write'' then Inr access_write
      else if s = ''manage'' then Inr access_manage
      else Inl s)"

subsection \<open>Members and actions\<close>

datatype 'id group_member = Individual 'id | Group 'id

definition member_id :: "'id group_member \<Rightarrow> 'id" where
  "member_id m = (case m of Individual i \<Rightarrow> i | Group i \<Rightarrow> i)"

definition is_group :: "'id group_member \<Rightarrow> bool" where
  "is_group m = (case m of Individual _ \<Rightarrow> False | Group _ \<Rightarrow> True)"

definition is_individual :: "'id group_member \<Rightarrow> bool" where
  "is_individual m \<longleftrightarrow> \<not> is_group m"

datatype ('id, 'c) group_action =
    Create "('id group_member \<times> 'c access) list"
  | Add "'id group_member" "'c access"
  | Remove "'id group_member"
  | Promote "'id group_member" "'c access"
  | Demote "'id group_member" "'c access"

definition is_create :: "('id, 'c) group_action \<Rightarrow> bool" where
  "is_create a = (case a of Create _ \<Rightarrow> True | _ \<Rightarrow> False)"

definition required_groups :: "('id, 'c) group_action \<Rightarrow> 'id list" where
  "required_groups a =
     (let members = (case a of
                       Create initial \<Rightarrow> map fst initial
                     | Add m _ \<Rightarrow> [m]
                     | Remove m \<Rightarrow> [m]
                     | Promote m _ \<Rightarrow> [m]
                     | Demote m _ \<Rightarrow> [m])
      in List.map_filter (\<lambda>m. case m of Individual _ \<Rightarrow> None | Group i \<Rightarrow> Some i) members)"

subsection \<open>Accesses without conditions\<close>

definition unconditional :: "'c access \<Rightarrow> bool" where
  "unconditional a \<longleftrightarrow> conditions a = None"

lemma partial_cmp_unconditional:
  "unconditional b \<Longrightarrow> access_partial_cmp pc a b = Some (level_cmp (level a) (level b))"
  by (cases "conditions a") (simp_all add: access_partial_cmp_def unconditional_def)

lemma access_order_unconditional:
  assumes "unconditional b"
  shows "access_lt pc a b \<longleftrightarrow> level a < level b"
    and "access_le pc a b \<longleftrightarrow> level a \<le> level b"
    and "access_gt pc a b \<longleftrightarrow> level b < level a"
    and "access_ge pc a b \<longleftrightarrow> level b \<le> level a"
  unfolding access_lt_def access_le_def access_gt_def access_ge_def
    partial_cmp_unconditional[OF assms] level_cmp_def
  by auto

lemma unconditional_eq_iff: "unconditional a \<Longrightarrow> unconditional b \<Longrightarrow> a = b \<longleftrightarrow> level a = level b"
  by (cases a; cases b) (simp add: unconditional_def)

lemma access_roundtrip:
  "unconditional a \<Longrightarrow> access_from_str (access_to_string a) = Inr a"
  by (cases a; cases "level a")
     (simp_all add: unconditional_def access_to_string_def access_from_str_def access_pull_def
        access_read_def access_write_def access_manage_def)

text \<open>With conditions attached, an access is never lower or equal to itself. Comparing an access
  that carries a condition with itself gives \<open>Greater\<close> for every reflexive order on conditions, so
  \<open>a <= a\<close> is false and both \<open>a > a\<close> and \<open>a >= a\<close> hold, while accesses without conditions are
  compared as a total order of their levels.\<close>

lemma conditional_access_not_reflexive:
  "(conditions a = Some c \<and> pc c c = Some Equal \<longrightarrow>
      access_partial_cmp pc a a = Some Greater \<and> \<not> access_le pc a a \<and> access_gt pc a a) \<and>
   (conditions a = None \<longrightarrow> access_le pc a a \<and> \<not> access_gt pc a a)"
  using access_order_unconditional[of a pc a]
  by (auto simp: unconditional_def access_partial_cmp_def level_cmp_def access_le_def access_gt_def)

lemma conditional_access_not_reflexive_example:
  "access_gt (\<lambda>_ _. Some Equal) (with_conditions () access_read) (with_conditions () access_read)"
  using conditional_access_not_reflexive[of "with_conditions () access_read" "()" "\<lambda>_ _. Some Equal"]
  by (simp add: with_conditions_def)

end
