(* ===== verification/Auth_State.thy ===== *)
theory Auth_State
  imports Auth_Access
begin

section \<open>Group membership as a causal-length CRDT\<close>

text \<open>
  \<open>p2panda-auth/src/group/crdt/state.rs\<close>. Counters are \<open>usize\<close> values of a 64-bit target; a
  member is active when its counter is odd. The state is keyed by any identifier type, which the
  group CRDT instantiates with \<open>group_member\<close>.
\<close>

datatype 'id membership_error =
    AlreadyAdded 'id
  | AlreadyRemoved 'id
  | InsufficientAccess 'id
  | InactiveActor 'id
  | InactiveMember 'id
  | UnrecognisedActor 'id
  | UnrecognisedMember 'id

record 'c member_state =
  member_counter :: u64
  access :: "'c access"
  access_counter :: u64

definition is_member :: "'c member_state \<Rightarrow> bool" where
  "is_member s \<longleftrightarrow> \<not> even (member_counter s)"

definition is_puller :: "'c member_state \<Rightarrow> bool" where
  "is_puller s \<longleftrightarrow> is_pull (access s)"

definition is_manager :: "'c member_state \<Rightarrow> bool" where
  "is_manager s \<longleftrightarrow> is_manage (access s)"

record ('id, 'c) members_state =
  members :: "('id, 'c member_state) amap"

definition active_members :: "('id, 'c) members_state \<Rightarrow> 'id set" where
  "active_members st = fst ` set (filter (\<lambda>(_, s). is_member s) (members st))"

definition access_levels :: "('id, 'c) members_state \<Rightarrow> ('id \<times> 'c access) list" where
  "access_levels st = map (\<lambda>(i, s). (i, access s)) (filter (\<lambda>(_, s). is_member s) (members st))"

definition managers :: "('id, 'c) members_state \<Rightarrow> 'id set" where
  "managers st = fst ` set (filter (\<lambda>(_, s). is_member s \<and> is_manager s) (members st))"

definition create :: "('id \<times> 'c access) list \<Rightarrow> ('id, 'c) members_state" where
  "create initial =
     \<lparr>members = fold (\<lambda>(i, a) m.
        amap_insert i \<lparr>member_counter = 1, access = a, access_counter = 0\<rparr> m) initial []\<rparr>"

definition add ::
  "('id, 'c) members_state \<Rightarrow> 'id \<Rightarrow> 'id \<Rightarrow> 'c access \<Rightarrow> 'id membership_error + ('id, 'c) members_state"
where
  "add st adder added acc =
     (case map_of (members st) adder of
        None \<Rightarrow> Inl (UnrecognisedActor adder)
      | Some adder_state \<Rightarrow>
          if \<not> is_member adder_state then Inl (InactiveActor adder)
          else if \<not> is_manager adder_state then Inl (InsufficientAccess adder)
          else (case map_of (members st) added of
                  Some s \<Rightarrow>
                    if is_member s then Inl (AlreadyAdded added)
                    else Inr (st\<lparr>members := amap_insert added
                           (s\<lparr>member_counter := member_counter s + 1, access := acc, access_counter := 0\<rparr>)
                           (members st)\<rparr>)
                | None \<Rightarrow>
                    Inr (st\<lparr>members := amap_insert added
                           \<lparr>member_counter = 1, access = acc, access_counter = 0\<rparr> (members st)\<rparr>)))"

definition remove ::
  "('id, 'c) members_state \<Rightarrow> 'id \<Rightarrow> 'id \<Rightarrow> 'id membership_error + ('id, 'c) members_state" where
  "remove st remover removed =
     (case map_of (members st) remover of
        None \<Rightarrow> Inl (UnrecognisedActor remover)
      | Some remover_state \<Rightarrow>
          if \<not> is_member remover_state then Inl (InactiveActor remover)
          else if \<not> is_manager remover_state \<and> remover \<noteq> removed then Inl (InsufficientAccess remover)
          else (case map_of (members st) removed of
                  None \<Rightarrow> Inl (UnrecognisedMember removed)
                | Some s \<Rightarrow>
                    if \<not> is_member s then Inl (AlreadyRemoved removed)
                    else Inr (st\<lparr>members := amap_insert removed
                           (s\<lparr>member_counter := member_counter s + 1, access_counter := 0\<rparr>)
                           (members st)\<rparr>)))"

definition modify ::
  "('id, 'c) members_state \<Rightarrow> 'id \<Rightarrow> 'id \<Rightarrow> 'c access \<Rightarrow> 'id membership_error + ('id, 'c) members_state"
where
  "modify st modifier modified acc =
     (case map_of (members st) modifier of
        None \<Rightarrow> Inl (UnrecognisedActor modifier)
      | Some modifier_state \<Rightarrow>
          if \<not> is_member modifier_state then Inl (InactiveActor modifier)
          else if \<not> is_manager modifier_state then Inl (InsufficientAccess modifier)
          else (case map_of (members st) modified of
                  None \<Rightarrow> Inl (UnrecognisedMember modified)
                | Some s \<Rightarrow>
                    if \<not> is_member s then Inl (InactiveMember modified)
                    else Inr (if access s \<noteq> acc
                              then st\<lparr>members := amap_insert modified
                                     (s\<lparr>access := acc, access_counter := access_counter s + 1\<rparr>)
                                     (members st)\<rparr>
                              else st)))"

definition promote ::
  "('id, 'c) members_state \<Rightarrow> 'id \<Rightarrow> 'id \<Rightarrow> 'c access \<Rightarrow> 'id membership_error + ('id, 'c) members_state"
where
  "promote st promoter promoted acc =
     (case map_of (members st) promoted of
        Some m \<Rightarrow> if is_manager m then Inr st else modify st promoter promoted acc
      | None \<Rightarrow> Inl (UnrecognisedMember promoted))"

definition demote ::
  "('id, 'c) members_state \<Rightarrow> 'id \<Rightarrow> 'id \<Rightarrow> 'c access \<Rightarrow> 'id membership_error + ('id, 'c) members_state"
where
  "demote st demoter demoted acc =
     (case map_of (members st) demoted of
        Some m \<Rightarrow> if is_puller m then Inr st else modify st demoter demoted acc
      | None \<Rightarrow> Inl (UnrecognisedMember demoted))"

definition merge_member :: "'c cond_cmp \<Rightarrow> 'c member_state \<Rightarrow> 'c member_state \<Rightarrow> 'c member_state" where
  "merge_member pc s1 s =
     (let s = (if member_counter s < member_counter s1
               then s\<lparr>member_counter := member_counter s1, access := access s1,
                      access_counter := access_counter s1\<rparr>
               else s)
      in if member_counter s1 = member_counter s
         then (let s = (if access_counter s < access_counter s1
                        then s\<lparr>access := access s1, access_counter := access_counter s1\<rparr>
                        else s)
               in if access_counter s1 = access_counter s \<and> access_lt pc (access s1) (access s)
                  then s\<lparr>access := access s1\<rparr> else s)
         else s)"

definition merge_entry ::
  "'c cond_cmp \<Rightarrow> 'id \<times> 'c member_state \<Rightarrow> ('id, 'c member_state) amap \<Rightarrow> ('id, 'c member_state) amap"
where
  "merge_entry pc e next =
     (case e of (i, s1) \<Rightarrow>
       (case map_of next i of
          Some s \<Rightarrow> amap_insert i (merge_member pc s1 s) next
        | None \<Rightarrow> amap_insert i s1 next))"

definition merge ::
  "'c cond_cmp \<Rightarrow> ('id, 'c) members_state \<Rightarrow> ('id, 'c) members_state \<Rightarrow> ('id, 'c) members_state" where
  "merge pc st1 st2 = \<lparr>members = fold (merge_entry pc) (members st1) (members st2)\<rparr>"

subsection \<open>Well-formed states and views\<close>

definition state_wf :: "('id, 'c) members_state \<Rightarrow> bool" where
  "state_wf st \<longleftrightarrow> amap_wf (members st)"

definition is_active :: "('id, 'c) members_state \<Rightarrow> 'id \<Rightarrow> bool" where
  "is_active st i \<longleftrightarrow> (\<exists>s. map_of (members st) i = Some s \<and> is_member s)"

definition is_active_manager :: "('id, 'c) members_state \<Rightarrow> 'id \<Rightarrow> bool" where
  "is_active_manager st i \<longleftrightarrow> (\<exists>s. map_of (members st) i = Some s \<and> is_member s \<and> is_manager s)"

lemma active_members_iff: "state_wf st \<Longrightarrow> i \<in> active_members st \<longleftrightarrow> is_active st i"
  by (force simp: active_members_def is_active_def state_wf_def amap_mem_iff image_iff)

lemma managers_iff: "state_wf st \<Longrightarrow> i \<in> managers st \<longleftrightarrow> is_active_manager st i"
  by (force simp: managers_def is_active_manager_def state_wf_def amap_mem_iff image_iff)

lemma access_levels_iff:
  "state_wf st \<Longrightarrow> (i, a) \<in> set (access_levels st) \<longleftrightarrow>
   (\<exists>s. map_of (members st) i = Some s \<and> is_member s \<and> a = access s)"
  by (force simp: access_levels_def state_wf_def amap_mem_iff image_iff)

lemma is_member_step [simp]: "is_member (s\<lparr>member_counter := member_counter s + 1\<rparr>) \<longleftrightarrow> \<not> is_member s"
  by (simp add: is_member_def)

lemma is_member_access [simp]:
  "is_member (s\<lparr>access := a\<rparr>) = is_member s" "is_member (s\<lparr>access_counter := c\<rparr>) = is_member s"
  by (simp_all add: is_member_def)

subsection \<open>Exact behaviour of the operations\<close>

lemma add_cases:
  "add st actor i acc = Inr st' \<longleftrightarrow>
   is_active_manager st actor \<and> \<not> is_active st i \<and>
   st' = st\<lparr>members := amap_insert i
            (case map_of (members st) i of
               None \<Rightarrow> \<lparr>member_counter = 1, access = acc, access_counter = 0\<rparr>
             | Some s \<Rightarrow> s\<lparr>member_counter := member_counter s + 1, access := acc, access_counter := 0\<rparr>)
            (members st)\<rparr>"
  by (auto simp: add_def is_active_manager_def is_active_def split: option.splits)

lemma remove_cases:
  "remove st actor i = Inr st' \<longleftrightarrow>
   is_active st actor \<and> (is_active_manager st actor \<or> actor = i) \<and>
   (\<exists>s. map_of (members st) i = Some s \<and> is_member s \<and>
      st' = st\<lparr>members := amap_insert i
               (s\<lparr>member_counter := member_counter s + 1, access_counter := 0\<rparr>) (members st)\<rparr>)"
  by (auto simp: remove_def is_active_manager_def is_active_def split: option.splits)

lemma modify_cases:
  "modify st actor i acc = Inr st' \<longleftrightarrow>
   is_active_manager st actor \<and>
   (\<exists>s. map_of (members st) i = Some s \<and> is_member s \<and>
      st' = (if access s = acc then st
             else st\<lparr>members := amap_insert i
                      (s\<lparr>access := acc, access_counter := access_counter s + 1\<rparr>) (members st)\<rparr>))"
  by (auto simp: modify_def is_active_manager_def split: option.splits)

lemma promote_cases:
  "promote st actor i acc = Inr st' \<longleftrightarrow>
   (\<exists>s. map_of (members st) i = Some s \<and>
      (if is_manager s then st' = st else modify st actor i acc = Inr st'))"
  by (auto simp: promote_def split: option.splits)

lemma demote_cases:
  "demote st actor i acc = Inr st' \<longleftrightarrow>
   (\<exists>s. map_of (members st) i = Some s \<and>
      (if is_puller s then st' = st else modify st actor i acc = Inr st'))"
  by (auto simp: demote_def split: option.splits)

lemmas operation_cases = add_cases remove_cases modify_cases promote_cases demote_cases

subsection \<open>Merging is a semilattice\<close>

definition newer :: "'c member_state \<Rightarrow> 'c member_state \<Rightarrow> bool" where
  "newer s1 s2 \<longleftrightarrow>
     member_counter s2 < member_counter s1 \<or>
     member_counter s2 = member_counter s1 \<and>
       (access_counter s2 < access_counter s1 \<or>
        access_counter s2 = access_counter s1 \<and> level (access s1) < level (access s2))"

lemma merge_member_newer:
  assumes "unconditional (access s1)" "unconditional (access s2)"
  shows "merge_member pc s1 s2 = (if newer s1 s2 then s1 else s2)"
  using access_order_unconditional(1)[OF assms(1)] access_order_unconditional(1)[OF assms(2)]
  by (cases s1; cases s2) (auto simp: merge_member_def newer_def Let_def)

lemma newer_total:
  "unconditional (access s1) \<Longrightarrow> unconditional (access s2) \<Longrightarrow> \<not> newer s1 s2 \<Longrightarrow> \<not> newer s2 s1 \<Longrightarrow> s1 = s2"
  by (cases s1; cases s2) (auto simp: newer_def unconditional_eq_iff)

lemma newer_asym: "newer s1 s2 \<Longrightarrow> \<not> newer s2 s1"
  by (auto simp: newer_def)

lemma newer_trans: "newer s1 s2 \<Longrightarrow> newer s2 s3 \<Longrightarrow> newer s1 s3"
  by (auto simp: newer_def)

definition join_entry :: "'c cond_cmp \<Rightarrow> 'c member_state option \<Rightarrow> 'c member_state option \<Rightarrow> 'c member_state option" where
  "join_entry pc x y =
     (case x of None \<Rightarrow> y | Some s1 \<Rightarrow>
       (case y of None \<Rightarrow> Some s1 | Some s2 \<Rightarrow> Some (merge_member pc s1 s2)))"

definition join_members ::
  "'c cond_cmp \<Rightarrow> ('id \<rightharpoonup> 'c member_state) \<Rightarrow> ('id \<rightharpoonup> 'c member_state) \<Rightarrow> 'id \<rightharpoonup> 'c member_state" where
  "join_members pc m n = (\<lambda>i. join_entry pc (m i) (n i))"

definition entry_ok :: "'c member_state option \<Rightarrow> bool" where
  "entry_ok x = (case x of None \<Rightarrow> True | Some s \<Rightarrow> unconditional (access s))"

lemma join_entry_ok: "entry_ok x \<Longrightarrow> entry_ok y \<Longrightarrow> entry_ok (join_entry pc x y)"
  by (auto simp: entry_ok_def join_entry_def merge_member_newer split: option.splits)

lemma join_entry_commute: "entry_ok x \<Longrightarrow> entry_ok y \<Longrightarrow> join_entry pc x y = join_entry pc y x"
  using newer_total newer_asym
  by (fastforce simp: entry_ok_def join_entry_def merge_member_newer split: option.splits)

lemma join_entry_idem: "entry_ok x \<Longrightarrow> join_entry pc x x = x"
  by (auto simp: entry_ok_def join_entry_def merge_member_newer split: option.splits)

lemma merge_member_assoc:
  assumes "unconditional (access a)" "unconditional (access b)" "unconditional (access c)"
  shows "merge_member pc (merge_member pc a b) c = merge_member pc a (merge_member pc b c)"
  using assms newer_total[of a b] newer_total[of b c]
  by (auto simp: merge_member_newer dest: newer_asym newer_trans)

lemma join_entry_assoc:
  "entry_ok x \<Longrightarrow> entry_ok y \<Longrightarrow> entry_ok z \<Longrightarrow>
   join_entry pc (join_entry pc x y) z = join_entry pc x (join_entry pc y z)"
  by (cases x; cases y; cases z) (simp_all add: entry_ok_def join_entry_def merge_member_assoc)

lemma map_of_fold_merge_entry:
  "amap_wf ms \<Longrightarrow> map_of (fold (merge_entry pc) ms n) i = join_entry pc (map_of ms i) (map_of n i)"
proof (induction ms arbitrary: n)
  case (Cons e ms)
  obtain k s where [simp]: "e = (k, s)"
    by (cases e)
  have k: "map_of ms k = None"
    using Cons.prems by (simp add: map_of_eq_None_iff)
  show ?case
    using Cons k by (auto simp: merge_entry_def join_entry_def split: option.splits)
qed (simp add: join_entry_def)

lemma amap_wf_fold_merge_entry: "amap_wf n \<Longrightarrow> amap_wf (fold (merge_entry pc) ms n)"
  by (induction ms arbitrary: n) (auto simp: merge_entry_def split: option.splits prod.splits)

definition state_ok :: "('id, 'c) members_state \<Rightarrow> bool" where
  "state_ok st \<longleftrightarrow> state_wf st \<and> (\<forall>i. entry_ok (map_of (members st) i))"

lemma map_of_merge:
  "state_wf st1 \<Longrightarrow> map_of (members (merge pc st1 st2)) =
   join_members pc (map_of (members st1)) (map_of (members st2))"
  by (rule ext) (simp add: merge_def join_members_def map_of_fold_merge_entry state_wf_def)

lemma state_wf_merge: "state_wf st2 \<Longrightarrow> state_wf (merge pc st1 st2)"
  by (simp add: merge_def state_wf_def amap_wf_fold_merge_entry)

interpretation members_merge:
  merge_contract "merge pc" "\<lambda>st :: ('id, 'c) members_state. map_of (members st)" "join_members pc" state_ok
  for pc :: "'c cond_cmp"
proof
  fix a b c :: "('id, 'c) members_state"
  assume a: "state_ok a"
  then show "join_members pc (map_of (members a)) (map_of (members a)) = map_of (members a)"
    by (simp add: join_members_def state_ok_def join_entry_idem)
  assume b: "state_ok b"
  show "state_ok (merge pc a b)"
    using a b by (simp add: state_ok_def state_wf_merge map_of_merge join_members_def join_entry_ok)
  show "map_of (members (merge pc a b)) = join_members pc (map_of (members a)) (map_of (members b))"
    using a by (simp add: state_ok_def map_of_merge)
  show "join_members pc (map_of (members a)) (map_of (members b)) =
      join_members pc (map_of (members b)) (map_of (members a))"
    using a b join_entry_commute by (fastforce simp: join_members_def state_ok_def)
  assume "state_ok c"
  then show "join_members pc (join_members pc (map_of (members a)) (map_of (members b))) (map_of (members c)) =
      join_members pc (map_of (members a)) (join_members pc (map_of (members b)) (map_of (members c)))"
    using a b by (simp add: join_members_def state_ok_def join_entry_assoc)
qed

subsection \<open>Effect of the operations on the membership\<close>

definition performs ::
  "('id, 'c) members_state \<Rightarrow> 'id \<Rightarrow> 'id \<Rightarrow> 'c access \<Rightarrow> ('id, 'c) members_state \<Rightarrow> bool" where
  "performs st actor i acc st' \<longleftrightarrow>
     add st actor i acc = Inr st' \<or> remove st actor i = Inr st' \<or>
     promote st actor i acc = Inr st' \<or> demote st actor i acc = Inr st'"

lemma performs_authorised:
  assumes "performs st actor i acc st'" "st' \<noteq> st"
  shows "is_active_manager st actor \<or> actor = i \<and> is_active st actor"
  using assms by (auto simp: performs_def operation_cases split: if_splits)

lemma performs_local:
  assumes "performs st actor i acc st'" "j \<noteq> i"
  shows "map_of (members st') j = map_of (members st) j"
  using assms by (auto simp: performs_def operation_cases split: if_splits)

lemma performs_wf: "performs st actor i acc st' \<Longrightarrow> state_wf st \<Longrightarrow> state_wf st'"
  by (auto simp: performs_def operation_cases state_wf_def split: if_splits)

lemma performs_active:
  assumes "performs st actor i acc st'" "state_wf st"
  shows "active_members st' =
         (if is_active st' i then insert i (active_members st) else active_members st - {i})"
proof (rule set_eqI)
  fix j
  show "j \<in> active_members st' \<longleftrightarrow>
      j \<in> (if is_active st' i then insert i (active_members st) else active_members st - {i})"
    using performs_local[OF assms(1), of j]
    by (cases "j = i")
       (auto simp: active_members_iff[OF assms(2)] active_members_iff[OF performs_wf[OF assms]] is_active_def)
qed

definition counters_free :: "('id, 'c) members_state \<Rightarrow> bool" where
  "counters_free st \<longleftrightarrow>
     list_all (\<lambda>(_, s). member_counter s \<noteq> - 1 \<and> access_counter s \<noteq> - 1) (members st)"

lemma word_less_plus_one: "(x :: u64) \<noteq> - 1 \<Longrightarrow> x < x + 1"
  by (simp add: word_less_nat_alt unat_plus_one)

lemma counters_free_D:
  "counters_free st \<Longrightarrow> map_of (members st) i = Some s \<Longrightarrow>
   member_counter s < member_counter s + 1 \<and> access_counter s < access_counter s + 1"
  by (auto simp: counters_free_def list_all_iff word_less_plus_one dest!: map_of_SomeD)

lemma performs_newer:
  assumes "performs st actor i acc st'" "counters_free st"
    and "map_of (members st) i = Some s" "st' \<noteq> st"
  shows "\<exists>s'. map_of (members st') i = Some s' \<and> newer s' s \<and> access s' \<in> {acc, access s}"
  using assms counters_free_D[OF assms(2,3)]
  by (auto simp: performs_def operation_cases newer_def is_active_def split: if_splits)

lemma performs_entry_ok:
  assumes "performs st actor i acc st'" "\<forall>j. entry_ok (map_of (members st) j)" "unconditional acc"
  shows "entry_ok (map_of (members st') j)"
  using assms(3) assms(2)[THEN spec, of i] assms(2)[THEN spec, of j] assms(1)
  by (auto simp: performs_def operation_cases entry_ok_def split: if_splits option.splits)

text \<open>C29: Only managers change a group. Whenever \<open>add\<close>, \<open>remove\<close>, \<open>promote\<close> or \<open>demote\<close> succeeds with a
  state that differs from the given one, the actor is an active member with \<open>Manage\<close> access or an
  active member removing itself; no entry but the one of the named member changes.\<close>

theorem only_managers_change:
  assumes "add st actor i acc = Inr st' \<or> remove st actor i = Inr st' \<or>
           promote st actor i acc = Inr st' \<or> demote st actor i acc = Inr st'"
    and "state_wf st" "st' \<noteq> st"
  shows "(actor \<in> managers st \<or> actor = i \<and> actor \<in> active_members st \<and> remove st actor i = Inr st') \<and>
         (\<forall>j. j \<noteq> i \<longrightarrow> map_of (members st') j = map_of (members st) j)"
proof -
  have p: "performs st actor i acc st'"
    using assms(1) by (simp add: performs_def)
  have "is_active_manager st actor \<or> actor = i \<and> is_active st actor \<and> remove st actor i = Inr st'"
    using assms by (auto simp: operation_cases split: if_splits)
  then show ?thesis
    using performs_local[OF p] assms(2) by (auto simp: managers_iff active_members_iff)
qed

definition example_group :: "(nat, unit) members_state" where
  "example_group = create [(0, access_manage), (1, access_read)]"

theorem only_managers_change_witness:
  "\<exists>st'. add example_group 0 2 access_write = Inr st' \<and> 0 \<in> managers example_group"
proof -
  obtain st' where st': "add example_group 0 2 access_write = Inr st'" "st' \<noteq> example_group"
    by (simp add: add_def example_group_def create_def is_member_def is_manager_def is_manage_def
        access_manage_def access_read_def amap_insert_def)
  have "state_wf example_group"
    by (simp add: example_group_def create_def state_wf_def amap_insert_def)
  then show ?thesis
    using only_managers_change[of example_group 0 2 access_write st'] st'
    by (auto simp: remove_def example_group_def create_def amap_insert_def)
qed

text \<open>C30: The exact effect of every successful operation on the set of active members and on
  the accesses: \<open>add\<close> makes exactly the added member active with the given access, \<open>remove\<close> makes
  exactly the removed member inactive, and \<open>promote\<close> and \<open>demote\<close> change no membership.\<close>

theorem operations_effect:
  assumes "state_wf st"
  shows "(add st actor i acc = Inr st' \<longrightarrow>
            i \<notin> active_members st \<and> active_members st' = insert i (active_members st) \<and>
            (i, acc) \<in> set (access_levels st')) \<and>
         (remove st actor i = Inr st' \<longrightarrow>
            i \<in> active_members st \<and> active_members st' = active_members st - {i}) \<and>
         (promote st actor i acc = Inr st' \<or> demote st actor i acc = Inr st' \<longrightarrow>
            active_members st' = active_members st)"
proof -
  note act = performs_active[OF _ assms, of actor i acc st', unfolded performs_def]
  have "\<not> is_active st i \<and> is_active st' i \<and> (i, acc) \<in> set (access_levels st')"
    if h: "add st actor i acc = Inr st'"
    using h performs_wf[OF _ assms, of actor i acc st']
    by (auto simp: add_cases performs_def access_levels_iff is_active_def is_member_def split: option.splits)
  moreover have "is_active st i \<and> \<not> is_active st' i" if "remove st actor i = Inr st'"
    using that by (auto simp: remove_cases is_active_def is_member_def)
  moreover have "is_active st' i = is_active st i"
    if "promote st actor i acc = Inr st' \<or> demote st actor i acc = Inr st'"
    using that by (auto simp: operation_cases is_active_def is_member_def split: if_splits)
  ultimately show ?thesis
    using act active_members_iff[OF assms, of i] by (auto simp: insert_absorb)
qed

theorem operations_effect_witness:
  "\<exists>st'. remove example_group 0 1 = Inr st' \<and> 1 \<notin> active_members st'"
proof -
  obtain st' where st': "remove example_group 0 1 = Inr st'"
    by (simp add: remove_def example_group_def create_def is_member_def is_manager_def is_manage_def
        access_manage_def access_read_def amap_insert_def)
  have "state_wf example_group"
    by (simp add: example_group_def create_def state_wf_def amap_insert_def)
  then show ?thesis
    using operations_effect[of example_group 0 1 access_read st'] st' by auto
qed

text \<open>Every operation moves a group forward. As long as no counter is at its maximum, merging
  the state before an operation into the state after it changes nothing, in either order: a replica
  that has seen the operation is never set back by one that has not.\<close>

lemma operations_inflationary:
  assumes "add st actor i acc = Inr st' \<or> remove st actor i = Inr st' \<or>
           promote st actor i acc = Inr st' \<or> demote st actor i acc = Inr st'"
    and "state_ok st" "unconditional acc" "counters_free st"
  shows "map_of (members (merge pc st st')) = map_of (members st') \<and>
         map_of (members (merge pc st' st)) = map_of (members st')"
proof -
  have p: "performs st actor i acc st'"
    using assms(1) by (simp add: performs_def)
  have ok': "state_ok st'"
    using assms(2,3) performs_wf[OF p] performs_entry_ok[OF p] by (simp add: state_ok_def)
  have "join_entry pc (map_of (members st) j) (map_of (members st') j) = map_of (members st') j" for j
  proof (cases "j = i \<and> st' \<noteq> st \<and> map_of (members st) i \<noteq> None")
    case True
    then obtain s s' where s: "map_of (members st) j = Some s" "map_of (members st') j = Some s'"
        "newer s' s" "access s' \<in> {acc, access s}"
      using performs_newer[OF p assms(4)] by blast
    moreover have "unconditional (access s)" "unconditional (access s')"
      using s assms(2,3) by (auto simp: state_ok_def entry_ok_def dest: spec[of _ j] split: option.splits)
    ultimately show ?thesis
      by (simp add: join_entry_def merge_member_newer newer_asym)
  next
    case False
    then have "map_of (members st) j = map_of (members st') j \<or> map_of (members st) j = None"
      using performs_local[OF p, of j] by (cases "j = i") auto
    then show ?thesis
      using ok' join_entry_idem[of "map_of (members st') j" pc]
      by (auto simp: state_ok_def join_entry_def)
  qed
  then have "map_of (members (merge pc st st')) = map_of (members st')"
    using members_merge.meaning_merge[OF assms(2) ok', of pc] by (auto simp: join_members_def)
  then show ?thesis
    using members_merge.merge_commute[OF assms(2) ok', of pc] by simp
qed

lemma operations_inflationary_example:
  "\<exists>st'. add example_group 0 2 access_write = Inr st' \<and>
         map_of (members (merge (\<lambda>_ _. None) example_group st')) = map_of (members st')"
proof -
  obtain st' where st': "add example_group 0 2 access_write = Inr st'"
    by (simp add: add_def example_group_def create_def is_member_def is_manager_def is_manage_def
        access_manage_def access_read_def amap_insert_def)
  have "state_ok example_group" "unconditional access_write" "counters_free example_group"
    by (auto simp: example_group_def create_def state_ok_def state_wf_def amap_insert_def entry_ok_def
        unconditional_def access_manage_def access_read_def access_write_def counters_free_def)
  then show ?thesis
    using operations_inflationary[of example_group 0 2 access_write st'] st' by blast
qed



text \<open>C31: With conditions the merge is not commutative. Two replicas holding the same member at the
  same counters and level, one with a condition and one without, keep each other's access: whichever
  state is merged into, its own access survives.\<close>

theorem conditional_merge_diverges:
  assumes "member_counter s1 = member_counter s2" "access_counter s1 = access_counter s2"
    and "conditions (access s1) = None" "conditions (access s2) = Some c"
    and "level (access s1) = level (access s2)"
  shows "map_of (members (merge pc \<lparr>members = [(i, s1)]\<rparr> \<lparr>members = [(i, s2)]\<rparr>)) i = Some s2 \<and>
         map_of (members (merge pc \<lparr>members = [(i, s2)]\<rparr> \<lparr>members = [(i, s1)]\<rparr>)) i = Some s1 \<and>
         s1 \<noteq> s2"
  using assms
  by (auto simp: merge_def merge_entry_def merge_member_def access_lt_def access_partial_cmp_def level_cmp_def
      amap_insert_def Let_def)

theorem conditional_merge_diverges_witness:
  "map_of (members (merge (\<lambda>_ _. Some Equal)
     (create [(0 :: nat, access_read)]) (create [(0, with_conditions () access_read)]))) 0 \<noteq>
   map_of (members (merge (\<lambda>_ _. Some Equal)
     (create [(0 :: nat, with_conditions () access_read)]) (create [(0, access_read)]))) 0"
  using conditional_merge_diverges[of
      "\<lparr>member_counter = 1, access = access_read, access_counter = 0\<rparr>"
      "\<lparr>member_counter = 1, access = with_conditions () access_read, access_counter = 0\<rparr>"
      "()" "\<lambda>_ _. Some Equal" "0 :: nat"]
  by (auto simp: create_def amap_insert_def access_read_def with_conditions_def)

text \<open>Promotion without authority. When the named member already is a manager, \<open>promote\<close> succeeds
  for every actor, even one that is unknown to the group, inactive or without \<open>Manage\<close> access; the
  same holds of \<open>demote\<close> for a member with \<open>Pull\<close> access. The state is returned unchanged.\<close>

lemma promote_unauthorised:
  assumes "map_of (members st) i = Some s"
  shows "(is_manager s \<longrightarrow> promote st actor i acc = Inr st) \<and>
         (is_puller s \<longrightarrow> demote st actor i acc = Inr st)"
  using assms by (simp add: promote_def demote_def)

lemma promote_unauthorised_example:
  "promote example_group 99 0 access_read = Inr example_group \<and> 99 \<notin> active_members example_group"
  using promote_unauthorised[of example_group 0 "\<lparr>member_counter = 1, access = access_manage, access_counter = 0\<rparr>" 99]
  by (simp add: example_group_def create_def amap_insert_def is_manager_def is_manage_def access_manage_def
      active_members_def)

end
