(* ===== verification/Auth_Groups.thy ===== *)
theory Auth_Groups
  imports Auth_State
begin

section \<open>States of nested groups\<close>

text \<open>
  The functions of \<open>p2panda-auth/src/group/crdt/mod.rs\<close> that read and change the membership of all
  groups: merging the states at several operations, resolving nested groups to their members,
  detecting nesting cycles and applying one action. \<open>current_state\<close> is an argument here: the code
  computes it from the operation graph, which \<open>Auth_Resolver\<close> adds. A set of operation ids that the
  code iterates over is a list in an arbitrary order. \<open>None\<close> is a panic of an \<open>expect\<close>.
\<close>

type_synonym ('id, 'c) group_state = "('id group_member, 'c) members_state"
type_synonym ('id, 'c) group_states = "('id, ('id, 'c) group_state) amap"

definition MAX_NESTED_DEPTH :: u32 where
  "MAX_NESTED_DEPTH = 1000"

subsection \<open>Merging the states at several operations\<close>

definition merge_group ::
  "'c cond_cmp \<Rightarrow> 'id \<times> ('id, 'c) group_state \<Rightarrow> ('id, 'c) group_states \<Rightarrow> ('id, 'c) group_states" where
  "merge_group pc e current =
     (case e of (i, st) \<Rightarrow>
       (case map_of current i of
          Some cur \<Rightarrow> amap_insert i (merge pc st cur) current
        | None \<Rightarrow> amap_insert i st current))"

definition merge_groups ::
  "'c cond_cmp \<Rightarrow> ('id, 'c) group_states \<Rightarrow> ('id, 'c) group_states \<Rightarrow> ('id, 'c) group_states" where
  "merge_groups pc Y current = fold (merge_group pc) Y current"

fun merge_states_from ::
  "'c cond_cmp \<Rightarrow> ('op, ('id, 'c) group_states) amap \<Rightarrow> 'op list \<Rightarrow> 'op list \<Rightarrow> ('id, 'c) group_states \<Rightarrow>
   'op list + ('id, 'c) group_states" where
  "merge_states_from pc states all [] current = Inr current"
| "merge_states_from pc states all (i # ids) current =
     (case map_of states i of
        None \<Rightarrow> Inl all
      | Some Y \<Rightarrow> merge_states_from pc states all ids (merge_groups pc Y current))"

definition merge_states ::
  "'c cond_cmp \<Rightarrow> ('op, ('id, 'c) group_states) amap \<Rightarrow> 'op list \<Rightarrow> 'op list + ('id, 'c) group_states" where
  "merge_states pc states ids = merge_states_from pc states ids ids []"

subsection \<open>Resolving nested groups\<close>

definition next_access :: "'c cond_cmp \<Rightarrow> 'c access option \<Rightarrow> 'c access \<Rightarrow> 'c access" where
  "next_access pc root acc =
     (case root of Some r \<Rightarrow> if access_le pc acc r then acc else r | None \<Rightarrow> acc)"

definition grant ::
  "'c cond_cmp \<Rightarrow> 'id group_member \<Rightarrow> 'c access \<Rightarrow> ('id group_member, 'c access) amap \<Rightarrow>
   ('id group_member, 'c access) amap" where
  "grant pc m acc found =
     (case map_of found m of
        Some cur \<Rightarrow> if access_lt pc cur acc then amap_insert m acc found else found
      | None \<Rightarrow> amap_insert m acc found)"

lemma depth_decreases: "(d :: u32) \<noteq> MAX_NESTED_DEPTH \<Longrightarrow>
  unat (MAX_NESTED_DEPTH - (d + 1)) < unat (MAX_NESTED_DEPTH - d)"
  using measure_unat[of "MAX_NESTED_DEPTH - d"] by (simp add: diff_diff_eq)

function members_inner ::
  "'c cond_cmp \<Rightarrow> ('id, 'c) group_states \<Rightarrow> 'id \<Rightarrow> ('id group_member, 'c access) amap \<Rightarrow>
   'c access option \<Rightarrow> u32 \<Rightarrow> ('id group_member, 'c access) amap" where
  "members_inner pc Y g found root depth =
     (if depth = MAX_NESTED_DEPTH then found
      else (case map_of Y g of
              None \<Rightarrow> found
            | Some st \<Rightarrow>
                fold (\<lambda>(m, acc) found.
                  let nxt = next_access pc root acc;
                      found = grant pc m nxt found
                  in case m of
                       Group i \<Rightarrow> members_inner pc Y i found (Some nxt) (depth + 1)
                     | Individual _ \<Rightarrow> found)
                  (access_levels st) found))"
  by pat_completeness auto
termination
  by (relation "measure (\<lambda>(pc, Y, g, found, root, depth). unat (MAX_NESTED_DEPTH - depth))")
     (simp_all add: depth_decreases)

declare members_inner.simps [simp del]

definition traverse_members ::
  "'c cond_cmp \<Rightarrow> ('id, 'c) group_states \<Rightarrow> 'id \<Rightarrow> u32 \<Rightarrow> ('id group_member \<times> 'c access) list" where
  "traverse_members pc Y g depth = members_inner pc Y g [] None depth"

definition individual_members ::
  "'c cond_cmp \<Rightarrow> ('id, 'c) group_states \<Rightarrow> 'id \<Rightarrow> ('id \<times> 'c access) list" where
  "individual_members pc Y g =
     map (\<lambda>(m, a). (member_id m, a)) (filter (\<lambda>(m, _). is_individual m) (traverse_members pc Y g 0))"

definition groups :: "'c cond_cmp \<Rightarrow> ('id, 'c) group_states \<Rightarrow> 'id \<Rightarrow> ('id \<times> 'c access) list" where
  "groups pc Y g =
     map (\<lambda>(m, a). (member_id m, a)) (filter (\<lambda>(m, _). is_group m) (traverse_members pc Y g 0))"

definition ancestors :: "'c cond_cmp \<Rightarrow> ('id, 'c) group_states \<Rightarrow> 'id \<Rightarrow> 'id list" where
  "ancestors pc Y target =
     filter (\<lambda>g. list_ex (\<lambda>(i, _). i = target) (groups pc Y g)) (map fst Y)"

definition root_members :: "('id, 'c) group_states \<Rightarrow> 'id \<Rightarrow> ('id group_member \<times> 'c access) list" where
  "root_members Y g = (case map_of Y g of Some st \<Rightarrow> access_levels st | None \<Rightarrow> [])"

definition has_group :: "('id, 'c) group_states \<Rightarrow> 'id \<Rightarrow> bool" where
  "has_group Y g \<longleftrightarrow> map_of Y g \<noteq> None"

subsection \<open>Nesting cycles\<close>

definition sub_groups :: "('id, 'c) group_states \<Rightarrow> 'id \<Rightarrow> 'id list" where
  "sub_groups Y g =
     (case map_of Y g of
        None \<Rightarrow> []
      | Some st \<Rightarrow>
          List.map_filter (\<lambda>(m, _). case m of Group i \<Rightarrow> Some i | Individual _ \<Rightarrow> None) (access_levels st))"

definition group_universe :: "('id, 'c) group_states \<Rightarrow> 'id set" where
  "group_universe Y = (\<Union>g \<in> fst ` set Y. set (sub_groups Y g))"

lemma finite_group_universe [simp]: "finite (group_universe Y)"
  by (simp add: group_universe_def)

lemma sub_groups_universe: "set (sub_groups Y g) \<subseteq> group_universe Y"
proof (cases "map_of Y g")
  case (Some st)
  then show ?thesis
    by (force simp: group_universe_def dest: map_of_SomeD)
qed (simp add: sub_groups_def)

function cycle_search :: "('id, 'c) group_states \<Rightarrow> 'id \<Rightarrow> 'id list \<Rightarrow> 'id set \<Rightarrow> bool" where
  "cycle_search Y parent [] visited = False"
| "cycle_search Y parent (child # stack) visited =
     (if child \<in> visited then cycle_search Y parent stack visited
      else if child = parent then True
      else cycle_search Y parent (rev (sub_groups Y child) @ stack) (insert child visited))"
  by pat_completeness auto
termination
proof (relation "measures [\<lambda>(Y, parent, stack, visited). card (group_universe Y \<union> set stack - visited),
                           \<lambda>(Y, parent, stack, visited). length stack]", goal_cases)
  case (2 Y parent child stack visited)
  then have "group_universe Y \<union> set (child # stack) - visited = group_universe Y \<union> set stack - visited"
    by auto
  then show ?case
    by simp
next
  case (3 Y parent child stack visited)
  let ?new = "group_universe Y \<union> set (rev (sub_groups Y child) @ stack) - insert child visited"
  have "?new \<subset> group_universe Y \<union> set (child # stack) - visited"
    using 3 sub_groups_universe[of Y child] by auto
  then have "card ?new < card (group_universe Y \<union> set (child # stack) - visited)"
    by (intro psubset_card_mono) simp_all
  then show ?case
    by simp
qed simp

definition would_create_cycle :: "('id, 'c) group_states \<Rightarrow> 'id \<Rightarrow> ('id, 'c) group_action \<Rightarrow> bool" where
  "would_create_cycle Y parent action =
     (case action of Add (Group child) _ \<Rightarrow> cycle_search Y parent [child] {} | _ \<Rightarrow> False)"

subsection \<open>Applying an action\<close>

datatype ('id, 'c) state_change_result =
    StateOk (changed_state: "('id, 'c) group_states")
  | StateError (changed_state: "('id, 'c) group_states") "'id group_member membership_error"
  | StateFiltered (changed_state: "('id, 'c) group_states")

definition run_action ::
  "('id, 'c) group_state \<Rightarrow> 'id \<Rightarrow> ('id, 'c) group_action \<Rightarrow>
   'id group_member membership_error + ('id, 'c) group_state" where
  "run_action members_y actor action =
     (case action of
        Add m acc \<Rightarrow> add members_y (Individual actor) m acc
      | Remove m \<Rightarrow> remove members_y (Individual actor) m
      | Promote m acc \<Rightarrow> promote members_y (Individual actor) m acc
      | Demote m acc \<Rightarrow> demote members_y (Individual actor) m acc
      | Create initial \<Rightarrow> Inr (create initial))"

definition apply_action ::
  "('id, 'c) group_states \<Rightarrow> 'id \<Rightarrow> 'op \<Rightarrow> 'id \<Rightarrow> ('id, 'c) group_action \<Rightarrow> 'op set \<Rightarrow>
   ('id, 'c) state_change_result option" where
  "apply_action Y g op actor action ignored =
     (case (if is_create action then Some (\<lparr>members = []\<rparr>, Y)
            else map_option (\<lambda>st. (st, amap_remove g Y)) (map_of Y g)) of
        None \<Rightarrow> None
      | Some (members_y, Y) \<Rightarrow>
          if op \<in> ignored then Some (StateFiltered (amap_insert g members_y Y))
          else (case run_action members_y actor action of
                  Inr members_y' \<Rightarrow> Some (StateOk (amap_insert g members_y' Y))
                | Inl err \<Rightarrow> Some (StateError (amap_insert g members_y Y) err)))"

definition apply_remove_unsafe ::
  "('id, 'c) group_states \<Rightarrow> 'id \<Rightarrow> 'id group_member \<Rightarrow> ('id, 'c) group_states option" where
  "apply_remove_unsafe Y g removed =
     (case map_of Y g of
        None \<Rightarrow> None
      | Some members_y \<Rightarrow>
          Some (amap_insert g
            (case map_of (members members_y) removed of
               None \<Rightarrow> members_y
             | Some s \<Rightarrow>
                 if \<not> even (member_counter s)
                 then members_y\<lparr>members := amap_insert removed
                        (s\<lparr>member_counter := member_counter s + 1\<rparr>) (members members_y)\<rparr>
                 else members_y)
            (amap_remove g Y)))"

subsection \<open>The merge of group states is a semilattice\<close>

definition groups_meaning ::
  "('id, 'c) group_states \<Rightarrow> 'id \<Rightarrow> ('id group_member \<rightharpoonup> 'c member_state) option" where
  "groups_meaning Y g = map_option (\<lambda>st. map_of (members st)) (map_of Y g)"

definition join_groups ::
  "'c cond_cmp \<Rightarrow> ('id \<Rightarrow> ('id group_member \<rightharpoonup> 'c member_state) option) \<Rightarrow>
   ('id \<Rightarrow> ('id group_member \<rightharpoonup> 'c member_state) option) \<Rightarrow>
   'id \<Rightarrow> ('id group_member \<rightharpoonup> 'c member_state) option" where
  "join_groups pc m n =
     (\<lambda>g. case m g of None \<Rightarrow> n g | Some a \<Rightarrow>
            (case n g of None \<Rightarrow> Some a | Some b \<Rightarrow> Some (join_members pc a b)))"

definition groups_ok :: "('id, 'c) group_states \<Rightarrow> bool" where
  "groups_ok Y \<longleftrightarrow> amap_wf Y \<and> (\<forall>g st. map_of Y g = Some st \<longrightarrow> state_ok st)"

lemma map_of_merge_groups:
  "amap_wf Y \<Longrightarrow> map_of (merge_groups pc Y Z) g =
   (case map_of Y g of None \<Rightarrow> map_of Z g | Some st \<Rightarrow>
     (case map_of Z g of None \<Rightarrow> Some st | Some cur \<Rightarrow> Some (merge pc st cur)))"
proof (induction Y arbitrary: Z)
  case (Cons e Y)
  obtain k st where [simp]: "e = (k, st)"
    by (cases e)
  have k: "map_of Y k = None"
    using Cons.prems by (simp add: map_of_eq_None_iff)
  show ?case
    using Cons k by (auto simp: merge_groups_def merge_group_def split: option.splits)
qed (simp add: merge_groups_def)

lemma amap_wf_merge_groups: "amap_wf Z \<Longrightarrow> amap_wf (merge_groups pc Y Z)"
  unfolding merge_groups_def
  by (induction Y arbitrary: Z) (auto simp: merge_group_def split: option.splits prod.splits)

lemma groups_ok_merge:
  assumes "groups_ok a" "groups_ok b"
  shows "groups_ok (merge_groups pc a b)"
proof -
  have "state_ok st" if "map_of (merge_groups pc a b) g = Some st" for g st
    using that assms
    by (cases "map_of a g"; cases "map_of b g")
       (auto simp: groups_ok_def map_of_merge_groups members_merge.ok_merge)
  then show ?thesis
    using assms by (simp add: groups_ok_def amap_wf_merge_groups)
qed

interpretation groups_merge:
  merge_contract "merge_groups pc" "groups_meaning :: ('id, 'c) group_states \<Rightarrow> _" "join_groups pc" groups_ok
  for pc :: "'c cond_cmp"
proof
  fix a b c :: "('id, 'c) group_states"
  assume a: "groups_ok a"
  show "join_groups pc (groups_meaning a) (groups_meaning a) = groups_meaning a"
  proof
    fix g
    show "join_groups pc (groups_meaning a) (groups_meaning a) g = groups_meaning a g"
      using a by (cases "map_of a g")
        (simp_all add: join_groups_def groups_meaning_def groups_ok_def members_merge.join_idem)
  qed
  assume b: "groups_ok b"
  show "groups_ok (merge_groups pc a b)"
    using a b by (rule groups_ok_merge)
  show "groups_meaning (merge_groups pc a b) = join_groups pc (groups_meaning a) (groups_meaning b)"
  proof
    fix g
    show "groups_meaning (merge_groups pc a b) g = join_groups pc (groups_meaning a) (groups_meaning b) g"
      using a b by (cases "map_of a g"; cases "map_of b g")
        (simp_all add: groups_ok_def groups_meaning_def join_groups_def map_of_merge_groups
          members_merge.meaning_merge)
  qed
  show "join_groups pc (groups_meaning a) (groups_meaning b) = join_groups pc (groups_meaning b) (groups_meaning a)"
  proof
    fix g
    show "join_groups pc (groups_meaning a) (groups_meaning b) g =
        join_groups pc (groups_meaning b) (groups_meaning a) g"
    proof (cases "map_of a g"; cases "map_of b g")
      fix x y
      assume "map_of a g = Some x" "map_of b g = Some y"
      then show ?thesis
        using a b members_merge.join_commute[of x y pc]
        by (simp add: groups_ok_def groups_meaning_def join_groups_def)
    qed (simp_all add: groups_meaning_def join_groups_def)
  qed
  assume c: "groups_ok c"
  show "join_groups pc (join_groups pc (groups_meaning a) (groups_meaning b)) (groups_meaning c) =
      join_groups pc (groups_meaning a) (join_groups pc (groups_meaning b) (groups_meaning c))"
  proof
    fix g
    show "join_groups pc (join_groups pc (groups_meaning a) (groups_meaning b)) (groups_meaning c) g =
        join_groups pc (groups_meaning a) (join_groups pc (groups_meaning b) (groups_meaning c)) g"
      using a b c by (cases "map_of a g"; cases "map_of b g"; cases "map_of c g")
        (simp_all add: groups_ok_def groups_meaning_def join_groups_def members_merge.join_assoc)
  qed
qed

lemma merge_states_from_eq:
  "merge_states_from pc states all ids current =
   (if \<forall>i \<in> set ids. map_of states i \<noteq> None
    then Inr (fold (merge_groups pc) (map (\<lambda>i. the (map_of states i)) ids) current)
    else Inl all)"
  by (induction ids arbitrary: current) (auto split: option.splits)

lemma groups_ok_Nil [simp]: "groups_ok []"
  by (simp add: groups_ok_def)

subsection \<open>Membership chains\<close>

text \<open>\<open>chain Y l n g m\<close>: at most \<open>n\<close> memberships lead from group \<open>g\<close> through nested groups to
  \<open>m\<close>, each with an access level of at least \<open>l\<close>.\<close>

definition member_with :: "('id, 'c) group_states \<Rightarrow> access_level \<Rightarrow> 'id \<Rightarrow> 'id group_member \<Rightarrow> bool" where
  "member_with Y l g m \<longleftrightarrow>
     (\<exists>st a. map_of Y g = Some st \<and> (m, a) \<in> set (access_levels st) \<and> l \<le> level a)"

fun chain :: "('id, 'c) group_states \<Rightarrow> access_level \<Rightarrow> nat \<Rightarrow> 'id \<Rightarrow> 'id group_member \<Rightarrow> bool" where
  "chain Y l 0 g m = False"
| "chain Y l (Suc n) g m \<longleftrightarrow>
     member_with Y l g m \<or> (\<exists>i. member_with Y l g (Group i) \<and> chain Y l n i m)"

definition at_least :: "('id group_member, 'c access) amap \<Rightarrow> 'id group_member \<Rightarrow> access_level \<Rightarrow> bool" where
  "at_least found m l \<longleftrightarrow> (\<exists>a. map_of found m = Some a \<and> l \<le> level a)"

definition found_ok :: "('id group_member, 'c access) amap \<Rightarrow> bool" where
  "found_ok found \<longleftrightarrow> amap_wf found \<and> (\<forall>m a. map_of found m = Some a \<longrightarrow> unconditional a)"

lemma found_ok_Nil [simp]: "found_ok []"
  by (simp add: found_ok_def)

lemma grant_step:
  assumes "found_ok found" "unconditional acc"
  shows "found_ok (grant pc m acc found)"
    and "at_least (grant pc m acc found) m' l \<longleftrightarrow> at_least found m' l \<or> m' = m \<and> l \<le> level acc"
  using assms access_order_unconditional(1)[OF assms(2), of pc]
  by (auto simp: grant_def found_ok_def at_least_def split: option.splits)

lemma next_access_step:
  assumes "unconditional acc" "\<And>r. root = Some r \<Longrightarrow> unconditional r"
  shows "unconditional (next_access pc root acc)"
    and "l \<le> level (next_access pc root acc) \<longleftrightarrow> l \<le> level acc \<and> (\<forall>r. root = Some r \<longrightarrow> l \<le> level r)"
  using assms access_order_unconditional(2)[of _ pc acc]
  by (auto simp: next_access_def split: option.splits)

lemma fold_at_least:
  assumes "\<And>e found. e \<in> set es \<Longrightarrow> found_ok found \<Longrightarrow> found_ok (f e found)"
    and "\<And>e found. e \<in> set es \<Longrightarrow> found_ok found \<Longrightarrow>
           at_least (f e found) m l \<longleftrightarrow> at_least found m l \<or> Q e"
    and "found_ok found"
  shows "found_ok (fold f es found) \<and>
         (at_least (fold f es found) m l \<longleftrightarrow> at_least found m l \<or> (\<exists>e \<in> set es. Q e))"
  using assms by (induction es arbitrary: found) auto

lemma groups_ok_access:
  "groups_ok Y \<Longrightarrow> map_of Y g = Some st \<Longrightarrow> (m, a) \<in> set (access_levels st) \<Longrightarrow> unconditional a"
  by (fastforce simp: groups_ok_def state_ok_def access_levels_iff entry_ok_def split: option.splits)

lemma members_inner_chain:
  assumes "groups_ok Y"
  shows "found_ok found \<Longrightarrow> (\<And>r. root = Some r \<Longrightarrow> unconditional r) \<Longrightarrow>
    n = unat (MAX_NESTED_DEPTH - depth) \<Longrightarrow>
    found_ok (members_inner pc Y g found root depth) \<and>
    (at_least (members_inner pc Y g found root depth) m l \<longleftrightarrow>
     at_least found m l \<or> (\<forall>r. root = Some r \<longrightarrow> l \<le> level r) \<and> chain Y l n g m)"
proof (induction n arbitrary: g found root depth)
  case 0
  then have "depth = MAX_NESTED_DEPTH"
    by (simp add: unat_eq_0)
  then show ?case
    using 0 by (subst (1 2) members_inner.simps) simp
next
  case (Suc n)
  have d: "depth \<noteq> MAX_NESTED_DEPTH"
    using Suc.prems(3) by auto
  have n: "n = unat (MAX_NESTED_DEPTH - (depth + 1))"
    using Suc.prems(3) unat_minus_one[of "MAX_NESTED_DEPTH - depth"] d by (simp add: diff_diff_eq)
  show ?case
  proof (cases "map_of Y g")
    case None
    then have "\<not> chain Y l (Suc n) g m"
      by (simp add: member_with_def)
    then show ?thesis
      using None Suc.prems(1) d by (subst (1 2) members_inner.simps) auto
  next
    case (Some st)
    let ?f = "\<lambda>(m, acc) found. let nxt = next_access pc root acc; found = grant pc m nxt found
        in case m of Group i \<Rightarrow> members_inner pc Y i found (Some nxt) (depth + 1) | Individual _ \<Rightarrow> found"
    let ?Q = "\<lambda>(m', acc). (\<forall>r. root = Some r \<longrightarrow> l \<le> level r) \<and> l \<le> level acc \<and>
        (m = m' \<or> (\<exists>i. m' = Group i \<and> chain Y l n i m))"
    have step: "found_ok (?f e found) \<and> (at_least (?f e found) m l \<longleftrightarrow> at_least found m l \<or> ?Q e)"
      if e: "e \<in> set (access_levels st)" and f: "found_ok found" for e found
    proof -
      obtain m' acc where [simp]: "e = (m', acc)"
        by (cases e)
      have acc: "unconditional acc"
        using groups_ok_access[OF assms Some, of m' acc] e by simp
      have nx: "unconditional (next_access pc root acc)"
          "l \<le> level (next_access pc root acc) \<longleftrightarrow> l \<le> level acc \<and> (\<forall>r. root = Some r \<longrightarrow> l \<le> level r)"
        using next_access_step(1)[OF acc, of root pc] next_access_step(2)[OF acc, of root l pc] Suc.prems(2)
        by auto
      note gr = grant_step[OF f nx(1), of pc m']
      show ?thesis
      proof (cases m')
        case (Individual i)
        then show ?thesis
          using gr(1) gr(2)[of m l] nx(2) by (simp add: Let_def) blast
      next
        case (Group i)
        have "found_ok (?f e found) \<and> (at_least (?f e found) m l \<longleftrightarrow>
            at_least (grant pc m' (next_access pc root acc) found) m l \<or>
            l \<le> level (next_access pc root acc) \<and> chain Y l n i m)"
          using Suc.IH[OF gr(1) _ n, of "Some (next_access pc root acc)" i] nx(1) Group
          by (simp add: Let_def)
        then show ?thesis
          using gr(2)[of m l] nx(2) Group by simp blast
      qed
    qed
    have "members_inner pc Y g found root depth = fold ?f (access_levels st) found"
      using Some d by (subst members_inner.simps) simp
    moreover have "(\<exists>e \<in> set (access_levels st). ?Q e) \<longleftrightarrow>
        (\<forall>r. root = Some r \<longrightarrow> l \<le> level r) \<and> chain Y l (Suc n) g m"
      by (auto simp: member_with_def Some)
    moreover note fold_at_least[of "access_levels st" ?f m l ?Q found, OF step[THEN conjunct1]
        step[THEN conjunct2] Suc.prems(1)]
    ultimately show ?thesis
      by simp
  qed
qed

subsection \<open>Nesting cycles are found\<close>

definition nesting :: "('id, 'c) group_states \<Rightarrow> ('id \<times> 'id) set" where
  "nesting Y = {(g, i). i \<in> set (sub_groups Y g)}"

lemma leaves_closed:
  assumes "(v, p) \<in> R\<^sup>*" "v \<in> V" "p \<notin> V" "\<forall>x \<in> V. \<forall>y. (x, y) \<in> R \<longrightarrow> y \<in> V \<union> S"
  shows "\<exists>w \<in> S - V. (w, p) \<in> R\<^sup>*"
  using assms by (induction rule: converse_rtrancl_induct) blast+

lemma cycle_search_iff:
  assumes "\<forall>x \<in> visited. x \<noteq> p \<and> set (sub_groups Y x) \<subseteq> visited \<union> set stack"
  shows "cycle_search Y p stack visited \<longleftrightarrow> (\<exists>x \<in> set stack. (x, p) \<in> (nesting Y)\<^sup>*)"
  using assms
proof (induction Y p stack visited rule: cycle_search.induct)
  case (2 Y p child stack visited)
  show ?case
  proof (cases "child \<in> visited")
    case True
    have "\<exists>w \<in> set (child # stack) - visited. (w, p) \<in> (nesting Y)\<^sup>*" if "(child, p) \<in> (nesting Y)\<^sup>*"
      using that True 2(3) by (intro leaves_closed) (auto simp: nesting_def)
    moreover have "cycle_search Y p stack visited \<longleftrightarrow> (\<exists>x \<in> set stack. (x, p) \<in> (nesting Y)\<^sup>*)"
      using 2(1)[OF True] 2(3) True by auto
    ultimately show ?thesis
      using True by auto
  next
    case False
    have step: "(child, p) \<in> (nesting Y)\<^sup>* \<longleftrightarrow> (\<exists>x \<in> set (sub_groups Y child). (x, p) \<in> (nesting Y)\<^sup>*)"
      if "child \<noteq> p"
      using that by (auto simp: nesting_def elim: converse_rtranclE intro: converse_rtrancl_into_rtrancl)
    have "cycle_search Y p (rev (sub_groups Y child) @ stack) (insert child visited) \<longleftrightarrow>
        (\<exists>x \<in> set (rev (sub_groups Y child) @ stack). (x, p) \<in> (nesting Y)\<^sup>*)" if "child \<noteq> p"
      using that 2(3) by (intro 2(2)[OF False that]) auto
    then show ?thesis
      using False step by auto
  qed
qed simp

lemma would_create_cycle_iff:
  "would_create_cycle Y parent (Add (Group child) acc) \<longleftrightarrow> (child, parent) \<in> (nesting Y)\<^sup>*"
  using cycle_search_iff[of "{}" parent Y "[child]"] by (simp add: would_create_cycle_def)

lemma sub_groups_iff:
  "i \<in> set (sub_groups Y g) \<longleftrightarrow> (\<exists>st a. map_of Y g = Some st \<and> (Group i, a) \<in> set (access_levels st))"
  by (force simp: sub_groups_def in_map_filter split: option.splits group_member.splits)

lemma sub_groups_active:
  "map_of Y g = Some st \<Longrightarrow> state_wf st \<Longrightarrow> i \<in> set (sub_groups Y g) \<longleftrightarrow> Group i \<in> active_members st"
  by (auto simp: sub_groups_iff active_members_iff access_levels_iff is_active_def)

subsection \<open>Applying actions\<close>

lemma apply_action_cases:
  assumes "apply_action Y g op actor action ignored = Some r" "\<not> is_create action"
  obtains st st' where "map_of Y g = Some st"
    "map_of (changed_state r) = (map_of Y)(g \<mapsto> st')"
    "op \<in> ignored \<and> st' = st \<or> op \<notin> ignored \<and>
       (run_action st actor action = Inr st' \<or> (\<exists>e. run_action st actor action = Inl e) \<and> st' = st)"
  using assms by (auto simp: apply_action_def split: option.splits if_splits sum.splits)

lemma apply_action_Some:
  "map_of Y g = Some st \<Longrightarrow> \<exists>r. apply_action Y g op actor action ignored = Some r"
  by (cases "run_action st actor action"; cases "is_create action")
     (auto simp: apply_action_def split: sum.splits)

lemma apply_action_dom:
  assumes "is_create action \<or> map_of Y g \<noteq> None"
  shows "\<exists>r. apply_action Y g op actor action ignored = Some r \<and>
             dom (map_of (changed_state r)) = insert g (dom (map_of Y))"
proof (cases "op \<in> ignored")
  case True
  then show ?thesis
    using assms by (cases "is_create action") (auto simp: apply_action_def dom_def)
next
  case False
  then show ?thesis
    using assms
    by (cases "is_create action"; cases "map_of Y g";
        cases "run_action (if is_create action then \<lparr>members = []\<rparr> else the (map_of Y g)) actor action")
       (auto simp: apply_action_def dom_def)
qed

lemma apply_remove_unsafe_dom:
  assumes "map_of Y g \<noteq> None"
  shows "\<exists>Y'. apply_remove_unsafe Y g m = Some Y' \<and> dom (map_of Y') = dom (map_of Y)"
  using assms by (auto simp: apply_remove_unsafe_def)

lemma dom_merge_groups: "dom (map_of (merge_groups pc Y Z)) = dom (map_of Y) \<union> dom (map_of Z)"
proof (induction Y arbitrary: Z)
  case (Cons e Y)
  have "dom (map_of (merge_group pc e Z)) = insert (fst e) (dom (map_of Z))"
    by (cases e) (auto simp: merge_group_def split: option.splits)
  then show ?case
    using Cons by (cases e) (auto simp: merge_groups_def)
qed (simp add: merge_groups_def)

lemma dom_fold_merge_groups:
  "dom (map_of (fold (merge_groups pc) Ys Z)) = (\<Union>Y \<in> set Ys. dom (map_of Y)) \<union> dom (map_of Z)"
  by (induction Ys arbitrary: Z) (auto simp: dom_merge_groups)

lemma merge_states_dom:
  assumes "\<forall>i \<in> set ids. map_of states i \<noteq> None"
  shows "\<exists>Y. merge_states pc states ids = Inr Y \<and>
             dom (map_of Y) = (\<Union>i \<in> set ids. dom (map_of (the (map_of states i))))"
  using assms by (simp add: merge_states_def merge_states_from_eq dom_fold_merge_groups)

lemma run_action_performs:
  assumes "run_action st actor action = Inr st'" "\<not> is_create action"
  obtains m acc where "performs st (Individual actor) m acc st'"
  using assms by (cases action) (auto simp: run_action_def performs_def is_create_def)

lemma run_action_sub_group:
  assumes "run_action st actor action = Inr st'" "\<not> is_create action" "state_wf st"
  shows "state_wf st' \<and> (\<forall>m. m \<in> active_members st' \<longrightarrow> m \<in> active_members st \<or> (\<exists>acc. action = Add m acc))"
proof -
  obtain m acc where p: "performs st (Individual actor) m acc st'"
    using run_action_performs[OF assms(1,2)] .
  have "m' \<in> active_members st' \<Longrightarrow> m' \<in> active_members st \<or> (\<exists>acc. action = Add m' acc)" for m'
    using assms(1,2) performs_wf[OF p assms(3)] assms(3)
    by (cases action; cases "\<exists>m acc. action = Add m acc")
       (auto simp: run_action_def is_create_def active_members_iff is_active_def is_member_def operation_cases
         split: if_splits option.splits)
  then show ?thesis
    using performs_wf[OF p assms(3)] by blast
qed

lemma acyclic_insert_edges:
  assumes "acyclic R" "R' \<subseteq> insert (g, i) R" "(i, g) \<notin> R\<^sup>*"
  shows "acyclic R'"
  using assms acyclic_subset[of "insert (g, i) R" R'] by (simp add: acyclic_insert)

subsection \<open>Properties\<close>




definition example_nested :: "(nat, unit) group_states" where
  "example_nested = [(0, create [(Group 1, access_read)]), (1, create [(Individual 7, access_write)])]"

lemma access_levels_create_single [simp]: "access_levels (create [(m, a)]) = [(m, a)]"
  by (simp add: create_def amap_insert_def access_levels_def is_member_def)

lemma example_nested_ok: "groups_ok example_nested"
  by (auto simp: example_nested_def groups_ok_def create_def state_ok_def state_wf_def amap_insert_def
      entry_ok_def unconditional_def access_read_def access_write_def)


text \<open>C32: The cycle check is exact. Adding group \<open>child\<close> to group \<open>parent\<close> is reported as a cycle if and
  only if \<open>parent\<close> already is \<open>child\<close> or is nested in it at any depth; the search always ends.\<close>

theorem cycle_check_exact:
  "would_create_cycle Y parent (Add (Group child) acc) \<longleftrightarrow>
   (child, parent) \<in> {(g, i). i \<in> set (sub_groups Y g)}\<^sup>*"
  using would_create_cycle_iff[of Y parent child acc] by (simp add: nesting_def)

text \<open>C33: Nesting stays acyclic. If no group is nested in itself and an action other than \<open>Create\<close> passes
  the cycle check, no group is nested in itself after the action has been applied, whatever its
  outcome.\<close>

theorem apply_action_keeps_acyclic:
  assumes "groups_ok Y" "acyclic {(g, i). i \<in> set (sub_groups Y g)}"
    and "\<not> is_create action" "\<not> would_create_cycle Y g action"
    and "apply_action Y g op actor action ignored = Some r"
  shows "acyclic {(g, i). i \<in> set (sub_groups (changed_state r) g)}"
proof -
  obtain st st' where st: "map_of Y g = Some st" "map_of (changed_state r) = (map_of Y)(g \<mapsto> st')"
    "st' = st \<or> run_action st actor action = Inr st'"
    by (rule apply_action_cases[OF assms(5,3)]) blast
  have wf: "state_wf st"
    using assms(1) st(1) by (simp add: groups_ok_def state_ok_def)
  have other: "sub_groups (changed_state r) h = sub_groups Y h" if "h \<noteq> g" for h
    using that by (simp add: sub_groups_def st(2))
  have here: "i \<in> set (sub_groups Y g) \<or> (\<exists>acc. action = Add (Group i) acc)"
    if "i \<in> set (sub_groups (changed_state r) g)" for i
    using st(3)
  proof
    assume "st' = st"
    then show ?thesis
      using that st by (simp add: sub_groups_def)
  next
    assume run: "run_action st actor action = Inr st'"
    note sub = run_action_sub_group[OF run assms(3) wf]
    have "Group i \<in> active_members st'"
      using that sub st(2) by (simp add: sub_groups_active[of "changed_state r" g st' i])
    then show ?thesis
      using sub sub_groups_active[OF st(1) wf, of i] by blast
  qed
  have A: "acyclic (nesting Y)"
    using assms(2) by (simp add: nesting_def)
  have "acyclic (nesting (changed_state r))"
  proof (cases "\<exists>i acc. action = Add (Group i) acc")
    case True
    then obtain i acc where i: "action = Add (Group i) acc"
      by blast
    have n: "(i, g) \<notin> (nesting Y)\<^sup>*"
      using assms(4) would_create_cycle_iff[of Y g i acc] i by simp
    have sub: "nesting (changed_state r) \<subseteq> insert (g, i) (nesting Y)"
    proof clarify
      fix h j
      assume "(h, j) \<in> nesting (changed_state r)" "(h, j) \<notin> nesting Y"
      then show "h = g \<and> j = i"
        using here[of j] other[of h] i by (cases "h = g") (simp_all add: nesting_def)
    qed
    show ?thesis
      by (rule acyclic_insert_edges[OF A sub n])
  next
    case False
    have "nesting (changed_state r) \<subseteq> nesting Y"
    proof clarify
      fix h j
      assume "(h, j) \<in> nesting (changed_state r)"
      then show "(h, j) \<in> nesting Y"
        using here[of j] other[of h] False by (cases "h = g") (simp_all add: nesting_def)
    qed
    then show ?thesis
      using A acyclic_subset by blast
  qed
  then show ?thesis
    by (simp add: nesting_def)
qed

theorem apply_action_keeps_acyclic_witness:
  "\<exists>r. apply_action [(0 :: nat, create [(Individual 9, access_manage :: unit access)]), (1, create [])] 0
         (0 :: nat) 9 (Add (Group 1) access_read) {} = Some r \<and>
       acyclic {(g, i). i \<in> set (sub_groups (changed_state r) g)}"
proof -
  let ?Y = "[(0 :: nat, create [(Individual 9, access_manage :: unit access)]), (1, create [])]"
  obtain r where r: "apply_action ?Y 0 (0 :: nat) 9 (Add (Group 1) access_read) {} = Some r"
    using apply_action_Some[of ?Y 0] by (metis map_of_Cons_code(2))
  have none: "{(g, i). i \<in> set (sub_groups ?Y g)} = {}"
    by (auto simp: sub_groups_def in_map_filter split: if_splits)
       (simp add: create_def access_levels_def)
  have "groups_ok ?Y"
    by (auto simp: groups_ok_def create_def state_ok_def state_wf_def amap_insert_def entry_ok_def
        unconditional_def access_manage_def)
  then show ?thesis
    using apply_action_keeps_acyclic[OF _ _ _ _ r] none r
      would_create_cycle_iff[of ?Y 0 1 access_read]
    by (simp add: is_create_def nesting_def acyclic_def)
qed

end
