(* ===== verification/Auth_Graph.thy ===== *)
theory Auth_Graph
  imports Prelude
begin

section \<open>The operation graph and its bubbles of concurrency\<close>

text \<open>
  \<open>p2panda-auth/src/graph.rs\<close>. The graph type of the \<open>petgraph\<close> library and the walks over it are
  the record \<open>graph_api\<close>, an argument of every definition that uses them; \<open>graph_ok\<close> states what
  their documentation promises. A walk is the list of the nodes it visits. \<open>HashSet\<close>s that the code
  iterates over are lists in some order.
\<close>

record ('g, 'n) graph_api =
  g_empty :: 'g
  g_nodes :: "'g \<Rightarrow> 'n list"
  g_contains_edge :: "'g \<Rightarrow> 'n \<Rightarrow> 'n \<Rightarrow> bool"
  g_add_node :: "'n \<Rightarrow> 'g \<Rightarrow> 'g"
  g_add_edge :: "'n \<Rightarrow> 'n \<Rightarrow> 'g \<Rightarrow> 'g"
  g_remove_node :: "'n \<Rightarrow> 'g \<Rightarrow> 'g"
  g_dfs :: "'g \<Rightarrow> 'n \<Rightarrow> 'n list"
  g_dfs_reversed :: "'g \<Rightarrow> 'n \<Rightarrow> 'n list"
  g_topo :: "'g \<Rightarrow> 'n list"
  g_externals :: "'g \<Rightarrow> 'n list"
  g_has_path_connecting :: "'g \<Rightarrow> 'n \<Rightarrow> 'n \<Rightarrow> bool"

definition g_edges :: "('g, 'n) graph_api \<Rightarrow> 'g \<Rightarrow> ('n \<times> 'n) set" where
  "g_edges G g = {(a, b). g_contains_edge G g a b}"

definition precedes :: "'n list \<Rightarrow> 'n \<Rightarrow> 'n \<Rightarrow> bool" where
  "precedes xs a b \<longleftrightarrow> (\<exists>us vs ws. xs = us @ a # vs @ b # ws)"

definition graph_ok :: "('g, 'n) graph_api \<Rightarrow> bool" where
  "graph_ok G \<longleftrightarrow>
     (\<forall>g. distinct (g_nodes G g) \<and> g_edges G g \<subseteq> set (g_nodes G g) \<times> set (g_nodes G g)) \<and>
     g_nodes G (g_empty G) = [] \<and>
     (\<forall>g x. set (g_nodes G (g_add_node G x g)) = insert x (set (g_nodes G g)) \<and>
            g_edges G (g_add_node G x g) = g_edges G g) \<and>
     (\<forall>g x y. set (g_nodes G (g_add_edge G x y g)) = insert x (insert y (set (g_nodes G g))) \<and>
              g_edges G (g_add_edge G x y g) = insert (x, y) (g_edges G g)) \<and>
     (\<forall>g x. set (g_nodes G (g_remove_node G x g)) = set (g_nodes G g) - {x} \<and>
            g_edges G (g_remove_node G x g) = {(a, b) \<in> g_edges G g. a \<noteq> x \<and> b \<noteq> x}) \<and>
     (\<forall>g x. set (g_dfs G g x) = {y. (x, y) \<in> (g_edges G g)\<^sup>*}) \<and>
     (\<forall>g x. set (g_dfs_reversed G g x) = {y. (y, x) \<in> (g_edges G g)\<^sup>*}) \<and>
     (\<forall>g. acyclic (g_edges G g) \<longrightarrow>
        distinct (g_topo G g) \<and> set (g_topo G g) = set (g_nodes G g) \<and>
        (\<forall>a b. (a, b) \<in> g_edges G g \<longrightarrow> precedes (g_topo G g) a b)) \<and>
     (\<forall>g. set (g_externals G g) = {x \<in> set (g_nodes G g). \<forall>y. (x, y) \<notin> g_edges G g}) \<and>
     (\<forall>g x y. g_has_path_connecting G g x y \<longleftrightarrow> (x, y) \<in> (g_edges G g)\<^sup>*)"

lemma graph_okD:
  assumes "graph_ok G"
  shows "distinct (g_nodes G g)" "g_edges G g \<subseteq> set (g_nodes G g) \<times> set (g_nodes G g)"
    "g_nodes G (g_empty G) = []"
    "set (g_nodes G (g_add_node G x g)) = insert x (set (g_nodes G g))"
    "g_edges G (g_add_node G x g) = g_edges G g"
    "set (g_nodes G (g_add_edge G x y g)) = insert x (insert y (set (g_nodes G g)))"
    "g_edges G (g_add_edge G x y g) = insert (x, y) (g_edges G g)"
    "set (g_nodes G (g_remove_node G x g)) = set (g_nodes G g) - {x}"
    "g_edges G (g_remove_node G x g) = {(a, b) \<in> g_edges G g. a \<noteq> x \<and> b \<noteq> x}"
    "set (g_dfs G g x) = {y. (x, y) \<in> (g_edges G g)\<^sup>*}"
    "set (g_dfs_reversed G g x) = {y. (y, x) \<in> (g_edges G g)\<^sup>*}"
    "acyclic (g_edges G g) \<Longrightarrow> distinct (g_topo G g)"
    "acyclic (g_edges G g) \<Longrightarrow> set (g_topo G g) = set (g_nodes G g)"
    "acyclic (g_edges G g) \<Longrightarrow> (a, b) \<in> g_edges G g \<Longrightarrow> precedes (g_topo G g) a b"
    "set (g_externals G g) = {x \<in> set (g_nodes G g). \<forall>y. (x, y) \<notin> g_edges G g}"
    "g_has_path_connecting G g x y \<longleftrightarrow> (x, y) \<in> (g_edges G g)\<^sup>*"
  using assms unfolding graph_ok_def by (auto 0 0)

subsection \<open>Concurrency\<close>

definition concurrent_operations :: "('g, 'n) graph_api \<Rightarrow> 'g \<Rightarrow> 'n \<Rightarrow> 'n list" where
  "concurrent_operations G g target =
     (let successors = set (g_dfs G g target);
          predecessors = set (g_dfs_reversed G g target)
      in filter (\<lambda>n. n \<notin> successors \<union> predecessors) (g_nodes G g))"

function (domintros) bubble_loop ::
  "('g, 'n) graph_api \<Rightarrow> 'g \<Rightarrow> 'n list \<Rightarrow> 'n list \<Rightarrow> 'n set \<Rightarrow> 'n list \<times> 'n set" where
  "bubble_loop G g [] bubble processed = (bubble, processed)"
| "bubble_loop G g (op # ops) bubble processed =
     (if op \<in> processed then bubble_loop G g ops bubble processed
      else (case bubble_loop G g (concurrent_operations G g op) [op] (insert op processed) of
              (inner, processed') \<Rightarrow>
                bubble_loop G g ops (bubble @ filter (\<lambda>x. x \<notin> set bubble) inner) processed'))"
  by pat_completeness auto

lemma bubble_loop_processed:
  "bubble_loop_dom (G, g, ops, bubble, processed) \<Longrightarrow>
   processed \<subseteq> snd (bubble_loop G g ops bubble processed)"
  by (induction G g ops bubble processed rule: bubble_loop.pinduct)
     (fastforce simp: bubble_loop.psimps split: prod.splits)+

lemma concurrent_operations_nodes: "set (concurrent_operations G g x) \<subseteq> set (g_nodes G g)"
  by (auto simp: concurrent_operations_def Let_def)

termination bubble_loop
proof (relation "measures [\<lambda>(G, g, ops, bubble, processed). card (set (g_nodes G g) \<union> set ops - processed),
                           \<lambda>(G, g, ops, bubble, processed). length ops]", goal_cases)
  case (2 G g op ops bubble processed)
  then have "set (g_nodes G g) \<union> set (op # ops) - processed = set (g_nodes G g) \<union> set ops - processed"
    by auto
  then show ?case
    by simp
next
  case (3 G g op ops bubble processed)
  let ?new = "set (g_nodes G g) \<union> set (concurrent_operations G g op) - insert op processed"
  have "?new \<subset> set (g_nodes G g) \<union> set (op # ops) - processed"
    using 3 concurrent_operations_nodes[of G g op] by auto
  then have "card ?new < card (set (g_nodes G g) \<union> set (op # ops) - processed)"
    by (intro psubset_card_mono) simp_all
  then show ?case
    by simp
next
  case (4 G g op ops bubble processed inner processed')
  have "insert op processed \<subseteq> processed'"
    using bubble_loop_processed[OF 4(3)] 4(2)[symmetric] by simp
  then have "set (g_nodes G g) \<union> set ops - processed' \<subset> set (g_nodes G g) \<union> set (op # ops) - processed"
    using 4(1) by auto
  then have "card (set (g_nodes G g) \<union> set ops - processed') <
      card (set (g_nodes G g) \<union> set (op # ops) - processed)"
    by (intro psubset_card_mono) simp_all
  then show ?case
    by simp
qed simp

definition concurrent_bubble ::
  "('g, 'n) graph_api \<Rightarrow> 'g \<Rightarrow> 'n \<Rightarrow> 'n set \<Rightarrow> 'n list \<times> 'n set" where
  "concurrent_bubble G g target processed =
     bubble_loop G g (concurrent_operations G g target) [target] processed"

definition add_bubble ::
  "('g, 'n) graph_api \<Rightarrow> 'g \<Rightarrow> 'n \<Rightarrow> 'n list list \<times> 'n set \<Rightarrow> 'n list list \<times> 'n set" where
  "add_bubble G g target acc =
     (case acc of (bubbles, processed) \<Rightarrow>
       if target \<in> processed then (bubbles, processed)
       else (case concurrent_bubble G g target (insert target processed) of
               (bubble, processed') \<Rightarrow>
                 (if 1 < length bubble then bubbles @ [bubble] else bubbles, processed')))"

definition concurrent_bubbles :: "('g, 'n) graph_api \<Rightarrow> 'g \<Rightarrow> 'n list list" where
  "concurrent_bubbles G g = fst (fold (add_bubble G g) (g_nodes G g) ([], {}))"

definition split_bubble ::
  "('g, 'n) graph_api \<Rightarrow> 'g \<Rightarrow> 'n list \<Rightarrow> 'n \<Rightarrow> 'n list \<times> 'n set \<times> 'n list" where
  "split_bubble G g bubble target =
     (let successors = g_dfs G g target;
          concurrent = filter (\<lambda>x. x \<notin> set successors) bubble;
          predecessors = set (g_dfs_reversed G g target);
          concurrent = filter (\<lambda>x. x \<notin> predecessors) concurrent
      in (concurrent, predecessors, successors))"

definition has_path :: "('g, 'n) graph_api \<Rightarrow> 'g \<Rightarrow> 'n \<Rightarrow> 'n \<Rightarrow> bool" where
  "has_path G g a b \<longleftrightarrow> a \<noteq> b \<and> g_has_path_connecting G g a b"

definition is_concurrent :: "('g, 'n) graph_api \<Rightarrow> 'g \<Rightarrow> 'n \<Rightarrow> 'n \<Rightarrow> bool" where
  "is_concurrent G g a b \<longleftrightarrow> a \<noteq> b \<and> \<not> has_path G g a b \<and> \<not> has_path G g b a"

subsection \<open>Bubbles are the components of the concurrency relation\<close>

definition conc :: "('g, 'n) graph_api \<Rightarrow> 'g \<Rightarrow> ('n \<times> 'n) set" where
  "conc G g = {(a, b). a \<in> set (g_nodes G g) \<and> b \<in> set (g_nodes G g) \<and>
                       (a, b) \<notin> (g_edges G g)\<^sup>* \<and> (b, a) \<notin> (g_edges G g)\<^sup>*}"

lemma conc_sym: "(a, b) \<in> conc G g \<Longrightarrow> (b, a) \<in> conc G g"
  by (auto simp: conc_def)

lemma conc_rtrancl_sym: "(a, b) \<in> (conc G g)\<^sup>* \<Longrightarrow> (b, a) \<in> (conc G g)\<^sup>*"
  using sym_rtrancl[of "conc G g"] conc_sym[of _ _ G g] by (auto simp: sym_def)

lemma conc_nodes: "(a, b) \<in> (conc G g)\<^sup>* \<Longrightarrow> a \<in> set (g_nodes G g) \<Longrightarrow> b \<in> set (g_nodes G g)"
  by (induction rule: rtrancl_induct) (auto simp: conc_def)

lemma concurrent_operations_conc:
  "graph_ok G \<Longrightarrow> x \<in> set (g_nodes G g) \<Longrightarrow> set (concurrent_operations G g x) = {y. (x, y) \<in> conc G g}"
  by (auto simp: concurrent_operations_def conc_def Let_def graph_okD)

definition loop_post ::
  "('g, 'n) graph_api \<Rightarrow> 'g \<Rightarrow> 'n list \<Rightarrow> 'n list \<Rightarrow> 'n set \<Rightarrow> 'n list \<Rightarrow> 'n set \<Rightarrow> bool" where
  "loop_post G g ops bubble processed b p \<longleftrightarrow>
     processed \<union> set ops \<subseteq> p \<and> set b = set bubble \<union> (p - processed) \<and>
     (\<forall>x \<in> p - processed. \<forall>y. (x, y) \<in> conc G g \<longrightarrow> y \<in> p) \<and>
     (\<forall>x \<in> p - processed. \<exists>s \<in> set ops. (s, x) \<in> (conc G g)\<^sup>*) \<and>
     (distinct bubble \<longrightarrow> distinct b)"

lemma loop_postD:
  assumes "loop_post G g ops bubble processed b p"
  shows "processed \<subseteq> p" "set ops \<subseteq> p" "set b = set bubble \<union> (p - processed)"
    "x \<in> p \<Longrightarrow> x \<notin> processed \<Longrightarrow> (x, y) \<in> conc G g \<Longrightarrow> y \<in> p"
    "x \<in> p \<Longrightarrow> x \<notin> processed \<Longrightarrow> \<exists>s \<in> set ops. (s, x) \<in> (conc G g)\<^sup>*"
    "distinct bubble \<Longrightarrow> distinct b"
  using assms unfolding loop_post_def by blast+

lemma bubble_loop_post:
  assumes "graph_ok G" "set ops \<subseteq> set (g_nodes G g)" "bubble_loop G g ops bubble processed = (b, p)"
  shows "loop_post G g ops bubble processed b p"
  using assms
proof (induction G g ops bubble processed arbitrary: b p rule: bubble_loop.induct)
  case (2 G g op ops bubble processed)
  have op: "op \<in> set (g_nodes G g)" and ops: "set ops \<subseteq> set (g_nodes G g)"
    using 2(5) by auto
  show ?case
  proof (cases "op \<in> processed")
    case True
    then have "loop_post G g ops bubble processed b p"
      using 2(1)[OF True 2(4) ops] 2(6) by simp
    then show ?thesis
      using True by (auto simp: loop_post_def)
  next
    case False
    obtain inner q where q: "bubble_loop G g (concurrent_operations G g op) [op] (insert op processed) = (inner, q)"
      by (cases "bubble_loop G g (concurrent_operations G g op) [op] (insert op processed)")
    note next_ops = concurrent_operations_conc[OF 2(4) op]
    have I: "loop_post G g (concurrent_operations G g op) [op] (insert op processed) inner q"
      using 2(2)[OF False 2(4) concurrent_operations_nodes q] .
    have J: "loop_post G g ops (bubble @ filter (\<lambda>x. x \<notin> set bubble) inner) q b p"
      using 2(3)[OF False q[symmetric] 2(4) ops] 2(6) q False by simp
    have reach: "\<exists>s \<in> set (op # ops). (s, x) \<in> (conc G g)\<^sup>*" if "x \<in> p - processed" for x
    proof (cases "x \<in> q")
      case True
      then have "x = op \<or> (\<exists>s. (op, s) \<in> conc G g \<and> (s, x) \<in> (conc G g)\<^sup>*)"
        using loop_postD(5)[OF I, of x] that unfolding next_ops by blast
      then show ?thesis
        by (auto intro: converse_rtrancl_into_rtrancl)
    next
      case False
      then show ?thesis
        using J that by (auto simp: loop_post_def)
    qed
    have closed: "y \<in> p" if "x \<in> p - processed" "(x, y) \<in> conc G g" for x y
    proof (cases "x \<in> q")
      case True
      then have "y \<in> q"
        using loop_postD(2)[OF I] loop_postD(4)[OF I, of x y] that unfolding next_ops by blast
      then show ?thesis
        using loop_postD(1)[OF J] by blast
    next
      case False
      then show ?thesis
        using J that by (auto simp: loop_post_def)
    qed
    have "set b = set bubble \<union> (p - processed)" "processed \<union> set (op # ops) \<subseteq> p"
      "distinct bubble \<longrightarrow> distinct b"
      using I J False by (auto simp: loop_post_def)
    then show ?thesis
      using reach closed by (auto simp: loop_post_def)
  qed
qed (auto simp: loop_post_def)

definition component_of :: "('g, 'n) graph_api \<Rightarrow> 'g \<Rightarrow> 'n \<Rightarrow> 'n set" where
  "component_of G g x = {y. (x, y) \<in> (conc G g)\<^sup>*}"

definition conc_closed :: "('g, 'n) graph_api \<Rightarrow> 'g \<Rightarrow> 'n set \<Rightarrow> bool" where
  "conc_closed G g P \<longleftrightarrow> (\<forall>x \<in> P. \<forall>y. (x, y) \<in> conc G g \<longrightarrow> y \<in> P)"

lemma conc_closed_rtrancl: "conc_closed G g P \<Longrightarrow> (x, y) \<in> (conc G g)\<^sup>* \<Longrightarrow> x \<in> P \<Longrightarrow> y \<in> P"
  by (rotate_tac 1, induction rule: rtrancl_induct) (auto simp: conc_closed_def)

lemma concurrent_bubble_component:
  assumes G: "graph_ok G" and t: "t \<in> set (g_nodes G g)" "t \<notin> P" and P: "conc_closed G g P"
    and cb: "concurrent_bubble G g t (insert t P) = (b, p)"
  shows "set b = component_of G g t \<and> p = P \<union> component_of G g t \<and> conc_closed G g p \<and> distinct b"
proof -
  note next_ops = concurrent_operations_conc[OF G t(1)]
  have L: "loop_post G g (concurrent_operations G g t) [t] (insert t P) b p"
    using bubble_loop_post[OF G concurrent_operations_nodes] cb by (simp add: concurrent_bubble_def)
  have "y \<in> p" if "x \<in> p" "(x, y) \<in> conc G g" for x y
    using that loop_postD(4)[OF L, of x y] loop_postD(1,2)[OF L] P unfolding conc_closed_def next_ops by blast
  then have closed: "conc_closed G g p"
    by (simp add: conc_closed_def)
  have disjoint: "P \<inter> component_of G g t = {}"
    using conc_closed_rtrancl[OF P conc_rtrancl_sym, of t] t(2) unfolding component_of_def by blast
  have "component_of G g t \<subseteq> p"
    using conc_closed_rtrancl[OF closed, of t] loop_postD(1)[OF L] unfolding component_of_def by blast
  moreover have "x \<in> component_of G g t" if x: "x \<in> p - P" for x
  proof (cases "x = t")
    case False
    then obtain s where "(t, s) \<in> conc G g" "(s, x) \<in> (conc G g)\<^sup>*"
      using loop_postD(5)[OF L, of x] x unfolding next_ops by blast
    then show ?thesis
      unfolding component_of_def by (simp add: converse_rtrancl_into_rtrancl)
  qed (simp add: component_of_def)
  ultimately have p: "p = P \<union> component_of G g t"
    using loop_postD(1)[OF L] by blast
  have "t \<in> component_of G g t"
    by (simp add: component_of_def)
  then have "set b = component_of G g t"
    unfolding loop_postD(3)[OF L] p using disjoint by auto
  then show ?thesis
    using closed p loop_postD(6)[OF L] by simp
qed

lemma component_eq: "y \<in> component_of G g x \<Longrightarrow> component_of G g y = component_of G g x"
  by (auto simp: component_of_def intro: rtrancl_trans dest: conc_rtrancl_sym)

definition bubbles_inv ::
  "('g, 'n) graph_api \<Rightarrow> 'g \<Rightarrow> 'n set \<Rightarrow> 'n list list \<times> 'n set \<Rightarrow> bool" where
  "bubbles_inv G g seen acc \<longleftrightarrow>
     conc_closed G g (snd acc) \<and> snd acc = (\<Union>x \<in> seen. component_of G g x) \<and>
     (\<forall>b \<in> set (fst acc). distinct b \<and> 1 < length b \<and> (\<exists>x \<in> seen. set b = component_of G g x)) \<and>
     (\<forall>x \<in> seen. 1 < card (component_of G g x) \<longrightarrow> (\<exists>b \<in> set (fst acc). set b = component_of G g x)) \<and>
     distinct (map set (fst acc))"

lemma bubbles_invD:
  assumes "bubbles_inv G g seen (bs, P)"
  shows "conc_closed G g P" "P = (\<Union>x \<in> seen. component_of G g x)"
    "b \<in> set bs \<Longrightarrow> distinct b" "b \<in> set bs \<Longrightarrow> 1 < length b"
    "b \<in> set bs \<Longrightarrow> \<exists>x \<in> seen. set b = component_of G g x"
    "x \<in> seen \<Longrightarrow> 1 < card (component_of G g x) \<Longrightarrow> \<exists>b \<in> set bs. set b = component_of G g x"
    "distinct (map set bs)"
  using assms unfolding bubbles_inv_def fst_conv snd_conv by blast+

lemma bubbles_invI:
  assumes "conc_closed G g P" "P = (\<Union>x \<in> seen. component_of G g x)"
    "\<And>b. b \<in> set bs \<Longrightarrow> distinct b \<and> 1 < length b \<and> (\<exists>x \<in> seen. set b = component_of G g x)"
    "\<And>x. x \<in> seen \<Longrightarrow> 1 < card (component_of G g x) \<Longrightarrow> \<exists>b \<in> set bs. set b = component_of G g x"
    "distinct (map set bs)"
  shows "bubbles_inv G g seen (bs, P)"
  using assms unfolding bubbles_inv_def fst_conv snd_conv by blast

lemma component_refl [simp]: "x \<in> component_of G g x"
  by (simp add: component_of_def)

lemma add_bubble_inv:
  assumes G: "graph_ok G" and t: "t \<in> set (g_nodes G g)" and inv: "bubbles_inv G g seen (bs, P)"
  shows "bubbles_inv G g (insert t seen) (add_bubble G g t (bs, P))"
proof (cases "t \<in> P")
  case True
  then obtain x where "x \<in> seen" "t \<in> component_of G g x"
    unfolding bubbles_invD(2)[OF inv] by auto
  then have x: "x \<in> seen" "component_of G g t = component_of G g x"
    by (simp_all add: component_eq)
  have "bubbles_inv G g (insert t seen) (bs, P)"
  proof (rule bubbles_invI)
    show "P = (\<Union>x \<in> insert t seen. component_of G g x)"
      using bubbles_invD(2)[OF inv] x by blast
    show "distinct b \<and> 1 < length b \<and> (\<exists>x \<in> insert t seen. set b = component_of G g x)" if "b \<in> set bs" for b
      using bubbles_invD(3,4,5)[OF inv that] by blast
    show "\<exists>b \<in> set bs. set b = component_of G g y"
      if "y \<in> insert t seen" "1 < card (component_of G g y)" for y
      using bubbles_invD(6)[OF inv] that x by (cases "y = t") auto
  qed (rule bubbles_invD[OF inv])+
  then show ?thesis
    using True by (simp add: add_bubble_def)
next
  case False
  obtain b p where b: "concurrent_bubble G g t (insert t P) = (b, p)"
    by (cases "concurrent_bubble G g t (insert t P)")
  let ?bs = "if 1 < length b then bs @ [b] else bs"
  have B: "set b = component_of G g t" "p = P \<union> component_of G g t" "conc_closed G g p" "distinct b"
    using concurrent_bubble_component[OF G t False bubbles_invD(1)[OF inv] b] by blast+
  have len: "length b = card (component_of G g t)"
    using distinct_card[OF B(4)] B(1) by simp
  have fresh: "set b' \<noteq> set b" if b': "b' \<in> set bs" for b'
  proof
    assume "set b' = set b"
    then have "t \<in> P"
      using bubbles_invD(5)[OF inv b'] bubbles_invD(2)[OF inv] B(1) component_refl[of t G g] by blast
    with False show False ..
  qed
  have "bubbles_inv G g (insert t seen) (?bs, p)"
  proof (rule bubbles_invI)
    show "p = (\<Union>x \<in> insert t seen. component_of G g x)"
      using bubbles_invD(2)[OF inv] B(2) by blast
    show "distinct b' \<and> 1 < length b' \<and> (\<exists>x \<in> insert t seen. set b' = component_of G g x)"
      if "b' \<in> set ?bs" for b'
    proof (cases "b' \<in> set bs")
      case True
      then show ?thesis
        using bubbles_invD(3,4,5)[OF inv True] by blast
    qed (use that B in \<open>auto split: if_splits\<close>)
    show "\<exists>b \<in> set ?bs. set b = component_of G g y"
      if "y \<in> insert t seen" "1 < card (component_of G g y)" for y
      using bubbles_invD(6)[OF inv, of y] that B(1) len by (cases "y = t") auto
    show "distinct (map set ?bs)"
      using bubbles_invD(7)[OF inv] fresh by auto
  qed (rule B(3))
  then show ?thesis
    using False b by (simp add: add_bubble_def)
qed

lemma concurrent_bubbles_inv:
  assumes G: "graph_ok G"
  shows "\<exists>p. bubbles_inv G g (set (g_nodes G g)) (concurrent_bubbles G g, p)"
proof -
  have "bubbles_inv G g (set ts \<union> seen) (fold (add_bubble G g) ts acc)"
    if "set ts \<subseteq> set (g_nodes G g)" "bubbles_inv G g seen acc" for seen ts acc
    using that
  proof (induction ts arbitrary: seen acc)
    case (Cons t ts)
    then have "bubbles_inv G g (insert t seen) (add_bubble G g t acc)"
      using add_bubble_inv[OF G, of t g seen "fst acc" "snd acc"] by simp
    then show ?case
      using Cons.IH[of "insert t seen"] Cons.prems(1) by simp
  qed simp
  moreover have "bubbles_inv G g {} ([], {})"
    by (simp add: bubbles_inv_def conc_closed_def)
  ultimately have "bubbles_inv G g (set (g_nodes G g) \<union> {}) (fold (add_bubble G g) (g_nodes G g) ([], {}))"
    by blast
  then show ?thesis
    by (metis concurrent_bubbles_def prod.collapse sup_bot.right_neutral)
qed

text \<open>C14: Bubbles of concurrency. The bubbles found by the recursive search are exactly the connected
  components, with more than one operation, of the relation "neither is an ancestor of the other":
  two different bubbles are disjoint, every bubble is the component of each of its operations, and
  an operation is in no bubble exactly when it is ordered with every other operation.\<close>

theorem bubbles_are_components:
  assumes "graph_ok G"
  shows "(\<forall>b \<in> set (concurrent_bubbles G g). \<forall>x \<in> set b.
            distinct b \<and> set b = {y. (x, y) \<in> (conc G g)\<^sup>*}) \<and>
         (\<forall>x \<in> set (g_nodes G g).
            (\<exists>b \<in> set (concurrent_bubbles G g). x \<in> set b) \<longleftrightarrow> (\<exists>y. (x, y) \<in> conc G g)) \<and>
         distinct (map set (concurrent_bubbles G g))"
proof -
  obtain p where inv: "bubbles_inv G g (set (g_nodes G g)) (concurrent_bubbles G g, p)"
    using concurrent_bubbles_inv[OF assms] by blast
  have one: "distinct b \<and> set b = component_of G g x" if "b \<in> set (concurrent_bubbles G g)" "x \<in> set b" for b x
    using bubbles_invD(3,5)[OF inv that(1)] that(2) component_eq[of x G g] by blast
  have irrefl: "(x, x) \<notin> conc G g" for x
    by (simp add: conc_def)
  have two: "(\<exists>b \<in> set (concurrent_bubbles G g). x \<in> set b) \<longleftrightarrow> (\<exists>y. (x, y) \<in> conc G g)"
    if x: "x \<in> set (g_nodes G g)" for x
  proof
    assume "\<exists>b \<in> set (concurrent_bubbles G g). x \<in> set b"
    then obtain b where b: "b \<in> set (concurrent_bubbles G g)" "x \<in> set b"
      by blast
    then have "1 < card (component_of G g x)"
      using bubbles_invD(4)[OF inv b(1)] one[OF b] distinct_card[of b] by simp
    then have "component_of G g x \<noteq> {x}"
      by auto
    then obtain y where "(x, y) \<in> (conc G g)\<^sup>*" "y \<noteq> x"
      by (auto simp: component_of_def)
    then show "\<exists>y. (x, y) \<in> conc G g"
      by (metis converse_rtranclE)
  next
    assume "\<exists>y. (x, y) \<in> conc G g"
    then obtain y where y: "(x, y) \<in> conc G g" "y \<noteq> x"
      using irrefl by metis
    have "finite (component_of G g x)"
      using conc_nodes[OF _ x] by (auto simp: component_of_def intro: finite_subset[of _ "set (g_nodes G g)"])
    moreover have "{x, y} \<subseteq> component_of G g x"
      using y by (auto simp: component_of_def)
    ultimately have "1 < card (component_of G g x)"
      using y(2) card_mono[of "component_of G g x" "{x, y}"] by simp
    then obtain b where "b \<in> set (concurrent_bubbles G g)" "set b = component_of G g x"
      using bubbles_invD(6)[OF inv x] by blast
    then show "\<exists>b \<in> set (concurrent_bubbles G g). x \<in> set b"
      by (auto simp: component_of_def)
  qed
  show ?thesis
    using one two bubbles_invD(7)[OF inv] unfolding component_of_def by blast
qed

subsection \<open>Graphs as lists of nodes and edges\<close>

text \<open>An instance of the graph interface: the nodes and edges as lists, with a topological order by the
  number of ancestors.\<close>

type_synonym 'n list_graph = "'n list \<times> ('n \<times> 'n) list"

definition lg_edges :: "'n list_graph \<Rightarrow> ('n \<times> 'n) set" where
  "lg_edges g = {(a, b) \<in> set (snd g). a \<in> set (fst g) \<and> b \<in> set (fst g)}"

definition lg_clean :: "'n list_graph \<Rightarrow> ('n \<times> 'n) list" where
  "lg_clean g = filter (\<lambda>(a, b). a \<in> set (fst g) \<and> b \<in> set (fst g)) (snd g)"

definition lg_reach :: "('n \<times> 'n) set \<Rightarrow> 'n list \<Rightarrow> 'n \<Rightarrow> 'n list" where
  "lg_reach R ns x = x # filter (\<lambda>y. (x, y) \<in> R\<^sup>+) ns"

definition list_graph :: "('n list_graph, 'n) graph_api" where
  "list_graph =
     \<lparr>g_empty = ([], []),
      g_nodes = \<lambda>g. remdups (fst g),
      g_contains_edge = \<lambda>g a b. (a, b) \<in> lg_edges g,
      g_add_node = \<lambda>x g. (x # fst g, lg_clean g),
      g_add_edge = \<lambda>x y g. (x # y # fst g, (x, y) # lg_clean g),
      g_remove_node = \<lambda>x g. (filter (\<lambda>y. y \<noteq> x) (fst g), snd g),
      g_dfs = \<lambda>g x. lg_reach (lg_edges g) (fst g) x,
      g_dfs_reversed = \<lambda>g x. lg_reach ((lg_edges g)\<inverse>) (fst g) x,
      g_topo = \<lambda>g. sort_key (\<lambda>y. card {x. (x, y) \<in> (lg_edges g)\<^sup>+}) (remdups (fst g)),
      g_externals = \<lambda>g. filter (\<lambda>x. \<forall>y \<in> set (fst g). (x, y) \<notin> lg_edges g) (fst g),
      g_has_path_connecting = \<lambda>g x y. (x, y) \<in> (lg_edges g)\<^sup>*\<rparr>"

lemma lg_edges_nodes: "(a, b) \<in> (lg_edges g)\<^sup>+ \<Longrightarrow> a \<in> set (fst g) \<and> b \<in> set (fst g)"
  by (induction rule: trancl_induct) (auto simp: lg_edges_def)

lemma set_lg_reach:
  assumes "\<And>y. (x, y) \<in> R\<^sup>+ \<Longrightarrow> y \<in> set ns"
  shows "set (lg_reach R ns x) = {y. (x, y) \<in> R\<^sup>*}"
  using assms by (auto simp: lg_reach_def rtrancl_eq_or_trancl)

lemma precedes_sorted:
  assumes "sorted (map f xs)" "a \<in> set xs" "b \<in> set xs" "f a < (f b :: nat)"
  shows "precedes xs a b"
proof -
  obtain us vs where xs: "xs = us @ a # vs"
    using assms(2) by (auto dest: split_list)
  have "b \<notin> set us"
    using assms(1,4) by (auto simp: xs sorted_append)
  then have "b \<in> set vs"
    using assms(3,4) xs by auto
  then obtain vs' ws where "vs = vs' @ b # ws"
    by (auto dest: split_list)
  then show ?thesis
    unfolding precedes_def xs by blast
qed

lemma more_ancestors:
  assumes "acyclic (lg_edges g)" "(a, b) \<in> lg_edges g"
  shows "card {x. (x, a) \<in> (lg_edges g)\<^sup>+} < card {x. (x, b) \<in> (lg_edges g)\<^sup>+}"
proof (rule psubset_card_mono)
  show "finite {x. (x, b) \<in> (lg_edges g)\<^sup>+}"
    by (rule finite_subset[of _ "set (fst g)"]) (auto dest: lg_edges_nodes)
  have "a \<notin> {x. (x, a) \<in> (lg_edges g)\<^sup>+}" "a \<in> {x. (x, b) \<in> (lg_edges g)\<^sup>+}"
    using assms by (auto simp: acyclic_def)
  moreover have "{x. (x, a) \<in> (lg_edges g)\<^sup>+} \<subseteq> {x. (x, b) \<in> (lg_edges g)\<^sup>+}"
    using assms(2) by (auto intro: trancl_into_trancl)
  ultimately show "{x. (x, a) \<in> (lg_edges g)\<^sup>+} \<subset> {x. (x, b) \<in> (lg_edges g)\<^sup>+}"
    by blast
qed

lemma g_edges_list_graph: "g_edges list_graph g = lg_edges g"
  by (simp add: g_edges_def list_graph_def)

lemma graph_ok_list_graph: "graph_ok list_graph"
  unfolding graph_ok_def g_edges_list_graph
proof (intro conjI allI impI)
  fix g :: "'a list_graph" and x y a b
  show "distinct (g_nodes list_graph g)" "g_nodes list_graph (g_empty list_graph) = []"
    "set (g_nodes list_graph (g_add_node list_graph x g)) = insert x (set (g_nodes list_graph g))"
    "set (g_nodes list_graph (g_add_edge list_graph x y g)) = insert x (insert y (set (g_nodes list_graph g)))"
    "set (g_nodes list_graph (g_remove_node list_graph x g)) = set (g_nodes list_graph g) - {x}"
    by (auto simp: list_graph_def)
  show "lg_edges g \<subseteq> set (g_nodes list_graph g) \<times> set (g_nodes list_graph g)"
    by (auto simp: list_graph_def lg_edges_def)
  show "lg_edges (g_add_node list_graph x g) = lg_edges g"
    "lg_edges (g_add_edge list_graph x y g) = insert (x, y) (lg_edges g)"
    "lg_edges (g_remove_node list_graph x g) = {(a, b) \<in> lg_edges g. a \<noteq> x \<and> b \<noteq> x}"
    by (auto simp: list_graph_def lg_edges_def lg_clean_def)
  show "set (g_dfs list_graph g x) = {y. (x, y) \<in> (lg_edges g)\<^sup>*}"
    "set (g_dfs_reversed list_graph g x) = {y. (y, x) \<in> (lg_edges g)\<^sup>*}"
    using set_lg_reach[of x "lg_edges g" "fst g"] set_lg_reach[of x "(lg_edges g)\<inverse>" "fst g"]
    by (auto simp: list_graph_def trancl_converse rtrancl_converse dest: lg_edges_nodes)
  show "set (g_externals list_graph g) = {x \<in> set (g_nodes list_graph g). \<forall>y. (x, y) \<notin> lg_edges g}"
    by (auto simp: list_graph_def lg_edges_def)
  show "g_has_path_connecting list_graph g x y = ((x, y) \<in> (lg_edges g)\<^sup>*)"
    by (simp add: list_graph_def)
  assume ac: "acyclic (lg_edges g)"
  show "distinct (g_topo list_graph g)" "set (g_topo list_graph g) = set (g_nodes list_graph g)"
    by (simp_all add: list_graph_def)
  assume e: "(a, b) \<in> lg_edges g"
  show "precedes (g_topo list_graph g) a b"
    using e more_ancestors[OF ac e]
    by (auto simp: list_graph_def lg_edges_def intro!: precedes_sorted[of "\<lambda>y. card {x. (x, y) \<in> (lg_edges g)\<^sup>+}"])
qed

theorem bubbles_are_components_witness:
  "\<exists>b \<in> set (concurrent_bubbles list_graph ([0, 1, 2 :: nat], [(0, 1), (0, 2)])). 1 \<in> set b"
proof -
  let ?g = "([0, 1, 2 :: nat], [(0, 1), (0, 2)])"
  have E: "lg_edges ?g = {(0, 1), (0, 2)}"
    by (auto simp: lg_edges_def)
  have "(1, 2) \<notin> {(0, 1), (0, 2 :: nat)}\<^sup>*" "(2, 1) \<notin> {(0, 1), (0, 2 :: nat)}\<^sup>*"
    by (auto elim: converse_rtranclE)
  then have "(1, 2) \<in> conc list_graph ?g"
    unfolding conc_def g_edges_list_graph E by (auto simp: list_graph_def)
  moreover have "1 \<in> set (g_nodes list_graph ?g)"
    by (simp add: list_graph_def)
  ultimately show ?thesis
    using bubbles_are_components[OF graph_ok_list_graph, of ?g] by blast
qed

end
