(* ===== verification/Auth_Authority.thy ===== *)
theory Auth_Authority
  imports Auth_Graph
begin

section \<open>Authority graphs and mutual-remove cycles\<close>

text \<open>
  \<open>p2panda-auth/src/group/authority_graphs.rs\<close>. The indexed graph type of \<open>petgraph\<close> and its
  strongly-connected-components algorithm are the record \<open>digraph_api\<close>; \<open>digraph_ok\<close> states what is
  documented of them. Indexing the node map with a missing key is a panic, the value \<open>None\<close>.
\<close>

record ('h, 'n) digraph_api =
  dg_new :: 'h
  dg_add_node :: "'n \<Rightarrow> 'h \<Rightarrow> 'h \<times> nat"
  dg_add_edge :: "nat \<Rightarrow> nat \<Rightarrow> 'h \<Rightarrow> 'h"
  dg_find_edge :: "'h \<Rightarrow> nat \<Rightarrow> nat \<Rightarrow> bool"
  dg_node_indices :: "'h \<Rightarrow> nat list"
  dg_weight :: "'h \<Rightarrow> nat \<Rightarrow> 'n"
  dg_tarjan_scc :: "'h \<Rightarrow> nat list list"

type_synonym ('id, 'op) removal = "'id \<times> 'id \<times> 'op"
type_synonym ('id, 'op) delegation = "'id \<times> 'id \<times> 'op"
type_synonym ('id, 'op) node = "'id \<times> 'op"

record ('g, 'h, 'id, 'op) authority_graphs =
  deps_graph :: 'g
  removals :: "('id, ('id, 'op) removal list) amap"
  delegations :: "('id, ('id, 'op) delegation list) amap"
  graphs :: "('id, 'h) amap"
  cycles :: "('id, 'op set) amap"

definition authority_new :: "'g \<Rightarrow> ('g, 'h, 'id, 'op) authority_graphs" where
  "authority_new g = \<lparr>deps_graph = g, removals = [], delegations = [], graphs = [], cycles = []\<rparr>"

definition add_removal ::
  "'id \<Rightarrow> 'id \<Rightarrow> 'id \<Rightarrow> 'op \<Rightarrow> ('g, 'h, 'id, 'op) authority_graphs \<Rightarrow> ('g, 'h, 'id, 'op) authority_graphs" where
  "add_removal gid remover removed op ag =
     (if remover = removed then ag
      else ag\<lparr>removals := amap_insert gid (amap_get (removals ag) gid @ [(remover, removed, op)]) (removals ag),
              graphs := amap_remove gid (graphs ag),
              cycles := amap_remove gid (cycles ag)\<rparr>)"

definition add_delegation ::
  "'id \<Rightarrow> 'id \<Rightarrow> 'id \<Rightarrow> 'op \<Rightarrow> ('g, 'h, 'id, 'op) authority_graphs \<Rightarrow> ('g, 'h, 'id, 'op) authority_graphs" where
  "add_delegation gid delegator delegate op ag =
     ag\<lparr>delegations := amap_insert gid
           (amap_get (delegations ag) gid @ [(delegator, delegate, op)]) (delegations ag),
        graphs := amap_remove gid (graphs ag),
        cycles := amap_remove gid (cycles ag)\<rparr>"

definition ensure_node ::
  "('h, 'n) digraph_api \<Rightarrow> 'n \<Rightarrow> 'h \<times> ('n, nat) amap \<Rightarrow> ('h \<times> ('n, nat) amap) \<times> nat" where
  "ensure_node D key hn =
     (case hn of (h, nodes) \<Rightarrow>
       (case map_of nodes key of
          Some i \<Rightarrow> ((h, nodes), i)
        | None \<Rightarrow> (case dg_add_node D key h of (h', i) \<Rightarrow> ((h', amap_insert key i nodes), i))))"

definition add_edge_if_missing :: "('h, 'n) digraph_api \<Rightarrow> nat \<Rightarrow> nat \<Rightarrow> 'h \<Rightarrow> 'h" where
  "add_edge_if_missing D i j h = (if \<not> dg_find_edge D h i j then dg_add_edge D i j h else h)"

definition add_pair ::
  "('h, ('id, 'op) node) digraph_api \<Rightarrow> 'id \<times> 'id \<times> 'op \<Rightarrow>
   'h \<times> (('id, 'op) node, nat) amap \<Rightarrow> 'h \<times> (('id, 'op) node, nat) amap" where
  "add_pair D e hn =
     (case e of (from, to, op) \<Rightarrow>
       (case ensure_node D (from, op) hn of (hn, i) \<Rightarrow>
         (case ensure_node D (to, op) hn of ((h, nodes), j) \<Rightarrow>
           (add_edge_if_missing D i j h, nodes))))"

definition link ::
  "('h, 'n) digraph_api \<Rightarrow> ('n, nat) amap \<Rightarrow> 'n \<Rightarrow> 'n \<Rightarrow> 'h option \<Rightarrow> 'h option" where
  "link D nodes a b oh =
     (case oh of None \<Rightarrow> None | Some h \<Rightarrow>
       (case (map_of nodes a, map_of nodes b) of
          (Some i, Some j) \<Rightarrow> Some (add_edge_if_missing D i j h)
        | _ \<Rightarrow> None))"

definition removal_edges ::
  "('g, 'op) graph_api \<Rightarrow> 'g \<Rightarrow> ('h, ('id, 'op) node) digraph_api \<Rightarrow> (('id, 'op) node, nat) amap \<Rightarrow>
   ('id, 'op) removal \<Rightarrow> ('id, 'op) removal \<Rightarrow> 'h option \<Rightarrow> 'h option" where
  "removal_edges G g D nodes r r' oh =
     (case (r, r') of ((remover, removed, op), (remover', removed', op')) \<Rightarrow>
       if \<not> is_concurrent G g op op' then oh
       else (let oh = (if removed = remover' then link D nodes (removed, op) (remover', op') oh else oh)
             in if removed' = remover then link D nodes (removed', op') (remover, op) oh else oh))"

definition delegation_removal_edges ::
  "('g, 'op) graph_api \<Rightarrow> 'g \<Rightarrow> ('h, ('id, 'op) node) digraph_api \<Rightarrow> (('id, 'op) node, nat) amap \<Rightarrow>
   ('id, 'op) delegation \<Rightarrow> ('id, 'op) removal \<Rightarrow> 'h option \<Rightarrow> 'h option" where
  "delegation_removal_edges G g D nodes d r oh =
     (case (d, r) of ((delegator, delegate, op), (remover, removed, op')) \<Rightarrow>
       (let connected = has_path G g op op';
            oh = (if removed = delegator \<and> \<not> connected then link D nodes (removed, op') (delegator, op) oh else oh)
        in if delegate = remover \<and> connected then link D nodes (delegate, op) (remover, op') oh else oh))"

definition delegation_edges ::
  "('g, 'op) graph_api \<Rightarrow> 'g \<Rightarrow> ('h, ('id, 'op) node) digraph_api \<Rightarrow> (('id, 'op) node, nat) amap \<Rightarrow>
   ('id, 'op) delegation \<Rightarrow> ('id, 'op) delegation \<Rightarrow> 'h option \<Rightarrow> 'h option" where
  "delegation_edges G g D nodes d d' oh =
     (case (d, d') of ((delegator, delegate, op), (delegator', _, op')) \<Rightarrow>
       if delegate = delegator' \<and> has_path G g op op'
       then link D nodes (delegate, op) (delegator', op') oh else oh)"

definition build_edges ::
  "('g, 'op) graph_api \<Rightarrow> 'g \<Rightarrow> ('h, ('id, 'op) node) digraph_api \<Rightarrow>
   ('id, 'op) removal list option \<Rightarrow> ('id, 'op) delegation list option \<Rightarrow> 'h option" where
  "build_edges G g D rs ds =
     (let hn = (dg_new D, []);
          hn = (case rs of Some rs \<Rightarrow> fold (add_pair D) rs hn | None \<Rightarrow> hn);
          (h, nodes) = (case ds of Some ds \<Rightarrow> fold (add_pair D) ds hn | None \<Rightarrow> hn);
          oh = (case rs of
                  Some rs \<Rightarrow> fold (\<lambda>r. fold (removal_edges G g D nodes r) rs) rs (Some h)
                | None \<Rightarrow> Some h)
      in case (rs, ds) of
           (Some rs, Some ds) \<Rightarrow>
             fold (\<lambda>d oh. fold (delegation_edges G g D nodes d) ds
                            (fold (delegation_removal_edges G g D nodes d) rs oh)) ds oh
         | _ \<Rightarrow> oh)"

definition build_graph ::
  "('g, 'op) graph_api \<Rightarrow> ('h, ('id, 'op) node) digraph_api \<Rightarrow> 'id \<Rightarrow>
   ('g, 'h, 'id, 'op) authority_graphs \<Rightarrow> ('g, 'h, 'id, 'op) authority_graphs option" where
  "build_graph G D gid ag =
     (let rs = map_of (removals ag) gid; ds = map_of (delegations ag) gid
      in if rs = None \<and> ds = None then Some ag
         else map_option (\<lambda>h. ag\<lparr>graphs := amap_insert gid h (graphs ag)\<rparr>)
                (build_edges G (deps_graph ag) D rs ds))"

definition ops_in_cycles :: "('h, ('id, 'op) node) digraph_api \<Rightarrow> 'h \<Rightarrow> 'op set" where
  "ops_in_cycles D h =
     set (concat (map (\<lambda>scc. if length scc < 2 then [] else map (\<lambda>i. snd (dg_weight D h i)) scc)
       (dg_tarjan_scc D h)))"

definition compute_cycles ::
  "('h, ('id, 'op) node) digraph_api \<Rightarrow> 'id \<Rightarrow> ('g, 'h, 'id, 'op) authority_graphs \<Rightarrow>
   ('g, 'h, 'id, 'op) authority_graphs" where
  "compute_cycles D gid ag =
     (case map_of (graphs ag) gid of
        None \<Rightarrow> ag\<lparr>cycles := amap_insert gid {} (cycles ag)\<rparr>
      | Some h \<Rightarrow> ag\<lparr>cycles := amap_insert gid (ops_in_cycles D h) (cycles ag)\<rparr>)"

definition is_cycle ::
  "('g, 'op) graph_api \<Rightarrow> ('h, ('id, 'op) node) digraph_api \<Rightarrow> 'id \<Rightarrow> 'op \<Rightarrow>
   ('g, 'h, 'id, 'op) authority_graphs \<Rightarrow> (bool \<times> ('g, 'h, 'id, 'op) authority_graphs) option" where
  "is_cycle G D gid target ag =
     map_option (\<lambda>ag. (case map_of (cycles ag) gid of Some s \<Rightarrow> target \<in> s | None \<Rightarrow> False, ag))
       (if map_of (graphs ag) gid = None
        then map_option (compute_cycles D gid) (build_graph G D gid ag)
        else Some ag)"

subsection \<open>What is relied on of the graph library\<close>

definition dg_edges :: "('h, 'n) digraph_api \<Rightarrow> 'h \<Rightarrow> (nat \<times> nat) set" where
  "dg_edges D h = {(i, j). dg_find_edge D h i j}"

definition dg_indices :: "('h, 'n) digraph_api \<Rightarrow> 'h \<Rightarrow> nat set" where
  "dg_indices D h = set (dg_node_indices D h)"

definition digraph_ok :: "('h, 'n) digraph_api \<Rightarrow> bool" where
  "digraph_ok D \<longleftrightarrow>
     dg_indices D (dg_new D) = {} \<and> dg_edges D (dg_new D) = {} \<and>
     (\<forall>n h h' i. dg_add_node D n h = (h', i) \<longrightarrow>
        i \<notin> dg_indices D h \<and> dg_indices D h' = insert i (dg_indices D h) \<and> dg_weight D h' i = n \<and>
        (\<forall>j \<in> dg_indices D h. dg_weight D h' j = dg_weight D h j) \<and> dg_edges D h' = dg_edges D h) \<and>
     (\<forall>i j h. i \<in> dg_indices D h \<longrightarrow> j \<in> dg_indices D h \<longrightarrow>
        dg_indices D (dg_add_edge D i j h) = dg_indices D h \<and>
        dg_weight D (dg_add_edge D i j h) = dg_weight D h \<and>
        dg_edges D (dg_add_edge D i j h) = insert (i, j) (dg_edges D h)) \<and>
     (\<forall>h. (\<forall>scc \<in> set (dg_tarjan_scc D h). distinct scc \<and>
            (\<forall>i \<in> set scc. i \<in> dg_indices D h \<and>
               set scc = {j \<in> dg_indices D h. (i, j) \<in> (dg_edges D h)\<^sup>* \<and> (j, i) \<in> (dg_edges D h)\<^sup>*})) \<and>
          (\<forall>i \<in> dg_indices D h. \<exists>scc \<in> set (dg_tarjan_scc D h). i \<in> set scc))"

lemma digraph_okD:
  assumes "digraph_ok D"
  shows "dg_indices D (dg_new D) = {}" "dg_edges D (dg_new D) = {}"
    "dg_add_node D n h = (h', i) \<Longrightarrow> i \<notin> dg_indices D h"
    "dg_add_node D n h = (h', i) \<Longrightarrow> dg_indices D h' = insert i (dg_indices D h)"
    "dg_add_node D n h = (h', i) \<Longrightarrow> dg_weight D h' i = n"
    "dg_add_node D n h = (h', i) \<Longrightarrow> j \<in> dg_indices D h \<Longrightarrow> dg_weight D h' j = dg_weight D h j"
    "dg_add_node D n h = (h', i) \<Longrightarrow> dg_edges D h' = dg_edges D h"
    "i \<in> dg_indices D h \<Longrightarrow> j \<in> dg_indices D h \<Longrightarrow> dg_indices D (dg_add_edge D i j h) = dg_indices D h"
    "i \<in> dg_indices D h \<Longrightarrow> j \<in> dg_indices D h \<Longrightarrow> dg_weight D (dg_add_edge D i j h) = dg_weight D h"
    "i \<in> dg_indices D h \<Longrightarrow> j \<in> dg_indices D h \<Longrightarrow>
       dg_edges D (dg_add_edge D i j h) = insert (i, j) (dg_edges D h)"
    "scc \<in> set (dg_tarjan_scc D h) \<Longrightarrow> distinct scc"
    "scc \<in> set (dg_tarjan_scc D h) \<Longrightarrow> i \<in> set scc \<Longrightarrow> i \<in> dg_indices D h"
    "scc \<in> set (dg_tarjan_scc D h) \<Longrightarrow> i \<in> set scc \<Longrightarrow>
       set scc = {j \<in> dg_indices D h. (i, j) \<in> (dg_edges D h)\<^sup>* \<and> (j, i) \<in> (dg_edges D h)\<^sup>*}"
    "i \<in> dg_indices D h \<Longrightarrow> \<exists>scc \<in> set (dg_tarjan_scc D h). i \<in> set scc"
  using assms unfolding digraph_ok_def by meson+

subsection \<open>The indexed graph represents a relation on nodes\<close>

definition rep :: "('h, 'n) digraph_api \<Rightarrow> 'h \<Rightarrow> ('n, nat) amap \<Rightarrow> ('n \<times> 'n) set \<Rightarrow> bool" where
  "rep D h nodes E \<longleftrightarrow>
     ran (map_of nodes) = dg_indices D h \<and>
     (\<forall>a i. map_of nodes a = Some i \<longrightarrow> dg_weight D h i = a) \<and>
     dg_edges D h = {(i, j). \<exists>a b. (a, b) \<in> E \<and> map_of nodes a = Some i \<and> map_of nodes b = Some j} \<and>
     E \<subseteq> dom (map_of nodes) \<times> dom (map_of nodes)"

lemma repD:
  assumes "rep D h nodes E"
  shows "ran (map_of nodes) = dg_indices D h"
    "map_of nodes a = Some i \<Longrightarrow> dg_weight D h i = a"
    "map_of nodes a = Some i \<Longrightarrow> i \<in> dg_indices D h"
    "map_of nodes a = Some i \<Longrightarrow> map_of nodes b = Some i \<Longrightarrow> a = b"
    "dg_edges D h = {(i, j). \<exists>a b. (a, b) \<in> E \<and> map_of nodes a = Some i \<and> map_of nodes b = Some j}"
    "(a, b) \<in> E \<Longrightarrow> a \<in> dom (map_of nodes) \<and> b \<in> dom (map_of nodes)"
    "E \<subseteq> dom (map_of nodes) \<times> dom (map_of nodes)"
  using assms unfolding rep_def by (auto intro: ranI, metis)

lemma rep_new: "digraph_ok D \<Longrightarrow> rep D (dg_new D) [] {}"
  by (simp add: rep_def digraph_okD)

lemma rep_ensure_node:
  assumes D: "digraph_ok D" and R: "rep D h nodes E" and e: "ensure_node D key (h, nodes) = ((h', nodes'), i)"
  shows "rep D h' nodes' E \<and> map_of nodes' key = Some i \<and> dom (map_of nodes') = insert key (dom (map_of nodes)) \<and>
         map_of nodes \<subseteq>\<^sub>m map_of nodes'"
proof (cases "map_of nodes key")
  case (Some j)
  then show ?thesis
    using R e by (auto simp: ensure_node_def)
next
  case None
  then have add: "dg_add_node D key h = (h', i)" and n': "nodes' = amap_insert key i nodes"
    using e by (auto simp: ensure_node_def split: prod.splits)
  note d = digraph_okD[OF D] and r = repD[OF R]
  have m: "map_of nodes' = (map_of nodes)(key \<mapsto> i)"
    using n' by simp
  have ran: "ran (map_of nodes') = dg_indices D h'"
    using None r(1) d(4)[OF add] by (simp add: m ran_map_upd)
  have w: "dg_weight D h' j = a" if "map_of nodes' a = Some j" for a j
    using that d(5,6)[OF add] r(2,3)[of a j] by (auto simp: m split: if_splits)
  have edges: "dg_edges D h' =
      {(i, j). \<exists>a b. (a, b) \<in> E \<and> map_of nodes' a = Some i \<and> map_of nodes' b = Some j}"
  proof -
    have "map_of nodes' a = map_of nodes a \<and> map_of nodes' b = map_of nodes b" if "(a, b) \<in> E" for a b
      using r(6)[OF that] None by (auto simp: m)
    then show ?thesis
      unfolding d(7)[OF add] r(5) by fastforce
  qed
  have "E \<subseteq> dom (map_of nodes') \<times> dom (map_of nodes')"
    using r(6) by (auto simp: m)
  then have "rep D h' nodes' E"
    unfolding rep_def using ran w edges by blast
  moreover have "map_of nodes \<subseteq>\<^sub>m map_of nodes'"
    using None by (auto simp: m map_le_def)
  ultimately show ?thesis
    using m by simp
qed

lemma rep_add_edge:
  assumes D: "digraph_ok D" and R: "rep D h nodes E"
    and ij: "map_of nodes a = Some i" "map_of nodes b = Some j"
  shows "rep D (add_edge_if_missing D i j h) nodes (insert (a, b) E)"
proof -
  note r = repD[OF R]
  let ?h = "add_edge_if_missing D i j h"
  have idx: "i \<in> dg_indices D h" "j \<in> dg_indices D h"
    using r(3) ij by blast+
  note d = digraph_okD(8,9,10)[OF D idx]
  have same: "dg_indices D ?h = dg_indices D h" "dg_weight D ?h = dg_weight D h"
    "dg_edges D ?h = insert (i, j) (dg_edges D h)"
    using d by (auto simp: add_edge_if_missing_def dg_edges_def)
  have "insert (i, j) (dg_edges D h) =
      {(k, l). \<exists>x y. (x, y) \<in> insert (a, b) E \<and> map_of nodes x = Some k \<and> map_of nodes y = Some l}"
    unfolding r(5) using ij by auto
  then show ?thesis
    unfolding rep_def same using r(1,2) r(7) ij by (simp add: domI)
qed

lemma rep_add_pair:
  assumes D: "digraph_ok D" and R: "rep D h nodes E" and e: "add_pair D (a, b, op) (h, nodes) = (h', nodes')"
  shows "rep D h' nodes' (insert ((a, op), (b, op)) E) \<and>
         dom (map_of nodes') = {(a, op), (b, op)} \<union> dom (map_of nodes)"
proof -
  obtain h1 n1 i where 1: "ensure_node D (a, op) (h, nodes) = ((h1, n1), i)"
    by (cases "ensure_node D (a, op) (h, nodes)") auto
  obtain h2 n2 j where 2: "ensure_node D (b, op) (h1, n1) = ((h2, n2), j)"
    by (cases "ensure_node D (b, op) (h1, n1)") auto
  have h': "h' = add_edge_if_missing D i j h2" "nodes' = n2"
    using e 1 2 by (auto simp: add_pair_def)
  note R1 = rep_ensure_node[OF D R 1]
  note R2 = rep_ensure_node[OF D R1[THEN conjunct1] 2]
  have "map_of n2 (a, op) = Some i"
    using R1 R2 by (metis domI map_le_def)
  then show ?thesis
    using rep_add_edge[OF D R2[THEN conjunct1], of "(a, op)" i "(b, op)" j] R1 R2 h' by auto
qed

lemma rep_add_pairs:
  assumes D: "digraph_ok D" and R: "rep D h nodes E" and e: "fold (add_pair D) xs (h, nodes) = (h', nodes')"
  shows "rep D h' nodes' ((\<lambda>(a, b, op). ((a, op), (b, op))) ` set xs \<union> E) \<and>
         dom (map_of nodes') = (\<Union>(a, b, op) \<in> set xs. {(a, op), (b, op)}) \<union> dom (map_of nodes)"
  using R e
proof (induction xs arbitrary: h nodes E)
  case (Cons x xs)
  obtain a b op where x: "x = (a, b, op)"
    by (cases x)
  obtain h1 n1 where 1: "add_pair D (a, b, op) (h, nodes) = (h1, n1)"
    by (cases "add_pair D (a, b, op) (h, nodes)")
  note R1 = rep_add_pair[OF D Cons.prems(1) 1]
  have "fold (add_pair D) xs (h1, n1) = (h', nodes')"
    using Cons.prems(2) 1 x by simp
  note IH = Cons.IH[OF R1[THEN conjunct1] this]
  show ?case
    using IH R1 x by auto
qed simp

definition repo :: "('h, 'n) digraph_api \<Rightarrow> 'h option \<Rightarrow> ('n, nat) amap \<Rightarrow> ('n \<times> 'n) set \<Rightarrow> bool" where
  "repo D oh nodes E \<longleftrightarrow> (\<exists>h. oh = Some h \<and> rep D h nodes E)"

lemma repo_link:
  assumes "digraph_ok D" "repo D oh nodes E" "a \<in> dom (map_of nodes)" "b \<in> dom (map_of nodes)"
  shows "repo D (link D nodes a b oh) nodes (insert (a, b) E)"
  using assms rep_add_edge[OF assms(1)] by (auto simp: repo_def link_def)

lemma repo_fold:
  assumes "\<And>x oh E. x \<in> set xs \<Longrightarrow> repo D oh nodes E \<Longrightarrow> repo D (f x oh) nodes (F x \<union> E)"
    and "repo D oh nodes E"
  shows "repo D (fold f xs oh) nodes ((\<Union>x \<in> set xs. F x) \<union> E)"
  using assms
proof (induction xs arbitrary: oh E)
  case (Cons x xs)
  have "repo D (fold f xs (f x oh)) nodes ((\<Union>x \<in> set xs. F x) \<union> (F x \<union> E))"
    using Cons.prems by (intro Cons.IH) simp_all
  then show ?case
    by (simp add: Un_assoc Un_left_commute)
qed simp

subsection \<open>The authority relation\<close>

text \<open>The relation between (actor, operation) pairs that the graph is meant to hold: the actor of every
  removal and delegation is tied to its target; a removed actor to its own concurrent removals; a
  removed actor to its delegations unless the removal came after them; a delegate to its later
  removals and delegations.\<close>

definition acts :: "('id \<times> 'id \<times> 'op) set \<Rightarrow> (('id, 'op) node \<times> ('id, 'op) node) set" where
  "acts X = (\<lambda>(a, b, op). ((a, op), (b, op))) ` X"

definition counter_removals ::
  "('op \<Rightarrow> 'op \<Rightarrow> bool) \<Rightarrow> ('id, 'op) removal set \<Rightarrow> (('id, 'op) node \<times> ('id, 'op) node) set" where
  "counter_removals co R =
     {((b, p), (b, q)) | a b p c q. (a, b, p) \<in> R \<and> (b, c, q) \<in> R \<and> co p q}"

definition delegation_links ::
  "('op \<Rightarrow> 'op \<Rightarrow> bool) \<Rightarrow> ('id, 'op) removal set \<Rightarrow> ('id, 'op) delegation set \<Rightarrow>
   (('id, 'op) node \<times> ('id, 'op) node) set" where
  "delegation_links path R S =
     {((b, q), (b, p)) | a b c p q. (b, c, p) \<in> S \<and> (a, b, q) \<in> R \<and> \<not> path p q} \<union>
     {((b, p), (b, q)) | a b c p q. (a, b, p) \<in> S \<and> (b, c, q) \<in> R \<and> path p q} \<union>
     {((b, p), (b, q)) | a b c p q. (a, b, p) \<in> S \<and> (b, c, q) \<in> S \<and> path p q}"

definition authority ::
  "('g, 'op) graph_api \<Rightarrow> 'g \<Rightarrow> ('id, 'op) removal list option \<Rightarrow> ('id, 'op) delegation list option \<Rightarrow>
   (('id, 'op) node \<times> ('id, 'op) node) set" where
  "authority G g rs ds =
     (let R = (case rs of None \<Rightarrow> {} | Some xs \<Rightarrow> set xs); S = (case ds of None \<Rightarrow> {} | Some xs \<Rightarrow> set xs)
      in acts R \<union> acts S \<union> counter_removals (is_concurrent G g) R \<union>
         (if rs = None \<or> ds = None then {} else delegation_links (has_path G g) R S))"

lemma is_concurrent_sym: "is_concurrent G g a b \<longleftrightarrow> is_concurrent G g b a"
  by (auto simp: is_concurrent_def)

definition r_edges where
  "r_edges co r r' =
     (case (r, r') of ((a, b, p), (c, d, q)) \<Rightarrow>
       if co p q then {x. x = ((b, p), (c, q)) \<and> b = c \<or> x = ((d, q), (a, p)) \<and> d = a} else {})"

definition dr_edges where
  "dr_edges path d r =
     (case (d, r) of ((a, b, p), (c, e, q)) \<Rightarrow>
       {x. x = ((e, q), (a, p)) \<and> e = a \<and> \<not> path p q \<or> x = ((b, p), (c, q)) \<and> b = c \<and> path p q})"

definition dd_edges where
  "dd_edges path d d' =
     (case (d, d') of ((a, b, p), (c, e, q)) \<Rightarrow> {x. x = ((b, p), (c, q)) \<and> b = c \<and> path p q})"

definition covers :: "(('id, 'op) node, nat) amap \<Rightarrow> ('id \<times> 'id \<times> 'op) set \<Rightarrow> bool" where
  "covers nodes X \<longleftrightarrow> (\<forall>(a, b, p) \<in> X. (a, p) \<in> dom (map_of nodes) \<and> (b, p) \<in> dom (map_of nodes))"

lemma repo_removal_edges:
  assumes "digraph_ok D" "covers nodes {r, r'}" "repo D oh nodes E"
  shows "repo D (removal_edges G g D nodes r r' oh) nodes (r_edges (is_concurrent G g) r r' \<union> E)"
proof -
  obtain a b p c d q where [simp]: "r = (a, b, p)" "r' = (c, d, q)"
    by (cases r; cases r')
  have dom: "(a, p) \<in> dom (map_of nodes)" "(b, p) \<in> dom (map_of nodes)"
    "(c, q) \<in> dom (map_of nodes)" "(d, q) \<in> dom (map_of nodes)"
    using assms(2) by (auto simp: covers_def)
  note l1 = repo_link[OF assms(1,3) dom(2) dom(3)] and l2 = repo_link[OF assms(1,3) dom(4) dom(1)]
  note l12 = repo_link[OF assms(1) l1 dom(4) dom(1)]
  show ?thesis
  proof (cases "is_concurrent G g p q")
    case True
    have eq: "r_edges (is_concurrent G g) r r' \<union> E =
        (if d = a then {((d, q), (a, p))} else {}) \<union> ((if b = c then {((b, p), (c, q))} else {}) \<union> E)"
      using True by (auto simp: r_edges_def)
    show ?thesis
      unfolding eq using True l1 l2 l12 assms(3) by (auto simp: removal_edges_def Let_def)
  next
    case False
    then show ?thesis
      using assms(3) by (simp add: removal_edges_def r_edges_def)
  qed
qed

lemma repo_delegation_removal_edges:
  assumes "digraph_ok D" "covers nodes {d, r}" "repo D oh nodes E"
  shows "repo D (delegation_removal_edges G g D nodes d r oh) nodes (dr_edges (has_path G g) d r \<union> E)"
proof -
  obtain a b p c e q where [simp]: "d = (a, b, p)" "r = (c, e, q)"
    by (cases d; cases r)
  have dom: "(a, p) \<in> dom (map_of nodes)" "(b, p) \<in> dom (map_of nodes)"
    "(c, q) \<in> dom (map_of nodes)" "(e, q) \<in> dom (map_of nodes)"
    using assms(2) by (auto simp: covers_def)
  note l1 = repo_link[OF assms(1,3) dom(4) dom(1)] and l2 = repo_link[OF assms(1,3) dom(2) dom(3)]
  have eq: "dr_edges (has_path G g) d r \<union> E =
      (if b = c \<and> has_path G g p q then {((b, p), (c, q))} else {}) \<union>
      ((if e = a \<and> \<not> has_path G g p q then {((e, q), (a, p))} else {}) \<union> E)"
    by (auto simp: dr_edges_def)
  show ?thesis
    unfolding eq using l1 l2 assms(3) by (auto simp: delegation_removal_edges_def Let_def)
qed

lemma repo_delegation_edges:
  assumes "digraph_ok D" "covers nodes {d, d'}" "repo D oh nodes E"
  shows "repo D (delegation_edges G g D nodes d d' oh) nodes (dd_edges (has_path G g) d d' \<union> E)"
proof -
  obtain a b p c e q where [simp]: "d = (a, b, p)" "d' = (c, e, q)"
    by (cases d; cases d')
  have dom: "(b, p) \<in> dom (map_of nodes)" "(c, q) \<in> dom (map_of nodes)"
    using assms(2) by (auto simp: covers_def)
  show ?thesis
    using repo_link[OF assms(1,3) dom] assms(3) by (auto simp: delegation_edges_def dd_edges_def)
qed

lemma union_r_edges:
  "(\<And>p q. co p q = co q p) \<Longrightarrow> (\<Union>r \<in> R. \<Union>r' \<in> R. r_edges co r r') = counter_removals co R"
  by (fastforce simp: r_edges_def counter_removals_def split: if_splits)

lemma union_delegation_edges:
  "(\<Union>d \<in> S. (\<Union>d' \<in> S. dd_edges path d d') \<union> (\<Union>r \<in> R. dr_edges path d r)) = delegation_links path R S"
  by (fastforce simp: dr_edges_def dd_edges_def delegation_links_def)

lemma build_edges_authority:
  assumes D: "digraph_ok D"
  shows "\<exists>h nodes. build_edges G g D rs ds = Some h \<and> rep D h nodes (authority G g rs ds)"
proof -
  define R where "R = (case rs of None \<Rightarrow> [] | Some xs \<Rightarrow> xs)"
  define S where "S = (case ds of None \<Rightarrow> [] | Some xs \<Rightarrow> xs)"
  obtain h1 n1 where 1: "fold (add_pair D) R (dg_new D, []) = (h1, n1)"
    by (cases "fold (add_pair D) R (dg_new D, [])")
  obtain h nodes where 2: "fold (add_pair D) S (h1, n1) = (h, nodes)"
    by (cases "fold (add_pair D) S (h1, n1)")
  note P1 = rep_add_pairs[OF D rep_new[OF D] 1]
  note P2 = rep_add_pairs[OF D P1[THEN conjunct1] 2]
  have "repo D (Some h) nodes (acts (set S) \<union> acts (set R))"
    using P2 by (simp add: repo_def acts_def)
  moreover have dom: "covers nodes (set R)" "covers nodes (set S)"
    using P1 P2 by (fastforce simp: covers_def)+
  ultimately have 3: "repo D (fold (\<lambda>r. fold (removal_edges G g D nodes r) R) R (Some h)) nodes
      (counter_removals (is_concurrent G g) (set R) \<union> (acts (set S) \<union> acts (set R)))"
    unfolding union_r_edges[OF is_concurrent_sym, symmetric]
    by (intro repo_fold repo_removal_edges[OF D]) (auto simp: covers_def)
  have 4: "repo D (fold (\<lambda>d oh. fold (delegation_edges G g D nodes d) S
        (fold (delegation_removal_edges G g D nodes d) R oh)) S oh) nodes
      (delegation_links (has_path G g) (set R) (set S) \<union> E)" if "repo D oh nodes E" for oh E
    unfolding union_delegation_edges[symmetric] Un_assoc
    using dom that
    by (intro repo_fold repo_delegation_edges[OF D] repo_delegation_removal_edges[OF D])
       (auto simp: covers_def Un_assoc intro!: repo_fold repo_delegation_edges[OF D]
          repo_delegation_removal_edges[OF D])
  have "repo D (build_edges G g D rs ds) nodes (authority G g rs ds)"
    using 1 2 3 4[OF 3]
    by (cases rs; cases ds)
       (simp_all add: build_edges_def authority_def R_def S_def Let_def counter_removals_def acts_def Un_ac)
  then show ?thesis
    by (auto simp: repo_def)
qed

subsection \<open>Cycles\<close>

definition cyclic_ops :: "(('id, 'op) node \<times> ('id, 'op) node) set \<Rightarrow> 'op set" where
  "cyclic_ops E = {op. \<exists>i b. (i, op) \<noteq> b \<and> ((i, op), b) \<in> E\<^sup>* \<and> (b, (i, op)) \<in> E\<^sup>*}"

lemma rep_rtrancl_down:
  assumes "rep D h nodes E" "(i, j) \<in> (dg_edges D h)\<^sup>*" "map_of nodes a = Some i"
  shows "\<exists>b. map_of nodes b = Some j \<and> (a, b) \<in> E\<^sup>*"
  using assms(2,3)
proof (induction rule: rtrancl_induct)
  case (step j k)
  then obtain b where b: "map_of nodes b = Some j" "(a, b) \<in> E\<^sup>*"
    by blast
  obtain b' c where "(b', c) \<in> E" "map_of nodes b' = Some j" "map_of nodes c = Some k"
    using step.hyps(2) unfolding repD(5)[OF assms(1)] by blast
  moreover have "b' = b"
    using calculation(2) b(1) by (rule repD(4)[OF assms(1)])
  ultimately show ?case
    using b(2) by (auto intro: rtrancl_into_rtrancl)
qed blast

lemma rep_rtrancl_up:
  assumes "rep D h nodes E" "(a, b) \<in> E\<^sup>*" "map_of nodes a = Some i"
  shows "\<exists>j. map_of nodes b = Some j \<and> (i, j) \<in> (dg_edges D h)\<^sup>*"
  using assms(2,3)
proof (induction rule: rtrancl_induct)
  case (step b c)
  then obtain j where j: "map_of nodes b = Some j" "(i, j) \<in> (dg_edges D h)\<^sup>*"
    by blast
  obtain k where k: "map_of nodes c = Some k"
    using repD(6)[OF assms(1) step.hyps(2)] by blast
  have "(j, k) \<in> dg_edges D h"
    unfolding repD(5)[OF assms(1)] using step.hyps(2) j(1) k by blast
  then show ?case
    using j(2) k by (auto intro: rtrancl_into_rtrancl)
qed blast

lemma rep_rtrancl:
  assumes "rep D h nodes E" "map_of nodes a = Some i" "map_of nodes b = Some j"
  shows "(i, j) \<in> (dg_edges D h)\<^sup>* \<longleftrightarrow> (a, b) \<in> E\<^sup>*"
proof
  assume "(i, j) \<in> (dg_edges D h)\<^sup>*"
  then obtain c where "map_of nodes c = Some j" "(a, c) \<in> E\<^sup>*"
    using rep_rtrancl_down[OF assms(1) _ assms(2)] by blast
  then show "(a, b) \<in> E\<^sup>*"
    using repD(4)[OF assms(1) _ assms(3), of c] by simp
next
  assume "(a, b) \<in> E\<^sup>*"
  then show "(i, j) \<in> (dg_edges D h)\<^sup>*"
    using rep_rtrancl_up[OF assms(1) _ assms(2), of b] assms(3) by auto
qed

lemma ops_in_cycles_exact:
  assumes D: "digraph_ok D" and R: "rep D h nodes E"
  shows "ops_in_cycles D h = cyclic_ops E"
proof (rule set_eqI)
  fix op
  have idx: "\<exists>a. map_of nodes a = Some i \<and> dg_weight D h i = a" if "i \<in> dg_indices D h" for i
  proof -
    obtain a where a: "map_of nodes a = Some i"
      using \<open>i \<in> dg_indices D h\<close> unfolding repD(1)[OF R, symmetric] ran_def by blast
    show ?thesis
      using a repD(2)[OF R a] by blast
  qed
  show "op \<in> ops_in_cycles D h \<longleftrightarrow> op \<in> cyclic_ops E"
  proof
    assume "op \<in> ops_in_cycles D h"
    then obtain scc i where scc: "scc \<in> set (dg_tarjan_scc D h)" "\<not> length scc < 2" "i \<in> set scc"
        "op = snd (dg_weight D h i)"
      by (auto simp: ops_in_cycles_def split: if_splits)
    have "1 < card (set scc)"
      using scc(2) distinct_card[OF digraph_okD(11)[OF D scc(1)]] by simp
    then obtain j where j: "j \<in> set scc" "j \<noteq> i"
      by (metis card_le_Suc0_iff_eq List.finite_set not_le One_nat_def scc(3))
    have ij: "(i, j) \<in> (dg_edges D h)\<^sup>*" "(j, i) \<in> (dg_edges D h)\<^sup>*"
      using j(1) digraph_okD(13)[OF D scc(1,3)] by blast+
    obtain a b where a: "map_of nodes a = Some i" "dg_weight D h i = a" "map_of nodes b = Some j"
      using idx digraph_okD(12)[OF D scc(1)] scc(3) j(1) by metis
    then have "a \<noteq> b" "(a, b) \<in> E\<^sup>*" "(b, a) \<in> E\<^sup>*"
      using j(2) ij rep_rtrancl[OF R] by auto
    then show "op \<in> cyclic_ops E"
      using a(2) scc(4) unfolding cyclic_ops_def mem_Collect_eq by (metis prod.collapse)
  next
    assume "op \<in> cyclic_ops E"
    then obtain k b where ab: "(k, op) \<noteq> b" "((k, op), b) \<in> E\<^sup>*" "(b, (k, op)) \<in> E\<^sup>*"
      by (auto simp: cyclic_ops_def)
    then obtain c where "((k, op), c) \<in> E"
      by (metis converse_rtranclE)
    then obtain i where i: "map_of nodes (k, op) = Some i"
      using repD(6)[OF R] by blast
    then obtain j where j: "map_of nodes b = Some j"
      using rep_rtrancl_up[OF R ab(2)] by blast
    have ij: "(i, j) \<in> (dg_edges D h)\<^sup>*" "(j, i) \<in> (dg_edges D h)\<^sup>*" "j \<noteq> i"
      using ab rep_rtrancl[OF R] i j repD(4)[OF R i, of b] by auto
    obtain scc where scc: "scc \<in> set (dg_tarjan_scc D h)" "i \<in> set scc"
      using digraph_okD(14)[OF D repD(3)[OF R i]] by blast
    then have "j \<in> set scc"
      using digraph_okD(13)[OF D scc] ij repD(3)[OF R j] by blast
    then have "\<not> length scc < 2"
      using scc(2) ij(3) by (cases scc rule: remdups_adj.cases) auto
    then show "op \<in> ops_in_cycles D h"
      using scc repD(2)[OF R i] by (force simp: ops_in_cycles_def)
  qed
qed

subsection \<open>The cache of cycles is sound\<close>

definition group_authority ::
  "('g, 'op) graph_api \<Rightarrow> ('g, 'h, 'id, 'op) authority_graphs \<Rightarrow> 'id \<Rightarrow>
   (('id, 'op) node \<times> ('id, 'op) node) set" where
  "group_authority G ag gid =
     authority G (deps_graph ag) (map_of (removals ag) gid) (map_of (delegations ag) gid)"

definition cache_ok :: "('g, 'op) graph_api \<Rightarrow> ('g, 'h, 'id, 'op) authority_graphs \<Rightarrow> bool" where
  "cache_ok G ag \<longleftrightarrow>
     (\<forall>gid. map_of (graphs ag) gid \<noteq> None \<longrightarrow>
        map_of (cycles ag) gid = Some (cyclic_ops (group_authority G ag gid)))"

lemma cache_ok_new: "cache_ok G (authority_new g)"
  by (simp add: cache_ok_def authority_new_def)

lemma cache_ok_add_removal: "cache_ok G ag \<Longrightarrow> cache_ok G (add_removal gid a b op ag)"
  by (auto simp: cache_ok_def add_removal_def group_authority_def)

lemma cache_ok_add_delegation: "cache_ok G ag \<Longrightarrow> cache_ok G (add_delegation gid a b op ag)"
  by (auto simp: cache_ok_def add_delegation_def group_authority_def)

lemma cyclic_ops_empty: "cyclic_ops {} = {}"
  by (simp add: cyclic_ops_def)

lemma is_cycle_sound:
  assumes D: "digraph_ok D" and ok: "cache_ok G ag"
  shows "\<exists>ag'. is_cycle G D gid op ag = Some (op \<in> cyclic_ops (group_authority G ag gid), ag') \<and>
           cache_ok G ag' \<and> removals ag' = removals ag \<and> delegations ag' = delegations ag \<and>
           deps_graph ag' = deps_graph ag"
proof (cases "map_of (graphs ag) gid")
  case None
  let ?rs = "map_of (removals ag) gid" and ?ds = "map_of (delegations ag) gid"
  show ?thesis
  proof (cases "?rs = None \<and> ?ds = None")
    case True
    then have "group_authority G ag gid = {}"
      by (simp add: group_authority_def authority_def acts_def counter_removals_def)
    then show ?thesis
      using None True ok
      by (auto simp: is_cycle_def build_graph_def compute_cycles_def cyclic_ops_empty cache_ok_def
          group_authority_def Let_def)
  next
    case False
    obtain h nodes where h: "build_edges G (deps_graph ag) D ?rs ?ds = Some h"
        "rep D h nodes (authority G (deps_graph ag) ?rs ?ds)"
      using build_edges_authority[OF D, of G "deps_graph ag" ?rs ?ds] by blast
    note ops = ops_in_cycles_exact[OF D h(2)]
    show ?thesis
      using None False h(1) ops ok
      by (auto simp: is_cycle_def build_graph_def compute_cycles_def cache_ok_def group_authority_def Let_def)
  qed
next
  case (Some h)
  then show ?thesis
    using ok by (auto simp: is_cycle_def cache_ok_def)
qed

subsection \<open>Indexed graphs as lists\<close>

type_synonym 'n list_digraph = "'n list \<times> (nat \<times> nat) list"

definition list_digraph :: "('n list_digraph, 'n) digraph_api" where
  "list_digraph =
     \<lparr>dg_new = ([], []),
      dg_add_node = \<lambda>n h. ((fst h @ [n], snd h), length (fst h)),
      dg_add_edge = \<lambda>i j h. (fst h, (i, j) # snd h),
      dg_find_edge = \<lambda>h i j. (i, j) \<in> set (snd h),
      dg_node_indices = \<lambda>h. [0..<length (fst h)],
      dg_weight = \<lambda>h i. fst h ! i,
      dg_tarjan_scc = \<lambda>h.
        map (\<lambda>i. filter (\<lambda>j. (i, j) \<in> (set (snd h))\<^sup>* \<and> (j, i) \<in> (set (snd h))\<^sup>*) [0..<length (fst h)])
          [0..<length (fst h)]\<rparr>"

lemma digraph_ok_list_digraph: "digraph_ok list_digraph"
  unfolding digraph_ok_def
proof (intro conjI allI impI ballI)
  fix h :: "'n list_digraph" and scc i
  assume scc: "scc \<in> set (dg_tarjan_scc list_digraph h)"
  then obtain k where k: "k < length (fst h)"
      "scc = filter (\<lambda>j. (k, j) \<in> (set (snd h))\<^sup>* \<and> (j, k) \<in> (set (snd h))\<^sup>*) [0..<length (fst h)]"
    by (auto simp: list_digraph_def)
  then show "distinct scc"
    by simp
  assume i: "i \<in> set scc"
  then show "i \<in> dg_indices list_digraph h"
    using k by (simp add: dg_indices_def list_digraph_def)
  have "(k, i) \<in> (set (snd h))\<^sup>*" "(i, k) \<in> (set (snd h))\<^sup>*"
    using i k by auto
  then have "(k, j) \<in> (set (snd h))\<^sup>* \<longleftrightarrow> (i, j) \<in> (set (snd h))\<^sup>*"
    "(j, k) \<in> (set (snd h))\<^sup>* \<longleftrightarrow> (j, i) \<in> (set (snd h))\<^sup>*" for j
    by (meson rtrancl_trans)+
  then show "set scc = {j \<in> dg_indices list_digraph h.
      (i, j) \<in> (dg_edges list_digraph h)\<^sup>* \<and> (j, i) \<in> (dg_edges list_digraph h)\<^sup>*}"
    using k(2) by (auto simp: dg_indices_def dg_edges_def list_digraph_def)
qed (auto simp: dg_indices_def dg_edges_def list_digraph_def nth_append)


definition example_authority :: "(nat list_graph, (nat \<times> nat) list_digraph, nat, nat) authority_graphs" where
  "example_authority = add_removal 0 2 1 9 (add_removal 0 1 2 8 (authority_new ([8, 9], [])))"

lemma example_authority_cyclic: "8 \<in> cyclic_ops (group_authority list_graph example_authority 0)"
proof -
  let ?E = "group_authority list_graph example_authority 0"
  have "is_concurrent list_graph ([8, 9], []) 8 (9 :: nat)" "is_concurrent list_graph ([8, 9], []) 9 (8 :: nat)"
    by (simp_all add: is_concurrent_def has_path_def list_graph_def lg_edges_def)
  then have e: "((1, 8), (2, 8)) \<in> ?E" "((2, 8), (2, 9)) \<in> ?E" "((2, 9), (1, 9)) \<in> ?E" "((1, 9), (1, 8)) \<in> ?E"
    by (auto simp: group_authority_def example_authority_def add_removal_def authority_new_def authority_def
        acts_def counter_removals_def amap_get_def)
  have "((1, 8), (2, 8)) \<in> ?E\<^sup>*"
    using e(1) by (rule r_into_rtrancl)
  moreover have "((2, 8), (1, 8)) \<in> ?E\<^sup>*"
    by (rule converse_rtrancl_into_rtrancl[OF e(2) converse_rtrancl_into_rtrancl[OF e(3) r_into_rtrancl[OF e(4)]]])
  ultimately have "(1, 8) \<noteq> (2 :: nat, 8 :: nat) \<and> ((1, 8), (2, 8)) \<in> ?E\<^sup>* \<and> ((2, 8), (1, 8)) \<in> ?E\<^sup>*"
    by simp
  then show ?thesis
    unfolding cyclic_ops_def mem_Collect_eq by (intro exI)
qed


end
