(* ===== verification/Auth_Resolver.thy ===== *)
theory Auth_Resolver
  imports Auth_Groups Auth_Authority
begin

section \<open>Strong-remove resolver and the group CRDT\<close>

text \<open>
  \<open>p2panda-auth/src/group/resolver.rs\<close> and the parts of \<open>group/crdt/mod.rs\<close> that work on the
  operation graph. The operation type is generic in the code; the record \<open>auth_operation\<close> holds what
  the trait \<open>Operation\<close> returns. The graph libraries are the arguments \<open>G\<close> and \<open>D\<close> and the order on
  conditions is \<open>pc\<close>. In the resolver \<open>None\<close> is a panic; in the CRDT a panic is the error
  \<open>Panicked\<close>.
\<close>

record ('id, 'op, 'c) auth_operation =
  ao_id :: 'op
  ao_author :: 'id
  ao_dependencies :: "'op list"
  ao_group :: 'id
  ao_action :: "('id, 'c) group_action"

definition ao_required_groups :: "('id, 'op, 'c) auth_operation \<Rightarrow> 'id list" where
  "ao_required_groups o1 = required_groups (ao_action o1) @ [ao_group o1]"

record ('g, 'id, 'op, 'c) inner_state =
  operations :: "('op, ('id, 'op, 'c) auth_operation) amap"
  ignore :: "'op set"
  mutual_removes :: "'op set"
  states :: "('op, ('id, 'c) group_states) amap"
  graph :: 'g

definition inner_default :: "('g, 'op) graph_api \<Rightarrow> ('g, 'id, 'op, 'c) inner_state" where
  "inner_default G = \<lparr>operations = [], ignore = {}, mutual_removes = {}, states = [], graph = g_empty G\<rparr>"

definition heads_global :: "('g, 'op) graph_api \<Rightarrow> ('g, 'id, 'op, 'c) inner_state \<Rightarrow> 'op list" where
  "heads_global G y = g_externals G (graph y)"

definition state_at ::
  "'c cond_cmp \<Rightarrow> ('g, 'id, 'op, 'c) inner_state \<Rightarrow> 'op list \<Rightarrow> 'op list + ('id, 'c) group_states" where
  "state_at pc y deps = merge_states pc (states y) (remdups deps)"

definition current_state ::
  "('g, 'op) graph_api \<Rightarrow> 'c cond_cmp \<Rightarrow> ('g, 'id, 'op, 'c) inner_state \<Rightarrow> ('id, 'c) group_states option" where
  "current_state G pc y =
     (case merge_states pc (states y) (heads_global G y) of Inr s \<Rightarrow> Some s | Inl _ \<Rightarrow> None)"

definition filtered_graph ::
  "('g, 'op) graph_api \<Rightarrow> 'c cond_cmp \<Rightarrow> ('g, 'id, 'op, 'c) inner_state \<Rightarrow> 'id list \<Rightarrow> 'g option" where
  "filtered_graph G pc y gs =
     (case current_state G pc y of
        None \<Rightarrow> if gs = [] then Some (fold (\<lambda>(i, _). g_remove_node G i) (operations y) (graph y)) else None
      | Some Y \<Rightarrow>
          (let deps = set (concat (map (\<lambda>g. g # map fst (groups pc Y g)) gs))
           in Some (fold (\<lambda>(i, o1) g. if ao_group o1 \<notin> deps then g_remove_node G i g else g)
                     (operations y) (graph y))))"

definition heads ::
  "('g, 'op) graph_api \<Rightarrow> 'c cond_cmp \<Rightarrow> ('g, 'id, 'op, 'c) inner_state \<Rightarrow> 'id list \<Rightarrow> 'op list option" where
  "heads G pc y gs = map_option (g_externals G) (filtered_graph G pc y gs)"

definition trimmed_graph ::
  "('g, 'op) graph_api \<Rightarrow> ('g, 'id, 'op, 'c) inner_state \<Rightarrow> 'op list \<Rightarrow> 'g" where
  "trimmed_graph G y hs =
     (let predecessors = set (concat (map (g_dfs_reversed G (graph y)) hs));
          to_remove = filter (\<lambda>n. n \<notin> predecessors) (g_nodes G (graph y))
      in fold (g_remove_node G) to_remove (graph y))"

subsection \<open>The resolver\<close>

definition removed_or_demoted_manager :: "('id, 'op, 'c) auth_operation \<Rightarrow> 'id option" where
  "removed_or_demoted_manager o1 =
     (case ao_action o1 of
        Remove m \<Rightarrow> Some (member_id m)
      | Demote m acc \<Rightarrow> if \<not> is_manage acc then Some (member_id m) else None
      | _ \<Rightarrow> None)"

definition added_or_promoted_manager :: "('id, 'op, 'c) auth_operation \<Rightarrow> 'id option" where
  "added_or_promoted_manager o1 =
     (case ao_action o1 of
        Add m acc \<Rightarrow> if is_manage acc then Some (member_id m) else None
      | Promote m acc \<Rightarrow> if is_manage acc then Some (member_id m) else None
      | _ \<Rightarrow> None)"

definition rebuild_required ::
  "('g, 'op) graph_api \<Rightarrow> 'c cond_cmp \<Rightarrow> ('g, 'id, 'op, 'c) inner_state \<Rightarrow> ('id, 'op, 'c) auth_operation \<Rightarrow>
   bool option" where
  "rebuild_required G pc y o1 =
     map_option (\<lambda>hs. set hs \<noteq> set (ao_dependencies o1)) (heads G pc y (ao_required_groups o1))"

definition is_readd :: "'id \<Rightarrow> 'id \<Rightarrow> ('id, 'op, 'c) auth_operation \<Rightarrow> bool" where
  "is_readd gid removed o1 =
     (gid = ao_group o1 \<and> (case ao_action o1 of Add m _ \<Rightarrow> member_id m = removed | _ \<Rightarrow> False))"

definition is_removed :: "'id \<Rightarrow> 'id \<Rightarrow> ('id, 'op, 'c) auth_operation \<Rightarrow> bool" where
  "is_removed gid removed o1 = (gid = ao_group o1 \<and> ao_author o1 = removed)"

definition is_mutual_remove ::
  "('g, 'op) graph_api \<Rightarrow> ('h, ('id, 'op) node) digraph_api \<Rightarrow> ('id, 'op, 'c) auth_operation \<Rightarrow>
   ('g, 'h, 'id, 'op) authority_graphs \<Rightarrow> (bool \<times> ('g, 'h, 'id, 'op) authority_graphs) option" where
  "is_mutual_remove G D o1 ag =
     (if removed_or_demoted_manager o1 = None \<and> added_or_promoted_manager o1 = None then Some (False, ag)
      else is_cycle G D (ao_group o1) (ao_id o1) ag)"

definition add_authority ::
  "('op, ('id, 'op, 'c) auth_operation) amap \<Rightarrow> 'op \<Rightarrow>
   ('g, 'h, 'id, 'op) authority_graphs option \<Rightarrow> ('g, 'h, 'id, 'op) authority_graphs option" where
  "add_authority ops i oag =
     (case oag of None \<Rightarrow> None | Some ag \<Rightarrow>
       (case map_of ops i of
          None \<Rightarrow> None
        | Some o1 \<Rightarrow>
            (let ag = (case removed_or_demoted_manager o1 of
                         Some removed \<Rightarrow> add_removal (ao_group o1) (ao_author o1) removed i ag
                       | None \<Rightarrow> ag)
             in Some (case added_or_promoted_manager o1 of
                        Some added \<Rightarrow> add_delegation (ao_group o1) (ao_author o1) added i ag
                      | None \<Rightarrow> ag))))"

definition build_authority_graphs ::
  "('g, 'op) graph_api \<Rightarrow> ('op, ('id, 'op, 'c) auth_operation) amap \<Rightarrow> 'g \<Rightarrow>
   ('g, 'h, 'id, 'op) authority_graphs option" where
  "build_authority_graphs G ops bubble_graph =
     fold (add_authority ops) (g_nodes G bubble_graph) (Some (authority_new bubble_graph))"

fun retain_ops ::
  "('op, ('id, 'op, 'c) auth_operation) amap \<Rightarrow> 'id \<Rightarrow> 'id \<Rightarrow> 'op list \<Rightarrow> 'op list option" where
  "retain_ops ops gid removed [] = Some []"
| "retain_ops ops gid removed (i # is) =
     (case map_of ops i of
        None \<Rightarrow> None
      | Some o1 \<Rightarrow>
          map_option (\<lambda>rest. if is_removed gid removed o1 \<or> is_readd gid removed o1 then i # rest else rest)
            (retain_ops ops gid removed is))"

type_synonym ('g, 'h, 'id, 'op) filter_state =
  "'op set \<times> 'op set \<times> ('g, 'h, 'id, 'op) authority_graphs"

definition filter_step ::
  "('g, 'op) graph_api \<Rightarrow> ('h, ('id, 'op) node) digraph_api \<Rightarrow> ('g, 'id, 'op, 'c) inner_state \<Rightarrow> 'op list \<Rightarrow>
   'op \<Rightarrow> ('g, 'h, 'id, 'op) filter_state option \<Rightarrow> ('g, 'h, 'id, 'op) filter_state option" where
  "filter_step G D y bubble i acc =
     (case acc of None \<Rightarrow> None | Some (filt, mutual, ag) \<Rightarrow>
       (case map_of (operations y) i of
          None \<Rightarrow> None
        | Some o1 \<Rightarrow>
            (case removed_or_demoted_manager o1 of
               None \<Rightarrow> acc
             | Some removed \<Rightarrow>
                 (case is_mutual_remove G D o1 ag of
                    None \<Rightarrow> None
                  | Some (cyclic, ag) \<Rightarrow>
                      map_option (\<lambda>rs. (filt \<union> set rs, if cyclic then insert i mutual else mutual, ag))
                        (retain_ops (operations y) (ao_group o1) removed
                           (fst (split_bubble G (graph y) bubble i)))))))"

definition compute_filter ::
  "('g, 'op) graph_api \<Rightarrow> ('h, ('id, 'op) node) digraph_api \<Rightarrow> ('g, 'id, 'op, 'c) inner_state \<Rightarrow> 'op list \<Rightarrow>
   ('g, 'h, 'id, 'op) authority_graphs \<Rightarrow> ('g, 'id, 'op, 'c) inner_state option" where
  "compute_filter G D y bubble ag =
     map_option (\<lambda>(filt, mutual, _). y\<lparr>ignore := filt, mutual_removes := mutual\<rparr>)
       (fold (filter_step G D y bubble) bubble (Some ({}, {}, ag)))"

definition apply_operation ::
  "'c cond_cmp \<Rightarrow> 'op \<Rightarrow> ('g, 'id, 'op, 'c) inner_state option \<Rightarrow> ('g, 'id, 'op, 'c) inner_state option" where
  "apply_operation pc i oy =
     (case oy of None \<Rightarrow> None | Some y \<Rightarrow>
       (case map_of (operations y) i of
          None \<Rightarrow> None
        | Some o1 \<Rightarrow>
            (case state_at pc y (ao_dependencies o1) of
               Inl _ \<Rightarrow> None
             | Inr Y \<Rightarrow>
                 map_option (\<lambda>Y'. y\<lparr>states := amap_insert (ao_id o1) Y' (states y)\<rparr>)
                   (if i \<notin> mutual_removes y
                    then map_option changed_state
                           (apply_action Y (ao_group o1) (ao_id o1) (ao_author o1) (ao_action o1) (ignore y))
                    else (case removed_or_demoted_manager o1 of
                            None \<Rightarrow> None
                          | Some removed \<Rightarrow> apply_remove_unsafe Y (ao_group o1) (Individual removed))))))"

definition process_bubble ::
  "('g, 'op) graph_api \<Rightarrow> ('h, ('id, 'op) node) digraph_api \<Rightarrow> 'c cond_cmp \<Rightarrow> 'op list \<Rightarrow>
   ('g, 'id, 'op, 'c) inner_state option \<Rightarrow> ('g, 'id, 'op, 'c) inner_state option" where
  "process_bubble G D pc bubble oy =
     (case oy of None \<Rightarrow> None | Some y \<Rightarrow>
       (let bubble_graph = fold (g_remove_node G)
              (filter (\<lambda>n. n \<notin> set bubble) (g_nodes G (graph y))) (graph y)
        in case build_authority_graphs G (operations y) bubble_graph of
             None \<Rightarrow> None
           | Some ag \<Rightarrow>
               (case compute_filter G D y bubble ag of
                  None \<Rightarrow> None
                | Some y \<Rightarrow> fold (apply_operation pc) (g_topo G bubble_graph) (Some y))))"

fun resolve_loop ::
  "('g, 'op) graph_api \<Rightarrow> ('h, ('id, 'op) node) digraph_api \<Rightarrow> 'c cond_cmp \<Rightarrow> 'op list list \<Rightarrow> 'op list list \<Rightarrow>
   'op list \<Rightarrow> ('g, 'id, 'op, 'c) inner_state option \<Rightarrow> ('g, 'id, 'op, 'c) inner_state option" where
  "resolve_loop G D pc bubbles seen [] oy = oy"
| "resolve_loop G D pc bubbles seen (i # is) oy =
     (case List.find (\<lambda>b. i \<in> set b) bubbles of
        None \<Rightarrow> resolve_loop G D pc bubbles seen is (apply_operation pc i oy)
      | Some bubble \<Rightarrow>
          if list_ex (\<lambda>b. set b = set bubble) seen then resolve_loop G D pc bubbles seen is oy
          else resolve_loop G D pc bubbles (seen @ [bubble]) is (process_bubble G D pc bubble oy))"

definition resolver_process ::
  "('g, 'op) graph_api \<Rightarrow> ('h, ('id, 'op) node) digraph_api \<Rightarrow> 'c cond_cmp \<Rightarrow>
   ('g, 'id, 'op, 'c) inner_state \<Rightarrow> ('g, 'id, 'op, 'c) inner_state option" where
  "resolver_process G D pc y =
     (let y = y\<lparr>ignore := {}, mutual_removes := {}\<rparr>
      in resolve_loop G D pc (concurrent_bubbles G (graph y)) [] (g_topo G (graph y)) (Some y))"

subsection \<open>The group CRDT\<close>

datatype ('id, 'op) crdt_error =
    StatesNotFound "'op list"
  | DuplicateOperation 'op 'id
  | MissingDependencies 'op 'op
  | UnknownGroup 'id
  | GroupCycle 'id 'id 'op
  | StateChangeError 'op "'id group_member membership_error"
  | ManagerGroupsNotAllowed 'id
  | Panicked

definition expect :: "'a option \<Rightarrow> ('id, 'op) crdt_error + 'a" where
  "expect x = (case x of None \<Rightarrow> Inl Panicked | Some v \<Rightarrow> Inr v)"

definition crdt_heads ::
  "('g, 'op) graph_api \<Rightarrow> 'c cond_cmp \<Rightarrow> ('g, 'id, 'op, 'c) inner_state \<Rightarrow> 'id \<Rightarrow> ('id, 'c) group_action \<Rightarrow>
   'op list option" where
  "crdt_heads G pc y gid action = heads G pc y (required_groups action @ [gid])"

definition rebuild_at ::
  "('g, 'op) graph_api \<Rightarrow> ('h, ('id, 'op) node) digraph_api \<Rightarrow> 'c cond_cmp \<Rightarrow>
   ('g, 'id, 'op, 'c) inner_state \<Rightarrow> 'op list \<Rightarrow> ('g, 'id, 'op, 'c) inner_state option" where
  "rebuild_at G D pc y hs = resolver_process G D pc (y\<lparr>graph := trimmed_graph G y hs\<rparr>)"

definition add_operation ::
  "('g, 'op) graph_api \<Rightarrow> ('g, 'id, 'op, 'c) inner_state \<Rightarrow> ('id, 'op, 'c) auth_operation \<Rightarrow>
   ('g, 'id, 'op, 'c) inner_state" where
  "add_operation G y o1 =
     y\<lparr>graph := fold (\<lambda>d. g_add_edge G d (ao_id o1)) (ao_dependencies o1) (g_add_node G (ao_id o1) (graph y)),
       operations := amap_insert (ao_id o1) o1 (operations y)\<rparr>"

definition manager_group :: "('id, 'c) group_action \<Rightarrow> 'id option" where
  "manager_group action =
     (case action of
        Add m acc \<Rightarrow> if is_group m \<and> is_manage acc then Some (member_id m) else None
      | Promote m acc \<Rightarrow> if is_group m \<and> is_manage acc then Some (member_id m) else None
      | _ \<Rightarrow> None)"

definition check_action ::
  "('id, 'c) group_states \<Rightarrow> 'op set \<Rightarrow> ('id, 'op, 'c) auth_operation \<Rightarrow> ('id, 'op) crdt_error + unit" where
  "check_action Y ignored o1 =
     (case apply_action Y (ao_group o1) (ao_id o1) (ao_author o1) (ao_action o1) ignored of
        None \<Rightarrow> Inl Panicked
      | Some (StateOk _) \<Rightarrow> Inr ()
      | Some (StateError _ e) \<Rightarrow> Inl (StateChangeError (ao_id o1) e)
      | Some (StateFiltered _) \<Rightarrow> Inl Panicked)"

definition check_cycle ::
  "('g, 'op) graph_api \<Rightarrow> 'c cond_cmp \<Rightarrow> ('g, 'id, 'op, 'c) inner_state \<Rightarrow> ('id, 'op, 'c) auth_operation \<Rightarrow>
   ('id, 'op) crdt_error + unit" where
  "check_cycle G pc y o1 =
     (case ao_action o1 of
        Add (Group child) _ \<Rightarrow>
          bind_result (expect (current_state G pc y)) (\<lambda>Y.
            if would_create_cycle Y (ao_group o1) (ao_action o1)
            then Inl (GroupCycle (ao_group o1) child (ao_id o1)) else Inr ())
      | _ \<Rightarrow> Inr ())"

definition crdt_validate ::
  "('g, 'op) graph_api \<Rightarrow> ('h, ('id, 'op) node) digraph_api \<Rightarrow> 'c cond_cmp \<Rightarrow>
   ('g, 'id, 'op, 'c) inner_state \<Rightarrow> ('id, 'op, 'c) auth_operation \<Rightarrow> ('id, 'op) crdt_error + unit" where
  "crdt_validate G D pc y o1 =
     (if map_of (operations y) (ao_id o1) \<noteq> None
      then Inl (DuplicateOperation (ao_id o1) (ao_group o1))
      else (case manager_group (ao_action o1) of
              Some g \<Rightarrow> Inl (ManagerGroupsNotAllowed g)
            | None \<Rightarrow>
                bind_result (check_cycle G pc y o1) (\<lambda>_.
                bind_result (expect (heads G pc y (ao_required_groups o1))) (\<lambda>hs.
                bind_result
                  (if set hs \<noteq> set (ao_dependencies o1)
                   then expect (rebuild_at G D pc y (remdups (ao_dependencies o1)))
                   else Inr y) (\<lambda>z.
                bind_result (expect (current_state G pc z)) (\<lambda>Y.
                  check_action Y (ignore z) o1))))))"

definition missing_dependency ::
  "('g, 'id, 'op, 'c) inner_state \<Rightarrow> ('id, 'op, 'c) auth_operation \<Rightarrow> 'op option" where
  "missing_dependency y o1 = List.find (\<lambda>d. map_of (operations y) d = None) (ao_dependencies o1)"

definition crdt_process ::
  "('g, 'op) graph_api \<Rightarrow> ('h, ('id, 'op) node) digraph_api \<Rightarrow> 'c cond_cmp \<Rightarrow>
   ('g, 'id, 'op, 'c) inner_state \<Rightarrow> ('id, 'op, 'c) auth_operation \<Rightarrow>
   ('id, 'op) crdt_error + ('g, 'id, 'op, 'c) inner_state" where
  "crdt_process G D pc y o1 =
     (case missing_dependency y o1 of
        Some d \<Rightarrow> Inl (MissingDependencies d (ao_id o1))
      | None \<Rightarrow>
          bind_result (expect (rebuild_required G pc y o1)) (\<lambda>rebuild.
          bind_result (crdt_validate G D pc y o1) (\<lambda>_.
          (let y = add_operation G y o1
           in if rebuild then expect (resolver_process G D pc y)
              else bind_result
                     (case state_at pc y (ao_dependencies o1) of
                        Inl ids \<Rightarrow> Inl (StatesNotFound ids)
                      | Inr Y \<Rightarrow> Inr Y) (\<lambda>Y.
                   if \<not> is_create (ao_action o1) \<and> map_of Y (ao_group o1) = None
                   then Inl (UnknownGroup (ao_group o1))
                   else bind_result
                          (expect (apply_action Y (ao_group o1) (ao_id o1) (ao_author o1) (ao_action o1) (ignore y)))
                          (\<lambda>r. Inr (y\<lparr>states := amap_insert (ao_id o1) (changed_state r) (states y)\<rparr>)))))))"

definition members_at ::
  "('g, 'op) graph_api \<Rightarrow> ('h, ('id, 'op) node) digraph_api \<Rightarrow> 'c cond_cmp \<Rightarrow>
   ('g, 'id, 'op, 'c) inner_state \<Rightarrow> 'op list \<Rightarrow> 'id \<Rightarrow> ('id, 'op) crdt_error + ('id \<times> 'c access) list" where
  "members_at G D pc y hs gid =
     bind_result (expect (heads G pc y [gid])) (\<lambda>cur.
     bind_result (if set cur \<noteq> set hs then expect (rebuild_at G D pc y hs) else Inr y) (\<lambda>z.
     bind_result (expect (current_state G pc z)) (\<lambda>Y. Inr (individual_members pc Y gid))))"

definition groups_global :: "('g, 'id, 'op, 'c) inner_state \<Rightarrow> 'id list" where
  "groups_global y = map (\<lambda>(_, o1). ao_group o1) (filter (\<lambda>(_, o1). is_create (ao_action o1)) (operations y))"

subsection \<open>Well-formed operation graphs\<close>

abbreviation nodes_of :: "('g, 'op) graph_api \<Rightarrow> ('g, 'id, 'op, 'c) inner_state \<Rightarrow> 'op set" where
  "nodes_of G y \<equiv> set (g_nodes G (graph y))"

abbreviation edges_of :: "('g, 'op) graph_api \<Rightarrow> ('g, 'id, 'op, 'c) inner_state \<Rightarrow> ('op \<times> 'op) set" where
  "edges_of G y \<equiv> g_edges G (graph y)"

definition deps_of :: "('g, 'id, 'op, 'c) inner_state \<Rightarrow> 'op \<Rightarrow> 'op set" where
  "deps_of y i = (case map_of (operations y) i of None \<Rightarrow> {} | Some o1 \<Rightarrow> set (ao_dependencies o1))"

definition creates :: "('g, 'id, 'op, 'c) inner_state \<Rightarrow> 'op \<Rightarrow> 'id \<Rightarrow> bool" where
  "creates y a g \<longleftrightarrow> (\<exists>o1. map_of (operations y) a = Some o1 \<and> is_create (ao_action o1) \<and> ao_group o1 = g)"

definition created :: "('g, 'op) graph_api \<Rightarrow> ('g, 'id, 'op, 'c) inner_state \<Rightarrow> 'op \<Rightarrow> 'id set" where
  "created G y i = {g. \<exists>a. (a, i) \<in> (edges_of G y)\<^sup>* \<and> creates y a g}"

definition graph_wf :: "('g, 'op) graph_api \<Rightarrow> ('g, 'id, 'op, 'c) inner_state \<Rightarrow> bool" where
  "graph_wf G y \<longleftrightarrow>
     (\<forall>i \<in> nodes_of G y. \<exists>o1. map_of (operations y) i = Some o1 \<and> ao_id o1 = i \<and>
        set (ao_dependencies o1) \<subseteq> nodes_of G y \<and>
        (\<not> is_create (ao_action o1) \<longrightarrow> (\<exists>d \<in> set (ao_dependencies o1). ao_group o1 \<in> created G y d))) \<and>
     edges_of G y = {(d, i). i \<in> nodes_of G y \<and> d \<in> deps_of y i} \<and>
     acyclic (edges_of G y)"

definition knows :: "('g, 'op) graph_api \<Rightarrow> ('g, 'id, 'op, 'c) inner_state \<Rightarrow> 'op set \<Rightarrow> bool" where
  "knows G y S \<longleftrightarrow> (\<forall>i \<in> S. \<exists>Y. map_of (states y) i = Some Y \<and> dom (map_of Y) = created G y i)"

lemma graph_wfD:
  assumes "graph_wf G y" "i \<in> nodes_of G y"
  obtains o1 where "map_of (operations y) i = Some o1" "ao_id o1 = i" "set (ao_dependencies o1) \<subseteq> nodes_of G y"
    "set (ao_dependencies o1) = deps_of y i"
    "is_create (ao_action o1) \<or> (\<exists>d \<in> deps_of y i. ao_group o1 \<in> created G y d)"
  using assms unfolding graph_wf_def deps_of_def by fastforce

lemma graph_wf_edges: "graph_wf G y \<Longrightarrow> (d, i) \<in> edges_of G y \<longleftrightarrow> i \<in> nodes_of G y \<and> d \<in> deps_of y i"
  by (simp add: graph_wf_def)

lemma graph_wf_acyclic: "graph_wf G y \<Longrightarrow> acyclic (edges_of G y)"
  unfolding graph_wf_def by blast

lemma created_step:
  assumes "graph_wf G y" "i \<in> nodes_of G y"
  shows "created G y i = {g. creates y i g} \<union> (\<Union>d \<in> deps_of y i. created G y d)"
proof -
  have "(a, i) \<in> (edges_of G y)\<^sup>* \<longleftrightarrow> a = i \<or> (\<exists>d \<in> deps_of y i. (a, d) \<in> (edges_of G y)\<^sup>*)" for a
    using graph_wf_edges[OF assms(1)] assms(2) by (auto elim: rtranclE intro: rtrancl_into_rtrancl)
  then show ?thesis
    by (auto simp: created_def)
qed

lemma knows_cong:
  "operations y' = operations y \<Longrightarrow> graph y' = graph y \<Longrightarrow> created G y' = created G y"
  by (simp add: created_def creates_def fun_eq_iff)

definition same_graph :: "('g, 'id, 'op, 'c) inner_state \<Rightarrow> ('g, 'id, 'op, 'c) inner_state \<Rightarrow> bool" where
  "same_graph y y' \<longleftrightarrow> operations y' = operations y \<and> graph y' = graph y"

lemma same_graph_trans: "same_graph x y \<Longrightarrow> same_graph y z \<Longrightarrow> same_graph x z"
  by (simp add: same_graph_def)

lemma graph_wf_same: "same_graph y y' \<Longrightarrow> graph_wf G y' \<longleftrightarrow> graph_wf G y"
  using knows_cong[of y' y G] by (simp add: same_graph_def graph_wf_def deps_of_def)

lemma knows_same: "same_graph y y' \<Longrightarrow> states y' = states y \<Longrightarrow> knows G y' S \<longleftrightarrow> knows G y S"
  using knows_cong[of y' y G] by (simp add: same_graph_def knows_def)

subsection \<open>Applying operations in causal order\<close>

definition filters_ok :: "('g, 'id, 'op, 'c) inner_state \<Rightarrow> bool" where
  "filters_ok y \<longleftrightarrow>
     (\<forall>i \<in> mutual_removes y. \<exists>o1. map_of (operations y) i = Some o1 \<and> removed_or_demoted_manager o1 \<noteq> None) \<and>
     ignore y \<subseteq> dom (map_of (operations y))"

lemma state_at_known:
  assumes "knows G y (set ds)"
  shows "\<exists>Y. state_at pc y ds = Inr Y \<and> dom (map_of Y) = (\<Union>d \<in> set ds. created G y d)"
proof -
  have *: "map_of (states y) d \<noteq> None \<and> dom (map_of (the (map_of (states y) d))) = created G y d"
    if "d \<in> set ds" for d
    using assms that unfolding knows_def by fastforce
  then have "(\<Union>d \<in> set (remdups ds). dom (map_of (the (map_of (states y) d)))) = (\<Union>d \<in> set ds. created G y d)"
    by simp
  then show ?thesis
    using merge_states_dom[of "remdups ds" "states y" pc] * by (simp add: state_at_def)
qed

lemma apply_operation_total:
  assumes wf: "graph_wf G y" and i: "i \<in> nodes_of G y" and known: "knows G y S" "deps_of y i \<subseteq> S"
    and ro: "filters_ok y"
  shows "\<exists>y'. apply_operation pc i (Some y) = Some y' \<and> same_graph y y' \<and> knows G y' (insert i S) \<and>
              ignore y' = ignore y \<and> mutual_removes y' = mutual_removes y"
proof -
  obtain o1 where o1: "map_of (operations y) i = Some o1" "ao_id o1 = i"
      "set (ao_dependencies o1) = deps_of y i"
      "is_create (ao_action o1) \<or> (\<exists>d \<in> deps_of y i. ao_group o1 \<in> created G y d)"
    using graph_wfD[OF wf i] by metis
  have "knows G y (set (ao_dependencies o1))"
    using known o1(3) by (auto simp: knows_def)
  then obtain Y where Y: "state_at pc y (ao_dependencies o1) = Inr Y"
      "dom (map_of Y) = (\<Union>d \<in> deps_of y i. created G y d)"
    using state_at_known[of G y "ao_dependencies o1" pc] o1(3) by auto
  have pre: "is_create (ao_action o1) \<or> map_of Y (ao_group o1) \<noteq> None"
    using o1(4) Y(2) by (auto simp: dom_def)
  have cr: "created G y i = (if is_create (ao_action o1) then {ao_group o1} else {}) \<union> dom (map_of Y)"
    unfolding created_step[OF wf i] Y(2) by (auto simp: creates_def o1(1))
  obtain Y' where Y': "(if i \<notin> mutual_removes y
      then map_option changed_state
             (apply_action Y (ao_group o1) (ao_id o1) (ao_author o1) (ao_action o1) (ignore y))
      else (case removed_or_demoted_manager o1 of
              None \<Rightarrow> None
            | Some removed \<Rightarrow> apply_remove_unsafe Y (ao_group o1) (Individual removed))) = Some Y'"
      "dom (map_of Y') = created G y i"
  proof (cases "i \<in> mutual_removes y")
    case True
    then obtain x where x: "removed_or_demoted_manager o1 = Some x"
      using ro o1(1) by (auto simp: filters_ok_def)
    then have nc: "\<not> is_create (ao_action o1)"
      by (auto simp: removed_or_demoted_manager_def is_create_def split: group_action.splits)
    then show ?thesis
      using apply_remove_unsafe_dom[of Y "ao_group o1" "Individual x"] pre x True that cr by auto
  next
    case False
    then show ?thesis
      using apply_action_dom[OF pre, of "ao_id o1" "ao_author o1" "ignore y"] pre that cr by (auto simp: insert_absorb dom_def)
  qed
  let ?y = "y\<lparr>states := amap_insert (ao_id o1) Y' (states y)\<rparr>"
  have "apply_operation pc i (Some y) = Some ?y"
    using o1(1) Y(1) Y'(1) by (simp add: apply_operation_def)
  moreover have "knows G ?y (insert i S)"
    using known(1) Y'(2) o1(2) knows_cong[of ?y y G] by (auto simp: knows_def)
  ultimately show ?thesis
    by (auto simp: same_graph_def)
qed

lemma same_graph_deps: "same_graph y y' \<Longrightarrow> deps_of y' i = deps_of y i"
  by (simp add: same_graph_def deps_of_def)

lemma apply_operations_total:
  assumes "graph_wf G y" "set xs \<subseteq> nodes_of G y" "knows G y S" "filters_ok y"
    "\<And>us i vs. xs = us @ i # vs \<Longrightarrow> deps_of y i \<subseteq> S \<union> set us"
  shows "\<exists>y'. fold (apply_operation pc) xs (Some y) = Some y' \<and> same_graph y y' \<and>
              knows G y' (S \<union> set xs) \<and> filters_ok y'"
  using assms
proof (induction xs arbitrary: y S)
  case Nil
  then show ?case
    by (simp add: same_graph_def)
next
  case (Cons i xs)
  have "deps_of y i \<subseteq> S"
    using Cons.prems(5)[of "[]" i xs] by simp
  then obtain y1 where y1: "apply_operation pc i (Some y) = Some y1" "same_graph y y1"
      "knows G y1 (insert i S)" "mutual_removes y1 = mutual_removes y" "ignore y1 = ignore y"
    using apply_operation_total[OF Cons.prems(1) _ Cons.prems(3) _ Cons.prems(4)] Cons.prems(2) by fastforce
  have "graph_wf G y1" "set xs \<subseteq> nodes_of G y1" "filters_ok y1"
    using Cons.prems(1,2,4) y1(2,4,5) graph_wf_same[OF y1(2)] by (simp_all add: same_graph_def filters_ok_def)
  moreover have "deps_of y1 j \<subseteq> insert i S \<union> set us" if "xs = us @ j # vs" for us j vs
    using Cons.prems(5)[of "i # us" j vs] that same_graph_deps[OF y1(2)] by simp
  ultimately obtain y' where "fold (apply_operation pc) xs (Some y1) = Some y'" "same_graph y1 y'"
      "knows G y' (insert i S \<union> set xs)" "filters_ok y'"
    using Cons.IH[of y1 "insert i S"] y1(3) by blast
  then show ?case
    using y1 same_graph_trans[OF y1(2)] by auto
qed

subsection \<open>The filter of a bubble\<close>

definition suppresses ::
  "('g, 'op) graph_api \<Rightarrow> ('g, 'id, 'op, 'c) inner_state \<Rightarrow> 'op \<Rightarrow> 'op \<Rightarrow> bool" where
  "suppresses G y r i \<longleftrightarrow>
     (\<exists>o1 x o2. map_of (operations y) r = Some o1 \<and> removed_or_demoted_manager o1 = Some x \<and>
        map_of (operations y) i = Some o2 \<and> ao_group o2 = ao_group o1 \<and>
        (ao_author o2 = x \<or> (\<exists>m acc. ao_action o2 = Add m acc \<and> member_id m = x)) \<and>
        (r, i) \<in> conc G (graph y))"

definition mutual_remove ::
  "('g, 'op) graph_api \<Rightarrow> ('g, 'id, 'op, 'c) inner_state \<Rightarrow> ('g, 'h, 'id, 'op) authority_graphs \<Rightarrow> 'op \<Rightarrow> bool" where
  "mutual_remove G y ag r \<longleftrightarrow>
     (\<exists>o1. map_of (operations y) r = Some o1 \<and> removed_or_demoted_manager o1 \<noteq> None \<and>
           r \<in> cyclic_ops (group_authority G ag (ao_group o1)))"

lemma retain_ops_eq:
  "\<forall>i \<in> set is. map_of ops i \<noteq> None \<Longrightarrow>
   retain_ops ops gid x is =
     Some (filter (\<lambda>i. is_removed gid x (the (map_of ops i)) \<or> is_readd gid x (the (map_of ops i))) is)"
  by (induction "is") auto

lemma is_readd_iff:
  "is_readd gid x o2 \<longleftrightarrow> ao_group o2 = gid \<and> (\<exists>m acc. ao_action o2 = Add m acc \<and> member_id m = x)"
  by (auto simp: is_readd_def split: group_action.splits)

lemma retained_suppressed:
  assumes G: "graph_ok G" and ops: "\<forall>i \<in> set bubble. map_of (operations y) i \<noteq> None"
    and b: "set bubble \<subseteq> nodes_of G y" "r \<in> set bubble"
    and r: "map_of (operations y) r = Some o1" "removed_or_demoted_manager o1 = Some x"
  shows "\<exists>rs. retain_ops (operations y) (ao_group o1) x (fst (split_bubble G (graph y) bubble r)) = Some rs \<and>
              set rs = {i \<in> set bubble. suppresses G y r i}"
proof -
  let ?c = "fst (split_bubble G (graph y) bubble r)"
  have c: "set ?c = {i \<in> set bubble. (r, i) \<in> conc G (graph y)}"
    using b by (auto simp: split_bubble_def Let_def graph_okD(10,11)[OF G] conc_def)
  then have "\<forall>i \<in> set ?c. map_of (operations y) i \<noteq> None"
    using ops by auto
  note eq = retain_ops_eq[OF this, of "ao_group o1" x]
  show ?thesis
    unfolding eq using c ops r by (auto simp: suppresses_def is_removed_def is_readd_iff)
qed

lemma filter_step_exact:
  assumes G: "graph_ok G" and D: "digraph_ok D" and ag: "cache_ok G ag"
    and ops: "\<forall>i \<in> set bubble. \<exists>o1. map_of (operations y) i = Some o1 \<and> ao_id o1 = i"
    and b: "set bubble \<subseteq> nodes_of G y" "r \<in> set bubble"
  shows "\<exists>ag'. filter_step G D y bubble r (Some (filt, mutual, ag)) =
                 Some (filt \<union> {i \<in> set bubble. suppresses G y r i},
                       mutual \<union> {i. i = r \<and> mutual_remove G y ag i}, ag') \<and>
               cache_ok G ag' \<and> group_authority G ag' = group_authority G ag"
proof -
  obtain o1 where o1: "map_of (operations y) r = Some o1" "ao_id o1 = r"
    using ops b(2) by blast
  show ?thesis
  proof (cases "removed_or_demoted_manager o1")
    case None
    then have "filter_step G D y bubble r (Some (filt, mutual, ag)) = Some (filt, mutual, ag)"
      "{i \<in> set bubble. suppresses G y r i} = {}" "{i. i = r \<and> mutual_remove G y ag i} = {}"
      using o1 by (auto simp: filter_step_def suppresses_def mutual_remove_def)
    then show ?thesis
      using ag by auto
  next
    case (Some x)
    obtain ag' where ag': "is_cycle G D (ao_group o1) r ag = Some (r \<in> cyclic_ops (group_authority G ag (ao_group o1)), ag')"
        "cache_ok G ag'" "removals ag' = removals ag" "delegations ag' = delegations ag" "deps_graph ag' = deps_graph ag"
      using is_cycle_sound[OF D ag] by metis
    have "\<forall>i \<in> set bubble. map_of (operations y) i \<noteq> None"
      using ops by fastforce
    then obtain rs where "retain_ops (operations y) (ao_group o1) x (fst (split_bubble G (graph y) bubble r)) = Some rs"
        "set rs = {i \<in> set bubble. suppresses G y r i}"
      using retained_suppressed[OF G _ b o1(1) Some] by blast
    then have "filter_step G D y bubble r (Some (filt, mutual, ag)) =
        Some (filt \<union> {i \<in> set bubble. suppresses G y r i},
              mutual \<union> {i. i = r \<and> mutual_remove G y ag i}, ag')"
      using o1 Some ag'(1) by (auto simp: filter_step_def is_mutual_remove_def mutual_remove_def)
    then show ?thesis
      using ag' by (auto simp: group_authority_def fun_eq_iff)
  qed
qed

lemma filter_fold_exact:
  assumes G: "graph_ok G" and D: "digraph_ok D" and ag: "cache_ok G ag"
    and ops: "\<forall>i \<in> set bubble. \<exists>o1. map_of (operations y) i = Some o1 \<and> ao_id o1 = i"
    and b: "set bubble \<subseteq> nodes_of G y"
  shows "set xs \<subseteq> set bubble \<Longrightarrow>
    \<exists>ag'. fold (filter_step G D y bubble) xs (Some (filt, mutual, ag)) =
            Some (filt \<union> {i \<in> set bubble. \<exists>r \<in> set xs. suppresses G y r i},
                  mutual \<union> {r \<in> set xs. mutual_remove G y ag r}, ag')"
  using ag
proof (induction xs arbitrary: filt mutual ag)
  case (Cons r xs)
  obtain ag1 where 1: "filter_step G D y bubble r (Some (filt, mutual, ag)) =
      Some (filt \<union> {i \<in> set bubble. suppresses G y r i},
            mutual \<union> {i. i = r \<and> mutual_remove G y ag i}, ag1)"
      "cache_ok G ag1" "group_authority G ag1 = group_authority G ag"
    using filter_step_exact[OF G D Cons.prems(2) ops b] Cons.prems(1) by fastforce
  have same: "mutual_remove G y ag1 = mutual_remove G y ag"
    using 1(3) by (simp add: mutual_remove_def fun_eq_iff)
  obtain ag2 where 2: "fold (filter_step G D y bubble) xs
        (filter_step G D y bubble r (Some (filt, mutual, ag))) =
      Some ((filt \<union> {i \<in> set bubble. suppresses G y r i}) \<union> {i \<in> set bubble. \<exists>r \<in> set xs. suppresses G y r i},
            (mutual \<union> {i. i = r \<and> mutual_remove G y ag i}) \<union> {r \<in> set xs. mutual_remove G y ag r}, ag2)"
    using Cons.IH[OF _ 1(2), of "filt \<union> {i \<in> set bubble. suppresses G y r i}"
        "mutual \<union> {i. i = r \<and> mutual_remove G y ag i}"] Cons.prems(1)
    unfolding 1(1) same by auto
  show ?case
    unfolding fold.simps comp_def 2 by (intro exI[of _ ag2]) auto
qed simp

lemma compute_filter_eq:
  assumes "graph_ok G" "digraph_ok D" "cache_ok G ag" "graph_wf G y" "set bubble \<subseteq> nodes_of G y"
  shows "compute_filter G D y bubble ag =
    Some (y\<lparr>ignore := {i \<in> set bubble. \<exists>r \<in> set bubble. suppresses G y r i},
            mutual_removes := {r \<in> set bubble. mutual_remove G y ag r}\<rparr>)"
proof -
  have "\<forall>i \<in> set bubble. \<exists>o1. map_of (operations y) i = Some o1 \<and> ao_id o1 = i"
    using graph_wfD[OF assms(4)] assms(5) by (metis subsetD)
  from filter_fold_exact[OF assms(1-3) this assms(5) order_refl, of "{}" "{}"] show ?thesis
    by (auto simp: compute_filter_def)
qed

subsection \<open>The resolver never panics\<close>

lemma remove_nodes:
  assumes "graph_ok G"
  shows "set (g_nodes G (fold (g_remove_node G) xs g)) = set (g_nodes G g) - set xs"
    "g_edges G (fold (g_remove_node G) xs g) = {(a, b) \<in> g_edges G g. a \<notin> set xs \<and> b \<notin> set xs}"
  by (induction xs arbitrary: g) (auto simp: graph_okD(8,9)[OF assms])

lemma precedes_before: "distinct xs \<Longrightarrow> xs = us @ i # vs \<Longrightarrow> precedes xs d i \<Longrightarrow> d \<in> set us"
proof -
  assume "distinct xs" "xs = us @ i # vs" "precedes xs d i"
  moreover from this obtain as bs cs where "xs = (as @ d # bs) @ i # cs"
    by (auto simp: precedes_def)
  ultimately have "us = as @ d # bs"
    using append_Cons_eq_iff[of i us vs "as @ d # bs" cs] by auto
  then show ?thesis
    by simp
qed

lemma ancestors_before:
  assumes "graph_ok G" "acyclic (g_edges G g)" "g_topo G g = us @ i # vs" "(d, i) \<in> (g_edges G g)\<^sup>+"
  shows "d \<in> set us"
  using assms(4)
proof (induction rule: converse_trancl_induct)
  case (base d)
  then show ?case
    using precedes_before[OF graph_okD(12)[OF assms(1,2)] assms(3)] graph_okD(14)[OF assms(1,2)] by blast
next
  case (step d c)
  obtain us1 us2 where us: "us = us1 @ c # us2"
    using step.IH by (meson split_list)
  then have "d \<in> set us1"
    using precedes_before[OF graph_okD(12)[OF assms(1,2)], of us1 c "us2 @ i # vs" d] assms(3)
      graph_okD(14)[OF assms(1,2) step.hyps(1)] by simp
  then show ?case
    using us by simp
qed

lemma build_authority_total:
  assumes "\<forall>i \<in> set xs. map_of ops i \<noteq> None" "cache_ok G ag"
  shows "\<exists>ag'. fold (add_authority ops) xs (Some ag) = Some ag' \<and> cache_ok G ag'"
  using assms
proof (induction xs arbitrary: ag)
  case (Cons i xs)
  then obtain ag1 where "add_authority ops i (Some ag) = Some ag1" "cache_ok G ag1"
    by (auto simp: add_authority_def Let_def cache_ok_add_removal cache_ok_add_delegation split: option.splits)
  then show ?case
    using Cons by simp
qed simp

lemma process_bubble_total:
  fixes G :: "('g, 'op) graph_api" and D :: "('h, ('id, 'op) node) digraph_api"
    and y :: "('g, 'id, 'op, 'c) inner_state"
  assumes G: "graph_ok G" and D: "digraph_ok D" and wf: "graph_wf G y"
    and b: "set bubble \<subseteq> nodes_of G y" and known: "knows G y S"
    and ext: "\<And>i. i \<in> set bubble \<Longrightarrow> deps_of y i \<subseteq> S \<union> set bubble"
  shows "\<exists>y'. process_bubble G D pc bubble (Some y) = Some y' \<and> same_graph y y' \<and>
              knows G y' (S \<union> set bubble) \<and> filters_ok y'"
proof -
  let ?g = "fold (g_remove_node G) (filter (\<lambda>n. n \<notin> set bubble) (g_nodes G (graph y))) (graph y)"
  have N: "set (g_nodes G ?g) = set bubble"
    using b by (auto simp: remove_nodes[OF G])
  have E: "g_edges G ?g = {(d, i) \<in> edges_of G y. d \<in> set bubble \<and> i \<in> set bubble}"
    using graph_okD(2)[OF G, of "graph y"] by (auto simp: remove_nodes[OF G])
  have ac: "acyclic (g_edges G ?g)"
    using graph_wf_acyclic[OF wf] by (rule acyclic_subset) (auto simp: E)
  have "\<forall>i \<in> set (g_nodes G ?g). map_of (operations y) i \<noteq> None"
    unfolding N using b graph_wfD[OF wf] by blast
  note build_authority_total[OF this cache_ok_new[of G ?g]]
  then obtain ag :: "('g, 'h, 'id, 'op) authority_graphs"
    where ag: "build_authority_graphs G (operations y) ?g = Some ag" "cache_ok G ag"
    unfolding build_authority_graphs_def by metis
  obtain y1 where y1: "compute_filter G D y bubble ag = Some y1" "same_graph y y1" "states y1 = states y"
      "filters_ok y1"
    unfolding compute_filter_eq[OF G D ag(2) wf b]
    by (auto simp: same_graph_def filters_ok_def mutual_remove_def suppresses_def)
  have "deps_of y1 i \<subseteq> S \<union> set us" if topo: "g_topo G ?g = us @ i # vs" for us i vs
  proof
    fix d assume d: "d \<in> deps_of y1 i"
    have i: "i \<in> set bubble"
      using topo graph_okD(13)[OF G ac] N by (metis in_set_conv_decomp)
    have "d \<in> deps_of y i"
      using d same_graph_deps[OF y1(2)] by simp
    moreover from this have "(d, i) \<in> edges_of G y"
      using i b graph_wf_edges[OF wf] by blast
    ultimately show "d \<in> S \<union> set us"
      using ext[OF i] i ancestors_before[OF G ac topo, of d] by (auto simp: E)
  qed
  moreover have "graph_wf G y1" "knows G y1 S" "set (g_topo G ?g) \<subseteq> nodes_of G y1"
    using wf known y1(2,3) graph_wf_same knows_same[of y y1 G S] graph_okD(13)[OF G ac] N b
    by (auto simp: same_graph_def)
  ultimately obtain y' where "fold (apply_operation pc) (g_topo G ?g) (Some y1) = Some y'" "same_graph y1 y'"
      "knows G y' (S \<union> set (g_topo G ?g))" "filters_ok y'"
    using apply_operations_total[of G y1 "g_topo G ?g" S pc] y1(4) by blast
  then show ?thesis
    using ag(1) y1 same_graph_trans graph_okD(13)[OF G ac] N by (auto simp: process_bubble_def Let_def)
qed

lemma component_ancestors:
  assumes b: "b = component_of G g u" "u \<in> set (g_nodes G g)" and p: "(p, u) \<in> g_edges G g" "p \<in> set (g_nodes G g)"
    "p \<notin> b" and v: "v \<in> b"
  shows "(p, v) \<in> (g_edges G g)\<^sup>+"
proof -
  have "(u, v) \<in> (conc G g)\<^sup>*"
    using v b(1) by (simp add: component_of_def)
  then show ?thesis
  proof (induction rule: rtrancl_induct)
    case (step v w)
    have w: "w \<in> b" "w \<in> set (g_nodes G g)"
      using step.hyps b conc_nodes by (auto simp: component_of_def conc_def intro: rtrancl_into_rtrancl)
    then have "(w, p) \<notin> conc G g"
      using p(3) b(1) by (auto simp: component_of_def intro: rtrancl_into_rtrancl)
    moreover have "(w, p) \<notin> (g_edges G g)\<^sup>*"
      using step.IH step.hyps(2) by (auto simp: conc_def dest: rtrancl_trancl_trancl trancl_into_rtrancl)
    ultimately have "(p, w) \<in> (g_edges G g)\<^sup>*"
      using w(2) p(2) by (auto simp: conc_def)
    then show ?case
      using w(1) p(3) by (auto simp: rtrancl_eq_or_trancl)
  qed (use p(1) in auto)
qed

lemma bubble_component:
  assumes "graph_ok G" "b \<in> set (concurrent_bubbles G g)"
  shows "set b \<subseteq> set (g_nodes G g)" "x \<in> set b \<Longrightarrow> set b = component_of G g x"
proof -
  obtain p where inv: "bubbles_inv G g (set (g_nodes G g)) (concurrent_bubbles G g, p)"
    using concurrent_bubbles_inv[OF assms(1)] by blast
  obtain u where u: "u \<in> set (g_nodes G g)" "set b = component_of G g u"
    using bubbles_invD(5)[OF inv assms(2)] by blast
  show "set b \<subseteq> set (g_nodes G g)"
    using u conc_nodes[of u _ G g] by (auto simp: component_of_def)
  show "set b = component_of G g x" if "x \<in> set b"
    using u(2) that component_eq[of x G g u] by simp
qed

lemma bubble_external_deps:
  assumes G: "graph_ok G" and wf: "graph_wf G y" and b: "b \<in> set (concurrent_bubbles G (graph y))"
    and topo: "g_topo G (graph y) = us @ i # vs" and i: "i \<in> set b" and u: "u \<in> set b"
  shows "deps_of y u \<subseteq> set us \<union> set b"
proof
  fix p assume p: "p \<in> deps_of y u"
  have e: "(p, u) \<in> edges_of G y"
    using p u bubble_component(1)[OF G b] graph_wf_edges[OF wf] by blast
  show "p \<in> set us \<union> set b"
  proof (cases "p \<in> set b")
    case False
    have "(p, i) \<in> (edges_of G y)\<^sup>+"
      using component_ancestors[OF bubble_component(2)[OF G b u] _ e _ False i]
        graph_okD(2)[OF G, of "graph y"] e by blast
    then show ?thesis
      using ancestors_before[OF G graph_wf_acyclic[OF wf] topo] by blast
  qed simp
qed

lemma resolve_loop_total:
  assumes G: "graph_ok G" and D: "digraph_ok D"
  shows "\<lbrakk>graph_wf G y; g_topo G (graph y) = us @ xs; knows G y (set us \<union> (\<Union>b \<in> set seen. set b)); filters_ok y\<rbrakk> \<Longrightarrow>
     \<exists>y'. resolve_loop G D pc (concurrent_bubbles G (graph y)) seen xs (Some y) = Some y' \<and>
          same_graph y y' \<and> knows G y' (nodes_of G y) \<and> filters_ok y'"
proof (induction xs arbitrary: y us seen)
  case Nil
  then show ?case
    using graph_okD(13)[OF G graph_wf_acyclic[OF Nil.prems(1)]] by (auto simp: same_graph_def knows_def)
next
  case (Cons i xs)
  let ?S = "set us \<union> (\<Union>b \<in> set seen. set b)" and ?bs = "concurrent_bubbles G (graph y)"
  note wf = Cons.prems(1) and topo = Cons.prems(2) and ac = graph_wf_acyclic[OF wf]
  have i: "i \<in> nodes_of G y"
    using topo graph_okD(13)[OF G ac] by (metis in_set_conv_decomp)
  have continue: ?case
    if "resolve_loop G D pc ?bs seen (i # xs) (Some y) = resolve_loop G D pc ?bs seen' xs (Some y1)"
      "same_graph y y1" "knows G y1 (set (us @ [i]) \<union> (\<Union>b \<in> set seen'. set b))" "filters_ok y1" for seen' y1
  proof -
    have "graph_wf G y1" "g_topo G (graph y1) = (us @ [i]) @ xs" "graph y1 = graph y"
      using wf topo that(2) graph_wf_same[OF that(2)] by (simp_all add: same_graph_def)
    with Cons.IH[of y1 "us @ [i]" seen'] that(1,2,3,4) show ?thesis
      using same_graph_trans by fastforce
  qed
  show ?case
  proof (cases "List.find (\<lambda>b. i \<in> set b) ?bs")
    case None
    have "deps_of y i \<subseteq> ?S"
      using graph_wf_edges[OF wf] i ancestors_before[OF G ac topo] by blast
    from apply_operation_total[OF wf i Cons.prems(3) this Cons.prems(4)]
    obtain y1 where "apply_operation pc i (Some y) = Some y1" "same_graph y y1" "knows G y1 (insert i ?S)"
        "filters_ok y1"
      using Cons.prems(4) by (fastforce simp: filters_ok_def same_graph_def)
    with None continue[of seen y1] show ?thesis
      by simp
  next
    case (Some b)
    then have b: "b \<in> set ?bs" "i \<in> set b"
      by (auto simp: find_Some_iff)
    show ?thesis
    proof (cases "list_ex (\<lambda>c. set c = set b) seen")
      case True
      then have "insert i ?S = ?S"
        using b(2) by (auto simp: list_ex_iff)
      with Some True continue[of seen y] Cons.prems(3,4) show ?thesis
        by (simp add: same_graph_def)
    next
      case False
      have "deps_of y u \<subseteq> ?S \<union> set b" if "u \<in> set b" for u
        using bubble_external_deps[OF G wf b(1) topo b(2) that] by blast
      from process_bubble_total[OF G D wf bubble_component(1)[OF G b(1)] Cons.prems(3) this]
      obtain y1 where "process_bubble G D pc b (Some y) = Some y1" "same_graph y y1" "knows G y1 (?S \<union> set b)"
          "filters_ok y1"
        by blast
      moreover have "insert i (?S \<union> set b) = ?S \<union> set b"
        using b(2) by blast
      ultimately show ?thesis
        using Some False continue[of "seen @ [b]" y1] by (simp add: Un_assoc Un_commute Un_left_commute)
    qed
  qed
qed

lemma resolver_process_total:
  assumes "graph_ok G" "digraph_ok D" "graph_wf G y"
  shows "\<exists>y'. resolver_process G D pc y = Some y' \<and> same_graph y y' \<and> knows G y' (nodes_of G y) \<and> filters_ok y'"
proof -
  let ?y = "y\<lparr>ignore := {}, mutual_removes := {}\<rparr>"
  have same: "same_graph y ?y"
    by (simp add: same_graph_def)
  have "graph_wf G ?y" "knows G ?y {}" "filters_ok ?y"
    using assms(3) graph_wf_same[OF same] by (simp_all add: knows_def filters_ok_def)
  then obtain y' where "resolve_loop G D pc (concurrent_bubbles G (graph ?y)) [] (g_topo G (graph ?y)) (Some ?y) = Some y'"
      "same_graph ?y y'" "knows G y' (nodes_of G ?y)" "filters_ok y'"
    using resolve_loop_total[OF assms(1,2), of ?y "[]" "g_topo G (graph ?y)" "[]" pc] by auto
  then show ?thesis
    using same_graph_trans[OF same] by (auto simp: resolver_process_def Let_def)
qed

subsection \<open>Processing operations\<close>

definition crdt_ok :: "('g, 'op) graph_api \<Rightarrow> ('g, 'id, 'op, 'c) inner_state \<Rightarrow> bool" where
  "crdt_ok G y \<longleftrightarrow>
     graph_wf G y \<and> knows G y (nodes_of G y) \<and> filters_ok y \<and> dom (map_of (operations y)) = nodes_of G y"

lemma created_mono: "(i, j) \<in> (edges_of G y)\<^sup>* \<Longrightarrow> created G y i \<subseteq> created G y j"
  by (auto simp: created_def intro: rtrancl_trans)

lemma head_above:
  assumes G: "graph_ok G" and ac: "acyclic (edges_of G y)" and i: "i \<in> nodes_of G y"
  shows "\<exists>h \<in> set (heads_global G y). (i, h) \<in> (edges_of G y)\<^sup>*"
proof -
  have "finite (edges_of G y)"
    using graph_okD(2)[OF G, of "graph y"] by (rule finite_subset) simp
  then have "wf ((edges_of G y)\<inverse>)"
    using ac by (rule finite_acyclic_wf_converse)
  then show ?thesis
    using i
  proof (induction i rule: wf_induct_rule)
    case (less i)
    show ?case
    proof (cases "\<exists>j. (i, j) \<in> edges_of G y")
      case True
      then show ?thesis
        using less graph_okD(2)[OF G, of "graph y"] by (blast intro: converse_rtrancl_into_rtrancl)
    next
      case False
      then show ?thesis
        using less.prems by (auto simp: heads_global_def graph_okD(15)[OF G])
    qed
  qed
qed

lemma current_state_total:
  assumes G: "graph_ok G" and "acyclic (edges_of G y)" "knows G y (nodes_of G y)"
  shows "\<exists>Y. current_state G pc y = Some Y \<and> dom (map_of Y) = (\<Union>i \<in> nodes_of G y. created G y i)"
proof -
  have hs: "set (heads_global G y) \<subseteq> nodes_of G y"
    by (auto simp: heads_global_def graph_okD(15)[OF G])
  have known: "map_of (states y) h \<noteq> None" "dom (map_of (the (map_of (states y) h))) = created G y h"
    if "h \<in> set (heads_global G y)" for h
    using assms(3) hs that unfolding knows_def by fastforce+
  have "\<forall>h \<in> set (heads_global G y). map_of (states y) h \<noteq> None"
    using known(1) by blast
  from merge_states_dom[OF this, of pc] obtain Y where Y: "merge_states pc (states y) (heads_global G y) = Inr Y"
      "dom (map_of Y) = (\<Union>h \<in> set (heads_global G y). dom (map_of (the (map_of (states y) h))))"
    by auto
  have "dom (map_of Y) = (\<Union>h \<in> set (heads_global G y). created G y h)"
    unfolding Y(2) by (intro SUP_cong refl known(2))
  also have "\<dots> = (\<Union>i \<in> nodes_of G y. created G y i)"
  proof
    show "(\<Union>h \<in> set (heads_global G y). created G y h) \<subseteq> (\<Union>i \<in> nodes_of G y. created G y i)"
      using hs by (rule SUP_subset_mono) simp
    show "(\<Union>i \<in> nodes_of G y. created G y i) \<subseteq> (\<Union>h \<in> set (heads_global G y). created G y h)"
    proof (rule SUP_mono)
      fix i assume "i \<in> nodes_of G y"
      then obtain h where "h \<in> set (heads_global G y)" "(i, h) \<in> (edges_of G y)\<^sup>*"
        using head_above[OF G assms(2)] by blast
      then show "\<exists>h \<in> set (heads_global G y). created G y i \<subseteq> created G y h"
        using created_mono[of i h G y] by (intro bexI)
    qed
  qed
  finally show ?thesis
    using Y(1) by (simp add: current_state_def)
qed

lemma rebuild_required_total:
  assumes "graph_ok G" "crdt_ok G y"
  obtains hs where "heads G pc y (ao_required_groups o1) = Some hs"
    "rebuild_required G pc y o1 = Some (set hs \<noteq> set (ao_dependencies o1))"
proof -
  obtain Y where "current_state G pc y = Some Y"
    using current_state_total[OF assms(1), of y pc] assms(2) graph_wf_acyclic by (auto simp: crdt_ok_def)
  then show ?thesis
    using that by (auto simp: heads_def filtered_graph_def Let_def rebuild_required_def)
qed

lemma trimmed_graph_ok:
  assumes G: "graph_ok G"
  shows "set (g_nodes G (trimmed_graph G y hs)) = {n \<in> nodes_of G y. \<exists>h \<in> set hs. (n, h) \<in> (edges_of G y)\<^sup>*}"
    "g_edges G (trimmed_graph G y hs) = {(a, b) \<in> edges_of G y. \<exists>h \<in> set hs. (b, h) \<in> (edges_of G y)\<^sup>*}"
proof -
  show "set (g_nodes G (trimmed_graph G y hs)) = {n \<in> nodes_of G y. \<exists>h \<in> set hs. (n, h) \<in> (edges_of G y)\<^sup>*}"
    by (auto simp: trimmed_graph_def Let_def remove_nodes[OF G] graph_okD(11)[OF G])
  show "g_edges G (trimmed_graph G y hs) = {(a, b) \<in> edges_of G y. \<exists>h \<in> set hs. (b, h) \<in> (edges_of G y)\<^sup>*}"
    using graph_okD(2)[OF G, of "graph y"]
    by (auto simp: trimmed_graph_def Let_def remove_nodes[OF G] graph_okD(11)[OF G]
        intro: converse_rtrancl_into_rtrancl)
qed

lemma trimmed_created:
  assumes G: "graph_ok G" and i: "i \<in> set (g_nodes G (trimmed_graph G y hs))"
  shows "created G (y\<lparr>graph := trimmed_graph G y hs\<rparr>) i = created G y i"
proof -
  let ?E = "g_edges G (trimmed_graph G y hs)"
  have "(a, j) \<in> ?E\<^sup>*" if "(a, j) \<in> (edges_of G y)\<^sup>*" "\<exists>h \<in> set hs. (j, h) \<in> (edges_of G y)\<^sup>*" for a j
    using that
  proof (induction rule: rtrancl_induct)
    case (step b c)
    then have "(b, c) \<in> ?E" "\<exists>h \<in> set hs. (b, h) \<in> (edges_of G y)\<^sup>*"
      by (auto simp: trimmed_graph_ok[OF G] intro: converse_rtrancl_into_rtrancl)
    then show ?case
      using step.IH by (meson rtrancl_into_rtrancl)
  qed simp
  moreover have "?E \<subseteq> edges_of G y"
    by (auto simp: trimmed_graph_ok[OF G])
  from rtrancl_mono[OF this] have "?E\<^sup>* \<subseteq> (edges_of G y)\<^sup>*" .
  moreover have "\<exists>h \<in> set hs. (i, h) \<in> (edges_of G y)\<^sup>*"
    using i by (simp add: trimmed_graph_ok[OF G])
  ultimately have "(a, i) \<in> ?E\<^sup>* \<longleftrightarrow> (a, i) \<in> (edges_of G y)\<^sup>*" for a
    by blast
  then show ?thesis
    by (simp add: created_def creates_def)
qed

lemma trimmed_graph_wf:
  assumes G: "graph_ok G" and wf: "graph_wf G y"
  shows "graph_wf G (y\<lparr>graph := trimmed_graph G y hs\<rparr>)" (is "graph_wf G ?z")
proof -
  have dep: "d \<in> nodes_of G ?z" if i: "i \<in> nodes_of G ?z" and d: "d \<in> deps_of y i" for i d
  proof -
    have "(d, i) \<in> edges_of G y"
      using graph_wf_edges[OF wf] i d by (auto simp: trimmed_graph_ok[OF G])
    then show ?thesis
      using i graph_okD(2)[OF G, of "graph y"]
      by (auto simp: trimmed_graph_ok[OF G] intro: converse_rtrancl_into_rtrancl)
  qed
  have "\<exists>o1. map_of (operations ?z) i = Some o1 \<and> ao_id o1 = i \<and> set (ao_dependencies o1) \<subseteq> nodes_of G ?z \<and>
        (\<not> is_create (ao_action o1) \<longrightarrow> (\<exists>d \<in> set (ao_dependencies o1). ao_group o1 \<in> created G ?z d))"
    if i: "i \<in> nodes_of G ?z" for i
  proof -
    have "i \<in> nodes_of G y"
      using i by (simp add: trimmed_graph_ok[OF G])
    then obtain o1 where o1: "map_of (operations y) i = Some o1" "ao_id o1 = i"
        "set (ao_dependencies o1) = deps_of y i"
        "is_create (ao_action o1) \<or> (\<exists>d \<in> deps_of y i. ao_group o1 \<in> created G y d)"
      using graph_wfD[OF wf] by metis
    have "created G ?z d = created G y d" if "d \<in> deps_of y i" for d
      using trimmed_created[OF G, of d y hs] dep[OF i that] by simp
    then show ?thesis
      using o1 dep[OF i] by auto
  qed
  moreover have "edges_of G ?z = {(d, i). i \<in> nodes_of G ?z \<and> d \<in> deps_of ?z i}"
    using graph_wf_edges[OF wf] by (auto simp: trimmed_graph_ok[OF G] deps_of_def)
  moreover have "acyclic (edges_of G ?z)"
    using graph_wf_acyclic[OF wf] by (rule acyclic_subset) (auto simp: trimmed_graph_ok[OF G])
  ultimately show ?thesis
    unfolding graph_wf_def by blast
qed

lemma rebuild_at_total:
  assumes G: "graph_ok G" and D: "digraph_ok D" and wf: "graph_wf G y" and hs: "set hs \<subseteq> nodes_of G y"
  obtains z Y where "rebuild_at G D pc y hs = Some z" "current_state G pc z = Some Y"
    "dom (map_of Y) = (\<Union>h \<in> set hs. created G y h)" "ignore z \<subseteq> dom (map_of (operations y))"
proof -
  let ?z = "y\<lparr>graph := trimmed_graph G y hs\<rparr>"
  obtain z where z: "rebuild_at G D pc y hs = Some z" "same_graph ?z z" "knows G z (nodes_of G ?z)" "filters_ok z"
    using resolver_process_total[OF G D trimmed_graph_wf[OF G wf]] unfolding rebuild_at_def by metis
  have eq: "graph z = trimmed_graph G y hs" "operations z = operations y"
    using z(2) by (simp_all add: same_graph_def)
  have "graph_wf G z"
    using trimmed_graph_wf[OF G wf] graph_wf_same[OF z(2)] by blast
  moreover have "created G z = created G ?z"
    by (rule knows_cong) (simp_all add: eq)
  ultimately obtain Y where Y: "current_state G pc z = Some Y"
      "dom (map_of Y) = (\<Union>i \<in> nodes_of G ?z. created G ?z i)"
    using current_state_total[OF G graph_wf_acyclic, of z pc] z(3) eq by auto
  have "(\<Union>i \<in> nodes_of G ?z. created G ?z i) = (\<Union>i \<in> nodes_of G ?z. created G y i)"
    using trimmed_created[OF G, of _ y hs] by (intro SUP_cong) auto
  also have "\<dots> = (\<Union>h \<in> set hs. created G y h)"
    using created_mono[of _ _ G y] hs by (fastforce simp: trimmed_graph_ok[OF G])
  finally have "dom (map_of Y) = (\<Union>h \<in> set hs. created G y h)"
    using Y(2) by simp
  then show ?thesis
    using that z(1,4) Y(1) eq(2) by (simp add: filters_ok_def)
qed

lemma add_operation_graph:
  assumes G: "graph_ok G" and deps: "set (ao_dependencies o1) \<subseteq> nodes_of G y"
  shows "nodes_of G (add_operation G y o1) = insert (ao_id o1) (nodes_of G y)"
    "edges_of G (add_operation G y o1) = edges_of G y \<union> set (ao_dependencies o1) \<times> {ao_id o1}"
    "operations (add_operation G y o1) = amap_insert (ao_id o1) o1 (operations y)"
    "states (add_operation G y o1) = states y"
proof -
  have "set (g_nodes G (fold (\<lambda>d. g_add_edge G d i) ds g)) = set (g_nodes G g) \<union> set ds \<union> (if ds = [] then {} else {i})"
    for i ds g by (induction ds arbitrary: g) (auto simp: graph_okD(6)[OF G])
  moreover have "g_edges G (fold (\<lambda>d. g_add_edge G d i) ds g) = g_edges G g \<union> set ds \<times> {i}" for i ds g
    by (induction ds arbitrary: g) (auto simp: graph_okD(7)[OF G])
  ultimately show "nodes_of G (add_operation G y o1) = insert (ao_id o1) (nodes_of G y)"
    "edges_of G (add_operation G y o1) = edges_of G y \<union> set (ao_dependencies o1) \<times> {ao_id o1}"
    using deps by (auto simp: add_operation_def graph_okD(4,5)[OF G])
qed (simp_all add: add_operation_def)

lemma add_operation_created:
  assumes G: "graph_ok G" and deps: "set (ao_dependencies o1) \<subseteq> nodes_of G y"
    and new: "ao_id o1 \<notin> nodes_of G y" and i: "i \<in> nodes_of G y"
  shows "created G (add_operation G y o1) i = created G y i"
proof -
  let ?E = "edges_of G (add_operation G y o1)"
  have nodes: "edges_of G y \<subseteq> nodes_of G y \<times> nodes_of G y"
    by (rule graph_okD(2)[OF G])
  have "c \<in> nodes_of G y \<Longrightarrow> (a, c) \<in> (edges_of G y)\<^sup>* \<and> a \<in> nodes_of G y" if "(a, c) \<in> ?E\<^sup>*" for a c
    using that
  proof (induction rule: rtrancl_induct)
    case (step b c)
    then have "(b, c) \<in> edges_of G y"
      using new by (auto simp: add_operation_graph[OF G deps])
    then show ?case
      using step.IH nodes by (blast intro: rtrancl_into_rtrancl)
  qed simp
  moreover have "(edges_of G y)\<^sup>* \<subseteq> ?E\<^sup>*"
    by (rule rtrancl_mono) (auto simp: add_operation_graph[OF G deps])
  moreover have "creates (add_operation G y o1) a g \<longleftrightarrow> creates y a g" if "a \<in> nodes_of G y" for a g
    using that new by (auto simp: creates_def add_operation_graph[OF G deps])
  ultimately show ?thesis
    using i unfolding created_def by blast
qed

lemma add_operation_deps_created:
  assumes "graph_ok G" "set (ao_dependencies o1) \<subseteq> nodes_of G y" "ao_id o1 \<notin> nodes_of G y"
  shows "(\<Union>d \<in> set (ao_dependencies o1). created G (add_operation G y o1) d) =
         (\<Union>d \<in> set (ao_dependencies o1). created G y d)"
  using assms(2) by (intro SUP_cong refl add_operation_created[OF assms]) blast

lemma add_operation_acyclic:
  assumes G: "graph_ok G" and deps: "set (ao_dependencies o1) \<subseteq> nodes_of G y"
    and new: "ao_id o1 \<notin> nodes_of G y" and ac: "acyclic (edges_of G y)"
  shows "acyclic (edges_of G (add_operation G y o1))"
proof -
  let ?E = "edges_of G (add_operation G y o1)"
  have dom: "a \<in> nodes_of G y" if "(a, b) \<in> ?E" for a b
    using that deps graph_okD(2)[OF G, of "graph y"] by (auto simp: add_operation_graph[OF G deps])
  have "b \<in> nodes_of G y \<Longrightarrow> (a, b) \<in> (edges_of G y)\<^sup>+" if "(a, b) \<in> ?E\<^sup>+" for a b
    using that
  proof (induction rule: trancl_induct)
    case (base b)
    then show ?case
      using new by (auto simp: add_operation_graph[OF G deps])
  next
    case (step b c)
    then show ?case
      using new dom[OF step.hyps(2)] by (auto simp: add_operation_graph[OF G deps] intro: trancl_into_trancl)
  qed
  then show ?thesis
    using ac dom unfolding acyclic_def by (meson tranclD)
qed

lemma add_operation_wf:
  assumes G: "graph_ok G" and ok: "crdt_ok G y" and deps: "set (ao_dependencies o1) \<subseteq> nodes_of G y"
    and new: "ao_id o1 \<notin> nodes_of G y"
    and known: "is_create (ao_action o1) \<or> (\<exists>d \<in> set (ao_dependencies o1). ao_group o1 \<in> created G y d)"
  shows "graph_wf G (add_operation G y o1)" "knows G (add_operation G y o1) (nodes_of G y)"
    "dom (map_of (operations (add_operation G y o1))) = nodes_of G (add_operation G y o1)"
proof -
  let ?y = "add_operation G y o1"
  note g = add_operation_graph[OF G deps] and c = add_operation_created[OF G deps new]
  have wf: "graph_wf G y" and k: "knows G y (nodes_of G y)" and d: "dom (map_of (operations y)) = nodes_of G y"
    using ok by (auto simp: crdt_ok_def)
  show "knows G ?y (nodes_of G y)"
    using k c unfolding knows_def g(4) by auto
  show "dom (map_of (operations ?y)) = nodes_of G ?y"
    using d unfolding g(1,3) by auto
  have "\<exists>o2. map_of (operations ?y) i = Some o2 \<and> ao_id o2 = i \<and> set (ao_dependencies o2) \<subseteq> nodes_of G ?y \<and>
        (\<not> is_create (ao_action o2) \<longrightarrow> (\<exists>d \<in> set (ao_dependencies o2). ao_group o2 \<in> created G ?y d))"
    if "i \<in> nodes_of G ?y" for i
  proof (cases "i = ao_id o1")
    case True
    then show ?thesis
      using known deps c unfolding g(1,3) by auto
  next
    case False
    with that have "i \<in> nodes_of G y"
      unfolding g(1) by simp
    from graph_wfD[OF wf this] obtain o2 where "map_of (operations y) i = Some o2" "ao_id o2 = i"
        "set (ao_dependencies o2) \<subseteq> nodes_of G y"
        "is_create (ao_action o2) \<or> (\<exists>d \<in> set (ao_dependencies o2). ao_group o2 \<in> created G y d)"
      by metis
    with False show ?thesis
      using c unfolding g(1,3) by auto
  qed
  moreover have "edges_of G ?y = {(d, i). i \<in> nodes_of G ?y \<and> d \<in> deps_of ?y i}"
    using graph_wf_edges[OF wf] new graph_okD(2)[OF G, of "graph y"] unfolding g(1,2)
    by (auto simp: deps_of_def g(3))
  ultimately show "graph_wf G ?y"
    using add_operation_acyclic[OF G deps new graph_wf_acyclic[OF wf]] unfolding graph_wf_def by blast
qed

lemma check_action_result:
  assumes "ao_id o1 \<notin> ignored"
  shows "check_action Y ignored o1 = Inl Panicked \<longleftrightarrow> \<not> is_create (ao_action o1) \<and> map_of Y (ao_group o1) = None"
  using assms
  by (cases "is_create (ao_action o1)"; cases "map_of Y (ao_group o1)")
     (auto simp: check_action_def apply_action_def split: sum.splits)

lemma check_cycle_no_panic:
  assumes "graph_ok G" "crdt_ok G y"
  shows "check_cycle G pc y o1 \<noteq> Inl Panicked"
proof -
  obtain Y where "current_state G pc y = Some Y"
    using current_state_total[OF assms(1), of y pc] assms(2) graph_wf_acyclic by (auto simp: crdt_ok_def)
  then show ?thesis
    by (auto simp: check_cycle_def expect_def split: group_action.splits group_member.splits)
qed

lemma validate_state:
  assumes G: "graph_ok G" and D: "digraph_ok D" and ok: "crdt_ok G y"
    and deps: "set (ao_dependencies o1) \<subseteq> nodes_of G y"
    and hs: "heads G pc y (ao_required_groups o1) = Some hs" and new: "ao_id o1 \<notin> nodes_of G y"
  obtains Y ignored where "ao_id o1 \<notin> ignored"
    "(\<Union>d \<in> set (ao_dependencies o1). created G y d) \<subseteq> dom (map_of Y)"
    "set hs \<noteq> set (ao_dependencies o1) \<Longrightarrow> dom (map_of Y) = (\<Union>d \<in> set (ao_dependencies o1). created G y d)"
    "crdt_validate G D pc y o1 =
       (case manager_group (ao_action o1) of Some g \<Rightarrow> Inl (ManagerGroupsNotAllowed g)
        | None \<Rightarrow> bind_result (check_cycle G pc y o1) (\<lambda>_. check_action Y ignored o1))"
proof -
  have wf: "graph_wf G y" and k: "knows G y (nodes_of G y)" and f: "filters_ok y"
    and d: "dom (map_of (operations y)) = nodes_of G y"
    using ok by (auto simp: crdt_ok_def)
  have None: "map_of (operations y) (ao_id o1) = None"
    using new d by auto
  show ?thesis
  proof (cases "set hs = set (ao_dependencies o1)")
    case True
    obtain Y where Y: "current_state G pc y = Some Y" "dom (map_of Y) = (\<Union>i \<in> nodes_of G y. created G y i)"
      using current_state_total[OF G graph_wf_acyclic[OF wf] k, of pc] by metis
    have v: "crdt_validate G D pc y o1 =
       (case manager_group (ao_action o1) of Some g \<Rightarrow> Inl (ManagerGroupsNotAllowed g)
        | None \<Rightarrow> bind_result (check_cycle G pc y o1) (\<lambda>_. check_action Y (ignore y) o1))"
      by (simp add: crdt_validate_def expect_def None hs True Y(1) cong: option.case_cong)
    have "ao_id o1 \<notin> ignore y" "(\<Union>d \<in> set (ao_dependencies o1). created G y d) \<subseteq> dom (map_of Y)"
      using f d new deps unfolding filters_ok_def Y(2) by blast+
    then show ?thesis
      using True by (intro that[OF _ _ _ v]) simp_all
  next
    case False
    obtain z Y where z: "rebuild_at G D pc y (remdups (ao_dependencies o1)) = Some z" "current_state G pc z = Some Y"
        "dom (map_of Y) = (\<Union>h \<in> set (ao_dependencies o1). created G y h)" "ignore z \<subseteq> dom (map_of (operations y))"
      using rebuild_at_total[OF G D wf, of "remdups (ao_dependencies o1)" pc] deps unfolding set_remdups by metis
    have v: "crdt_validate G D pc y o1 =
       (case manager_group (ao_action o1) of Some g \<Rightarrow> Inl (ManagerGroupsNotAllowed g)
        | None \<Rightarrow> bind_result (check_cycle G pc y o1) (\<lambda>_. check_action Y (ignore z) o1))"
      using False by (simp add: crdt_validate_def expect_def None hs z(1,2) cong: option.case_cong)
    have "ao_id o1 \<notin> ignore z"
      using z(4) d new by blast
    then show ?thesis
      by (rule that[OF _ _ _ v]) (simp_all add: z(3))
  qed
qed

lemma process_rebuilt:
  assumes G: "graph_ok G" and D: "digraph_ok D" and ok: "crdt_ok G y"
    and deps: "set (ao_dependencies o1) \<subseteq> nodes_of G y" and new: "ao_id o1 \<notin> nodes_of G y"
    and known: "is_create (ao_action o1) \<or> (\<exists>d \<in> set (ao_dependencies o1). ao_group o1 \<in> created G y d)"
  shows "\<exists>y'. resolver_process G D pc (add_operation G y o1) = Some y' \<and> crdt_ok G y' \<and>
              operations y' = amap_insert (ao_id o1) o1 (operations y)"
proof -
  let ?y = "add_operation G y o1"
  note a = add_operation_wf[OF G ok deps new known]
  from resolver_process_total[OF G D a(1), of pc] obtain y' where
    y': "resolver_process G D pc ?y = Some y'" "same_graph ?y y'" "knows G y' (nodes_of G ?y)" "filters_ok y'"
    by metis
  have "operations y' = operations ?y" "graph y' = graph ?y"
    using y'(2) by (simp_all add: same_graph_def)
  then show ?thesis
    using y' a graph_wf_same[OF y'(2)] add_operation_graph(3)[OF G deps] by (simp add: crdt_ok_def)
qed

lemma process_direct:
  assumes G: "graph_ok G" and ok: "crdt_ok G y"
    and deps: "set (ao_dependencies o1) \<subseteq> nodes_of G y" and new: "ao_id o1 \<notin> nodes_of G y"
    and known: "is_create (ao_action o1) \<or> (\<exists>d \<in> set (ao_dependencies o1). ao_group o1 \<in> created G y d)"
    and Y: "dom (map_of Y) = (\<Union>d \<in> set (ao_dependencies o1). created G y d)"
    and r: "dom (map_of Y') = insert (ao_group o1) (dom (map_of Y))"
  shows "crdt_ok G ((add_operation G y o1)\<lparr>states := amap_insert (ao_id o1) Y' (states (add_operation G y o1))\<rparr>)"
    (is "crdt_ok G (?a\<lparr>states := _\<rparr>)")
proof -
  let ?y = "?a\<lparr>states := amap_insert (ao_id o1) Y' (states ?a)\<rparr>"
  note a = add_operation_wf[OF G ok deps new known] and g = add_operation_graph[OF G deps]
  have same: "same_graph ?a ?y"
    by (simp add: same_graph_def)
  have cr: "created G ?y = created G ?a"
    by (rule knows_cong) simp_all
  have "deps_of ?a (ao_id o1) = set (ao_dependencies o1)" "creates ?a (ao_id o1) g \<longleftrightarrow> is_create (ao_action o1) \<and> g = ao_group o1" for g
    by (auto simp: deps_of_def creates_def g(3))
  moreover have "ao_id o1 \<in> nodes_of G ?a"
    by (simp add: g(1))
  ultimately have "created G ?a (ao_id o1) = (if is_create (ao_action o1) then {ao_group o1} else {}) \<union> dom (map_of Y)"
    using created_step[OF a(1), of "ao_id o1"] unfolding Y add_operation_deps_created[OF G deps new, symmetric] by auto
  also have "\<dots> = dom (map_of Y')"
    using known unfolding r Y by auto
  finally have "knows G ?y (nodes_of G ?y)"
    using a(2) by (auto simp: knows_def cr g(1))
  moreover have "filters_ok ?y"
  proof -
    have "map_of (operations y) (ao_id o1) = None"
      using ok new by (auto simp: crdt_ok_def)
    then show ?thesis
      using ok unfolding crdt_ok_def filters_ok_def by (fastforce simp: g(3) add_operation_def)
  qed
  ultimately show ?thesis
    using a(3) graph_wf_same[OF same] a(1) by (simp add: crdt_ok_def)
qed

definition process_post ::
  "('g, 'op) graph_api \<Rightarrow> ('g, 'id, 'op, 'c) inner_state \<Rightarrow> ('id, 'op, 'c) auth_operation \<Rightarrow>
   ('id, 'op) crdt_error + ('g, 'id, 'op, 'c) inner_state \<Rightarrow> bool" where
  "process_post G y o1 r =
     (case r of
        Inr y' \<Rightarrow> crdt_ok G y' \<and> operations y' = amap_insert (ao_id o1) o1 (operations y)
      | Inl e \<Rightarrow> e = Panicked \<longrightarrow>
          \<not> is_create (ao_action o1) \<and> (\<forall>d \<in> set (ao_dependencies o1). ao_group o1 \<notin> created G y d))"

lemma process_validated:
  assumes G: "graph_ok G" and D: "digraph_ok D" and ok: "crdt_ok G y"
    and deps: "set (ao_dependencies o1) \<subseteq> nodes_of G y" and new: "ao_id o1 \<notin> nodes_of G y"
    and valid: "rebuild \<Longrightarrow> is_create (ao_action o1) \<or> (\<exists>d \<in> set (ao_dependencies o1). ao_group o1 \<in> created G y d)"
  shows "process_post G y o1
    (let y = add_operation G y o1
     in if rebuild then expect (resolver_process G D pc y)
        else bind_result
               (case state_at pc y (ao_dependencies o1) of
                  Inl ids \<Rightarrow> Inl (StatesNotFound ids)
                | Inr Y \<Rightarrow> Inr Y) (\<lambda>Y.
             if \<not> is_create (ao_action o1) \<and> map_of Y (ao_group o1) = None
             then Inl (UnknownGroup (ao_group o1))
             else bind_result
                    (expect (apply_action Y (ao_group o1) (ao_id o1) (ao_author o1) (ao_action o1) (ignore y)))
                    (\<lambda>r. Inr (y\<lparr>states := amap_insert (ao_id o1) (changed_state r) (states y)\<rparr>))))"
proof (cases rebuild)
  case True
  then show ?thesis
    using process_rebuilt[OF G D ok deps new valid[OF True], of pc] by (auto simp: process_post_def expect_def)
next
  case False
  let ?a = "add_operation G y o1"
  note g = add_operation_graph[OF G deps]
  have "knows G ?a (set (ao_dependencies o1))"
    using ok deps add_operation_created[OF G deps new] unfolding crdt_ok_def knows_def g(4) by auto
  from state_at_known[OF this, of pc] obtain Y where Y: "state_at pc ?a (ao_dependencies o1) = Inr Y"
      "dom (map_of Y) = (\<Union>d \<in> set (ao_dependencies o1). created G y d)"
    unfolding add_operation_deps_created[OF G deps new] by metis
  show ?thesis
  proof (cases "is_create (ao_action o1) \<or> map_of Y (ao_group o1) \<noteq> None")
    case True
    then have known: "is_create (ao_action o1) \<or> (\<exists>d \<in> set (ao_dependencies o1). ao_group o1 \<in> created G y d)"
      using Y(2) by (auto simp: dom_def)
    obtain r where r: "apply_action Y (ao_group o1) (ao_id o1) (ao_author o1) (ao_action o1) (ignore ?a) = Some r"
        "dom (map_of (changed_state r)) = insert (ao_group o1) (dom (map_of Y))"
      using apply_action_dom[OF True] by metis
    show ?thesis
      using process_direct[OF G ok deps new known Y(2) r(2)] False True Y(1) r(1)
      by (auto simp: process_post_def expect_def g(3) Let_def)
  next
    case no: False
    then show ?thesis
      using False Y(1) by (simp add: process_post_def Let_def)
  qed
qed

lemma crdt_process_post:
  assumes G: "graph_ok G" and D: "digraph_ok D" and ok: "crdt_ok G y"
  shows "process_post G y o1 (crdt_process G D pc y o1)"
proof (cases "missing_dependency y o1")
  case (Some d)
  then show ?thesis
    by (simp add: crdt_process_def process_post_def)
next
  case None
  have d: "dom (map_of (operations y)) = nodes_of G y"
    using ok by (simp add: crdt_ok_def)
  then have deps: "set (ao_dependencies o1) \<subseteq> nodes_of G y"
    using None by (auto simp: missing_dependency_def find_None_iff)
  obtain hs where hs: "heads G pc y (ao_required_groups o1) = Some hs"
      "rebuild_required G pc y o1 = Some (set hs \<noteq> set (ao_dependencies o1))"
    using rebuild_required_total[OF G ok] by blast
  show ?thesis
  proof (cases "ao_id o1 \<in> nodes_of G y")
    case True
    then have "map_of (operations y) (ao_id o1) \<noteq> None"
      using d by auto
    then show ?thesis
      using None hs(2) by (simp add: crdt_process_def process_post_def expect_def crdt_validate_def)
  next
    case new: False
    obtain Y ignored where Y: "ao_id o1 \<notin> ignored"
        "(\<Union>d \<in> set (ao_dependencies o1). created G y d) \<subseteq> dom (map_of Y)"
        "set hs \<noteq> set (ao_dependencies o1) \<Longrightarrow> dom (map_of Y) = (\<Union>d \<in> set (ao_dependencies o1). created G y d)"
        "crdt_validate G D pc y o1 =
           (case manager_group (ao_action o1) of Some g \<Rightarrow> Inl (ManagerGroupsNotAllowed g)
            | None \<Rightarrow> bind_result (check_cycle G pc y o1) (\<lambda>_. check_action Y ignored o1))"
      using validate_state[OF G D ok deps hs(1) new] by metis
    show ?thesis
    proof (cases "crdt_validate G D pc y o1")
      case (Inl e)
      have "\<not> is_create (ao_action o1) \<and> (\<forall>d \<in> set (ao_dependencies o1). ao_group o1 \<notin> created G y d)"
        if "e = Panicked"
      proof -
        have "check_action Y ignored o1 = Inl Panicked"
          using that Inl Y(4) check_cycle_no_panic[OF G ok, of pc o1] by (auto simp: bind_result_eq_Inl split: option.splits)
        then show ?thesis
          using check_action_result[OF Y(1), of Y] subsetD[OF Y(2), of "ao_group o1"] by (auto simp: dom_def)
      qed
      then show ?thesis
        using None hs(2) Inl by (simp add: crdt_process_def process_post_def expect_def)
    next
      case (Inr u)
      then have "is_create (ao_action o1) \<or> map_of Y (ao_group o1) \<noteq> None"
        using Y(4) check_action_result[OF Y(1), of Y] by (auto simp: bind_result_eq_Inr split: option.splits)
      then have "is_create (ao_action o1) \<or> (\<exists>d \<in> set (ao_dependencies o1). ao_group o1 \<in> created G y d)"
        if "set hs \<noteq> set (ao_dependencies o1)"
        using Y(3)[OF that] by (auto simp: dom_def)
      from process_validated[OF G D ok deps new this, where pc = pc] show ?thesis
        unfolding crdt_process_def None hs(2) Inr
        by (simp only: expect_def option.case bind_result_Inr)
    qed
  qed
qed

lemma crdt_ok_default: "graph_ok G \<Longrightarrow> crdt_ok G (inner_default G)"
  using graph_okD(2)[of G "g_empty G"] graph_okD(3)[of G]
  by (auto simp: crdt_ok_def inner_default_def graph_wf_def knows_def filters_ok_def acyclic_def)

subsection \<open>Properties\<close>

text \<open>
  C8. The strong-remove filter is exact. For a bubble of a well-formed operation graph
  \<open>compute_filter\<close> succeeds; the operations it ignores are those operations of the bubble that are
  concurrent to a removal or demotion in the same group and are authored by the removed member or
  re-add it; the mutual removes are the removals and demotions that lie on a cycle of the group's
  authority graph. Nothing else of the state changes.
\<close>
theorem strong_remove_filter_exact:
  assumes "graph_ok G" "digraph_ok D" "cache_ok G ag" "graph_wf G y" "set bubble \<subseteq> set (g_nodes G (graph y))"
  shows "compute_filter G D y bubble ag =
    Some (y\<lparr>ignore := {i \<in> set bubble. \<exists>r \<in> set bubble. suppresses G y r i},
            mutual_removes := {r \<in> set bubble. mutual_remove G y ag r}\<rparr>)"
  using assms by (rule compute_filter_eq)

definition example_operations :: "(nat, (nat, nat, nat) auth_operation) amap" where
  "example_operations =
     [(0, \<lparr>ao_id = 0, ao_author = 10, ao_dependencies = [], ao_group = 7,
           ao_action = Create [(Individual 10, access_manage), (Individual 11, access_manage)]\<rparr>),
      (1, \<lparr>ao_id = 1, ao_author = 10, ao_dependencies = [0], ao_group = 7, ao_action = Remove (Individual 11)\<rparr>),
      (2, \<lparr>ao_id = 2, ao_author = 11, ao_dependencies = [0], ao_group = 7,
           ao_action = Add (Individual 12) access_read\<rparr>)]"

definition example_inner :: "(nat list_graph, nat, nat, nat) inner_state" where
  "example_inner = (inner_default list_graph)\<lparr>operations := example_operations, graph := ([0, 1, 2], [(0, 1), (0, 2)])\<rparr>"

lemma example_inner_graph:
  "set (g_nodes list_graph (graph example_inner)) = {0, 1, 2}"
  "g_edges list_graph (graph example_inner) = {(0, 1), (0, 2)}"
  by (auto simp: example_inner_def list_graph_def g_edges_def lg_edges_def)

lemma example_conc: "(1, 2) \<in> conc list_graph (graph example_inner)"
proof -
  have "(1, 2) \<notin> {(0, 1), (0, 2 :: nat)}\<^sup>*" "(2, 1) \<notin> {(0, 1), (0, 2 :: nat)}\<^sup>*"
    by (auto elim: converse_rtranclE)
  then show ?thesis
    unfolding conc_def example_inner_graph by simp
qed

lemma example_inner_wf: "graph_wf list_graph example_inner"
proof -
  have ops: "operations example_inner = example_operations"
    by (simp add: example_inner_def)
  have "7 \<in> created list_graph example_inner 0"
    unfolding created_def creates_def ops by (auto simp: example_operations_def is_create_def intro!: exI[of _ 0])
  moreover have "acyclic {(0, 1), (0, 2 :: nat)}"
    by (rule acyclic_subset[OF wf_acyclic[OF wf_less_than]]) auto
  moreover have "{(0, 1), (0, 2)} = {(d, i). i \<in> {0, 1, 2} \<and> d \<in> deps_of example_inner i}"
    unfolding deps_of_def ops by (auto simp: example_operations_def)
  ultimately show ?thesis
    unfolding graph_wf_def example_inner_graph ops
    by (intro conjI) (simp_all only:, simp add: example_operations_def is_create_def)
qed

theorem strong_remove_filter_exact_witness:
  "\<exists>y'. compute_filter list_graph list_digraph example_inner [1, 2] (authority_new (graph example_inner)) = Some y' \<and>
        ignore y' = {2}"
proof -
  let ?y = example_inner
  note C = strong_remove_filter_exact[OF graph_ok_list_graph digraph_ok_list_digraph cache_ok_new example_inner_wf,
      of "[1, 2]" "graph ?y"]
  have ops: "operations ?y = example_operations"
    by (simp add: example_inner_def)
  have "suppresses list_graph ?y 1 2"
    using example_conc unfolding suppresses_def ops
    by (simp add: example_operations_def removed_or_demoted_manager_def member_id_def)
  moreover have "\<not> suppresses list_graph ?y r 1" for r
    unfolding suppresses_def ops by (auto simp: example_operations_def removed_or_demoted_manager_def is_manage_def member_id_def)
  ultimately show ?thesis
    using C unfolding example_inner_graph by auto
qed

text \<open>
  C7. The resolver always returns. On every well-formed operation graph it completes without a
  panic, leaves operations and graph alone, and afterwards every operation of the graph has a state,
  whose groups are exactly those created by the operation or its ancestors.
\<close>
theorem resolver_completes:
  assumes "graph_ok G" "digraph_ok D" "graph_wf G y"
  shows "\<exists>y'. resolver_process G D pc y = Some y' \<and> operations y' = operations y \<and> graph y' = graph y \<and>
    (\<forall>i \<in> set (g_nodes G (graph y)).
       \<exists>Y. map_of (states y') i = Some Y \<and> dom (map_of Y) = created G y i)"
proof -
  obtain y' where y': "resolver_process G D pc y = Some y'" "same_graph y y'" "knows G y' (nodes_of G y)"
    using resolver_process_total[OF assms, of pc] by metis
  then have "created G y' = created G y" "operations y' = operations y" "graph y' = graph y"
    by (auto simp: same_graph_def intro: knows_cong)
  then show ?thesis
    using y'(1,3) unfolding knows_def by auto
qed

theorem resolver_completes_witness:
  "\<exists>y'. resolver_process list_graph list_digraph (\<lambda>_ _. None) example_inner = Some y' \<and>
        map_of (states y') 2 \<noteq> None"
proof -
  have "2 \<in> set (g_nodes list_graph (graph example_inner))"
    unfolding example_inner_graph by simp
  then show ?thesis
    using resolver_completes[OF graph_ok_list_graph digraph_ok_list_digraph example_inner_wf, of "\<lambda>_ _. None"] by fastforce
qed

text \<open>
  C1. Whatever operations arrive, valid or not and in any order, the state of the group CRDT stays
  well formed: its graph holds exactly the accepted operations with their dependencies as edges and
  is acyclic, every operation but a create depends on one that knows its group, and every operation
  has a state. An operation that is rejected leaves the state as it is.
\<close>
theorem group_crdt_invariant:
  assumes "graph_ok G" "digraph_ok D"
  shows "crdt_ok G (fold (\<lambda>o1 y. case crdt_process G D pc y o1 of Inr y' \<Rightarrow> y' | Inl _ \<Rightarrow> y) ops (inner_default G))"
proof -
  have "crdt_ok G (fold (\<lambda>o1 y. case crdt_process G D pc y o1 of Inr y' \<Rightarrow> y' | Inl _ \<Rightarrow> y) ops y)"
    if "crdt_ok G y" for y
    using that
  proof (induction ops arbitrary: y)
    case (Cons o1 ops)
    have "crdt_ok G (case crdt_process G D pc y o1 of Inr y' \<Rightarrow> y' | Inl _ \<Rightarrow> y)"
      using Cons.prems crdt_process_post[OF assms Cons.prems, of o1 pc] by (auto simp: process_post_def split: sum.splits)
    then show ?case
      using Cons.IH by simp
  qed simp
  then show ?thesis
    using crdt_ok_default[OF assms(1)] .
qed

theorem group_crdt_invariant_witness:
  "crdt_ok list_graph
     (fold (\<lambda>o1 y. case crdt_process list_graph list_digraph (\<lambda>_ _. None) y o1 of Inr y' \<Rightarrow> y' | Inl _ \<Rightarrow> y)
        (map snd example_operations) (inner_default list_graph))"
  by (rule group_crdt_invariant[OF graph_ok_list_graph digraph_ok_list_digraph])

text \<open>
  C34. Processing an operation panics only when the operation is not a create and none of its
  dependencies knows its group; when it succeeds the new state is well formed and holds exactly one
  operation more.
\<close>
theorem crdt_process_panic_only_unknown_group:
  assumes "graph_ok G" "digraph_ok D" "crdt_ok G y"
  shows "(crdt_process G D pc y o1 = Inl Panicked \<longrightarrow>
            \<not> is_create (ao_action o1) \<and> (\<forall>d \<in> set (ao_dependencies o1). ao_group o1 \<notin> created G y d)) \<and>
         (crdt_process G D pc y o1 = Inr y' \<longrightarrow>
            crdt_ok G y' \<and> operations y' = amap_insert (ao_id o1) o1 (operations y))"
  using crdt_process_post[OF assms, of o1 pc] by (auto simp: process_post_def)

theorem crdt_process_panic_only_unknown_group_witness:
  "crdt_process list_graph list_digraph (\<lambda>_ _. None) (inner_default list_graph) (the (map_of example_operations 0))
     \<noteq> Inl Panicked"
  using crdt_process_panic_only_unknown_group[OF graph_ok_list_graph digraph_ok_list_digraph
      crdt_ok_default[OF graph_ok_list_graph], of "\<lambda>_ _. None" "the (map_of example_operations 0)"]
  by (auto simp: example_operations_def is_create_def)

text \<open>
  The panic happens: on an empty state the removal of a member from a group nobody has created is
  not rejected with \<open>UnknownGroup\<close>; validation reaches the \<open>expect\<close> of \<open>apply_action\<close> first.
\<close>
lemma unknown_group_panics:
  fixes G :: "('g, 'op) graph_api" and o1 :: "('id, 'op, 'c) auth_operation"
  assumes "graph_ok G" "ao_dependencies o1 = []" "ao_action o1 = Remove m"
  shows "crdt_process G D pc (inner_default G) o1 = Inl Panicked"
proof -
  let ?y = "inner_default G :: ('g, 'id, 'op, 'c) inner_state"
  have hs: "g_externals G (g_empty G) = []"
    using graph_okD(15)[OF assms(1), of "g_empty G"] graph_okD(3)[OF assms(1)] by simp
  have cur: "current_state G pc ?y = Some []"
    by (simp add: current_state_def heads_global_def inner_default_def merge_states_def hs)
  have "heads G pc ?y gs = Some []" for gs
    unfolding heads_def filtered_graph_def cur by (simp add: Let_def inner_default_def hs)
  moreover have "map_of (operations ?y) i = None" "ignore ?y = {}" for i
    by (simp_all add: inner_default_def)
  ultimately show ?thesis
    using cur assms(2,3)
    by (simp add: crdt_process_def missing_dependency_def rebuild_required_def expect_def crdt_validate_def
        manager_group_def check_cycle_def check_action_def apply_action_def is_create_def)
qed

lemma unknown_group_panics_example:
  "crdt_process list_graph list_digraph (\<lambda>_ _. None) (inner_default list_graph)
     \<lparr>ao_id = 1 :: nat, ao_author = 10 :: nat, ao_dependencies = [], ao_group = 7,
      ao_action = Remove (Individual 11) :: (nat, nat) group_action\<rparr> = Inl Panicked"
  by (rule unknown_group_panics[OF graph_ok_list_graph]) simp_all

end
