(* ===== verification/Stream_Orderer.thy ===== *)
theory Stream_Orderer
  imports Prelude
begin

section \<open>Causal orderer\<close>

text \<open>
  \<open>p2panda-stream/src/orderer/orderer.rs\<close> and \<open>processor.rs\<close>. The trait \<open>OrdererStore\<close> is the record
  \<open>orderer_store\<close>; every operation takes the store's state and returns the new one. Errors of the
  database are not modelled. \<open>process_pending\<close> recurses along the pending items and runs forever when
  they form a cycle, so it takes a bound on the recursion depth and returns \<open>None\<close> when the bound is
  reached. The locale \<open>orderer_store_contract\<close> states what the trait promises, in terms of the queue,
  the ready items and the pending items, and the lemmas on the orderer are proved from it.
\<close>

record ('s, 'id) orderer_store =
  os_mark_ready :: "'s \<Rightarrow> 'id \<Rightarrow> 's \<times> bool"
  os_mark_pending :: "'s \<Rightarrow> 'id \<Rightarrow> 'id list \<Rightarrow> 's \<times> bool"
  os_get_next_pending :: "'s \<Rightarrow> 'id \<Rightarrow> ('id \<times> 'id list) list option"
  os_take_next_ready :: "'s \<Rightarrow> 's \<times> 'id option"
  os_remove_pending :: "'s \<Rightarrow> 'id \<Rightarrow> 's \<times> bool"
  os_ready :: "'s \<Rightarrow> 'id list \<Rightarrow> bool"

subsection \<open>The orderer\<close>

definition causal_next :: "('s, 'id) orderer_store \<Rightarrow> 's \<Rightarrow> 's \<times> 'id option" where
  "causal_next S st = os_take_next_ready S st"

fun process_pending :: "('s, 'id) orderer_store \<Rightarrow> nat \<Rightarrow> 's \<Rightarrow> 'id \<Rightarrow> 's option" where
  "process_pending S 0 st key = None"
| "process_pending S (Suc n) st key =
     (case os_get_next_pending S st key of
        None \<Rightarrow> Some st
      | Some dependents \<Rightarrow>
          map_option (\<lambda>st. fst (os_remove_pending S st key))
            (fold (\<lambda>(next_key, next_deps) acc.
               case acc of
                 None \<Rightarrow> None
               | Some st \<Rightarrow>
                   if \<not> os_ready S st next_deps then Some st
                   else process_pending S n (fst (os_mark_ready S st next_key)) next_key)
             dependents (Some st)))"

definition causal_process ::
  "('s, 'id) orderer_store \<Rightarrow> nat \<Rightarrow> 's \<Rightarrow> 'id \<Rightarrow> 'id list \<Rightarrow> ('s \<times> bool) option" where
  "causal_process S n st key dependencies =
     (if \<not> os_ready S st dependencies
      then Some (fst (os_mark_pending S st key dependencies), False)
      else map_option (\<lambda>st. (st, True)) (process_pending S n (fst (os_mark_ready S st key)) key))"

subsection \<open>The stream processor\<close>

datatype 'id orderer_args = Process "'id list" | Ignore

datatype 'id orderer_result = Pending | ReadyInput "'id list" | ReadyOutput | Ignored

definition is_pending :: "'id orderer_result \<Rightarrow> bool" where
  "is_pending r = (case r of Pending \<Rightarrow> True | _ \<Rightarrow> False)"

datatype 'id orderer_error = StoreInconsistency 'id

record ('t, 'id, 'op, 'm) orderer_metadata =
  om_hash :: "'t \<Rightarrow> 'id"
  om_args :: "'t \<Rightarrow> 'id orderer_args"
  om_metadata :: "'t \<Rightarrow> 'm"
  om_from_operation :: "'op \<Rightarrow> 'm \<Rightarrow> 't"

record ('s, 't, 'id, 'op, 'm) orderer =
  od_store :: 's
  od_operations :: "'id \<Rightarrow> 'op option"
  od_events :: "'id \<Rightarrow> 'm option"
  od_queue :: "('t \<times> 'id orderer_result) list"

fun drain_ready :: "('s, 'id) orderer_store \<Rightarrow> nat \<Rightarrow> 's \<Rightarrow> 'id \<Rightarrow> 'id list \<Rightarrow> ('s \<times> 'id list) option" where
  "drain_ready S 0 st own dependent = None"
| "drain_ready S (Suc n) st own dependent =
     (case causal_next S st of
        (st, Some i) \<Rightarrow> drain_ready S n st own (if i \<noteq> own then dependent @ [i] else dependent)
      | (st, None) \<Rightarrow> Some (st, dependent))"

fun to_queue ::
  "('t, 'id, 'op, 'm) orderer_metadata \<Rightarrow> ('s, 't, 'id, 'op, 'm) orderer \<Rightarrow> 'id list \<Rightarrow>
   'id orderer_error + ('t \<times> 'id orderer_result) list" where
  "to_queue M od [] = Inr []"
| "to_queue M od (i # is) =
     (case od_operations od i of
        None \<Rightarrow> Inl (StoreInconsistency i)
      | Some operation \<Rightarrow>
          (case od_events od i of
             None \<Rightarrow> Inl (StoreInconsistency i)
           | Some metadata \<Rightarrow>
               bind_result (to_queue M od is) (\<lambda>rest.
                 Inr ((om_from_operation M operation metadata, ReadyOutput) # rest))))"

definition push_back ::
  "('t \<times> 'id orderer_result) list \<Rightarrow> ('s, 't, 'id, 'op, 'm) orderer \<Rightarrow> ('s, 't, 'id, 'op, 'm) orderer" where
  "push_back items od = od\<lparr>od_queue := od_queue od @ items\<rparr>"

definition orderer_process ::
  "('t, 'id, 'op, 'm) orderer_metadata \<Rightarrow> ('s, 'id) orderer_store \<Rightarrow> nat \<Rightarrow> ('s, 't, 'id, 'op, 'm) orderer \<Rightarrow> 't \<Rightarrow>
   (('s, 't, 'id, 'op, 'm) orderer \<times> ('t \<times> 'id orderer_error + unit)) option" where
  "orderer_process M S n od input =
     (case om_args M input of
        Ignore \<Rightarrow> Some (push_back [(input, Ignored)] od, Inr ())
      | Process dependencies \<Rightarrow>
          (case causal_process S n (od_store od) (om_hash M input) dependencies of
             None \<Rightarrow> None
           | Some (st, True) \<Rightarrow>
               (case drain_ready S n st (om_hash M input) [] of
                  None \<Rightarrow> None
                | Some (st, dependent) \<Rightarrow>
                    (let od = od\<lparr>od_store := st\<rparr>
                     in case to_queue M od dependent of
                          Inl e \<Rightarrow> Some (od, Inl (input, e))
                        | Inr items \<Rightarrow> Some (push_back ((input, ReadyInput dependent) # items) od, Inr ())))
           | Some (st, False) \<Rightarrow>
               Some (push_back [(input, Pending)]
                 (od\<lparr>od_store := st, od_events := (od_events od)(om_hash M input \<mapsto> om_metadata M input)\<rparr>),
                 Inr ())))"

definition orderer_next ::
  "('s, 't, 'id, 'op, 'm) orderer \<Rightarrow> (('s, 't, 'id, 'op, 'm) orderer \<times> ('t \<times> 'id orderer_result)) option" where
  "orderer_next od =
     (case od_queue od of [] \<Rightarrow> None | output # rest \<Rightarrow> Some (od\<lparr>od_queue := rest\<rparr>, output))"

fun orderer_run ::
  "('t, 'id, 'op, 'm) orderer_metadata \<Rightarrow> ('s, 'id) orderer_store \<Rightarrow> nat \<Rightarrow> ('s, 't, 'id, 'op, 'm) orderer \<Rightarrow> 't list \<Rightarrow>
   ('s, 't, 'id, 'op, 'm) orderer option" where
  "orderer_run M S n od [] = Some od"
| "orderer_run M S n od (input # inputs) =
     (case orderer_process M S n od input of
        Some (od', Inr _) \<Rightarrow> orderer_run M S n od' inputs
      | _ \<Rightarrow> None)"

definition forwarded :: "('t, 'id, 'op, 'm) orderer_metadata \<Rightarrow> ('t \<times> 'id orderer_result) list \<Rightarrow> 'id list" where
  "forwarded M items =
     map (\<lambda>(input, _). om_hash M input)
       (filter (\<lambda>(_, r). case r of ReadyInput _ \<Rightarrow> True | ReadyOutput \<Rightarrow> True | _ \<Rightarrow> False) items)"

definition requests :: "('t, 'id, 'op, 'm) orderer_metadata \<Rightarrow> 't list \<Rightarrow> ('id \<times> 'id set) set" where
  "requests M inputs = {(om_hash M t, set ds) | t ds. t \<in> set inputs \<and> om_args M t = Process ds}"

definition operations_agree ::
  "('t, 'id, 'op, 'm) orderer_metadata \<Rightarrow> ('id \<Rightarrow> 'op option) \<Rightarrow> bool" where
  "operations_agree M ops \<longleftrightarrow> (\<forall>i operation m. ops i = Some operation \<longrightarrow> om_hash M (om_from_operation M operation m) = i)"

lemma to_queue_forwarded:
  assumes "operations_agree M (od_operations od)"
  shows "to_queue M od is = Inr items \<Longrightarrow> forwarded M items = is"
  using assms
  by (induction "is" arbitrary: items) (auto simp: forwarded_def operations_agree_def bind_result_eq_Inr split: option.splits)

lemma forwarded_append: "forwarded M (xs @ ys) = forwarded M xs @ forwarded M ys"
  by (simp add: forwarded_def)

subsection \<open>The contract of the store\<close>

definition causal :: "('id \<times> 'id set) set \<Rightarrow> 'id list \<Rightarrow> bool" where
  "causal H xs \<longleftrightarrow> (\<forall>us x vs. xs = us @ x # vs \<longrightarrow> (\<exists>D. (x, D) \<in> H \<and> D \<subseteq> set us))"

lemma causal_Nil: "causal H []"
  by (simp add: causal_def)

lemma causal_snoc: "causal H xs \<Longrightarrow> (x, D) \<in> H \<Longrightarrow> D \<subseteq> set xs \<Longrightarrow> causal H (xs @ [x])"
  unfolding causal_def by (auto simp: append_eq_append_conv2 append_eq_Cons_conv Cons_eq_append_conv)

lemma causal_mono: "causal H xs \<Longrightarrow> H \<subseteq> H' \<Longrightarrow> causal H' xs"
  unfolding causal_def by blast

locale orderer_store_contract =
  fixes S :: "('s, 'id) orderer_store"
    and valid :: "'s \<Rightarrow> bool"
    and queue :: "'s \<Rightarrow> 'id list"
    and ready_ids :: "'s \<Rightarrow> 'id set"
    and waiting :: "'s \<Rightarrow> ('id \<times> 'id set) set"
  assumes ready_sound: "valid st \<Longrightarrow> os_ready S st ds \<Longrightarrow> set ds \<subseteq> ready_ids st"
    and queue_ready: "valid st \<Longrightarrow> set (queue st) \<subseteq> ready_ids st"
    and mark_ready_valid: "valid st \<Longrightarrow> valid (fst (os_mark_ready S st i))"
    and mark_ready_ids: "valid st \<Longrightarrow> ready_ids (fst (os_mark_ready S st i)) = insert i (ready_ids st)"
    and mark_ready_queue: "valid st \<Longrightarrow>
      queue (fst (os_mark_ready S st i)) = (if i \<in> set (queue st) then queue st else queue st @ [i])"
    and mark_ready_waiting: "valid st \<Longrightarrow> waiting (fst (os_mark_ready S st i)) = waiting st"
    and mark_pending_valid: "valid st \<Longrightarrow> valid (fst (os_mark_pending S st i ds))"
    and mark_pending_ids: "valid st \<Longrightarrow> ready_ids (fst (os_mark_pending S st i ds)) = ready_ids st"
    and mark_pending_queue: "valid st \<Longrightarrow> queue (fst (os_mark_pending S st i ds)) = queue st"
    and mark_pending_waiting: "valid st \<Longrightarrow> waiting (fst (os_mark_pending S st i ds)) \<subseteq> insert (i, set ds) (waiting st)"
    and next_pending: "valid st \<Longrightarrow> os_get_next_pending S st i = Some ps \<Longrightarrow> (c, ds) \<in> set ps \<Longrightarrow>
      (c, set ds) \<in> waiting st"
    and take_None: "valid st \<Longrightarrow> os_take_next_ready S st = (st', None) \<Longrightarrow> st' = st \<and> queue st = []"
    and take_Some: "valid st \<Longrightarrow> os_take_next_ready S st = (st', Some i) \<Longrightarrow>
      valid st' \<and> queue st = i # queue st' \<and> ready_ids st' = ready_ids st \<and> waiting st' = waiting st"
    and remove_pending_valid: "valid st \<Longrightarrow> valid (fst (os_remove_pending S st i))"
    and remove_pending_ids: "valid st \<Longrightarrow> ready_ids (fst (os_remove_pending S st i)) = ready_ids st"
    and remove_pending_queue: "valid st \<Longrightarrow> queue (fst (os_remove_pending S st i)) = queue st"
    and remove_pending_waiting: "valid st \<Longrightarrow> waiting (fst (os_remove_pending S st i)) \<subseteq> waiting st"
begin

lemmas store_laws = mark_ready_valid mark_ready_ids mark_ready_queue mark_ready_waiting mark_pending_valid
  mark_pending_ids mark_pending_queue remove_pending_valid remove_pending_ids remove_pending_queue

definition good :: "('id \<times> 'id set) set \<Rightarrow> 'id list \<Rightarrow> 's \<Rightarrow> bool" where
  "good H taken st \<longleftrightarrow>
     valid st \<and> waiting st \<subseteq> H \<and> ready_ids st \<subseteq> set taken \<union> set (queue st) \<and> distinct (queue st) \<and>
     causal H (taken @ queue st)"

lemma good_mark_ready:
  assumes "good H taken st" "(i, D) \<in> H" "D \<subseteq> ready_ids st"
  shows "good H taken (fst (os_mark_ready S st i))"
proof (cases "i \<in> set (queue st)")
  case True
  then show ?thesis
    using assms(1) queue_ready by (auto simp: good_def store_laws)
next
  case False
  have "causal H ((taken @ queue st) @ [i])"
    using assms by (intro causal_snoc[of H _ i D]) (auto simp: good_def)
  then show ?thesis
    using assms False by (auto simp: good_def store_laws)
qed

lemma good_remove_pending: "good H taken st \<Longrightarrow> good H taken (fst (os_remove_pending S st i))"
  using remove_pending_waiting by (fastforce simp: good_def store_laws)

lemma mark_ready_extends: "valid st \<Longrightarrow> \<exists>q. queue (fst (os_mark_ready S st i)) = queue st @ q"
  by (simp add: store_laws)

lemma process_pending_good:
  "good H taken st \<Longrightarrow> process_pending S n st key = Some st' \<Longrightarrow>
   good H taken st' \<and> (\<exists>q. queue st' = queue st @ q)"
proof (induction n arbitrary: st st' key)
  case (Suc n)
  let ?step = "\<lambda>(next_key, next_deps) acc. case acc of None \<Rightarrow> None
    | Some st \<Rightarrow> if \<not> os_ready S st next_deps then Some st
        else process_pending S n (fst (os_mark_ready S st next_key)) next_key"
  have step: "good H taken st1 \<and> (\<exists>q. queue st1 = queue st0 @ q)"
    if "\<forall>(c, ds) \<in> set ps. (c, set ds) \<in> H" "good H taken st0" "fold ?step ps (Some st0) = Some st1" for ps st0 st1
    using that
  proof (induction ps arbitrary: st0)
    case (Cons p ps)
    obtain c ds where p: "p = (c, ds)"
      by (cases p)
    have none: "fold ?step qs None = None" for qs
      by (induction qs) auto
    show ?case
    proof (cases "os_ready S st0 ds")
      case True
      let ?st = "fst (os_mark_ready S st0 c)"
      have g: "good H taken ?st" "valid st0"
        using Cons.prems(1,2) p good_mark_ready[of H taken st0 c "set ds"] ready_sound[OF _ True] by (auto simp: good_def)
      obtain st2 where st2: "process_pending S n ?st c = Some st2"
        using Cons.prems(3) True p none by (cases "process_pending S n ?st c") auto
      obtain q where "good H taken st2" "queue st2 = queue ?st @ q"
        using Suc.IH[OF g(1) st2] by blast
      moreover obtain q' where "queue ?st = queue st0 @ q'"
        using mark_ready_extends[OF g(2)] by blast
      ultimately show ?thesis
        using Cons.IH[of st2] Cons.prems(1,3) st2 True p by auto
    next
      case False
      then show ?thesis
        using Cons p by auto
    qed
  qed simp
  show ?case
  proof (cases "os_get_next_pending S st key")
    case None
    then show ?thesis
      using Suc.prems by simp
  next
    case (Some ps)
    have "\<forall>(c, ds) \<in> set ps. (c, set ds) \<in> H"
      using next_pending[OF _ Some] Suc.prems(1) by (auto simp: good_def)
    moreover obtain st1 where st1: "fold ?step ps (Some st) = Some st1" "st' = fst (os_remove_pending S st1 key)"
      using Suc.prems(2) Some by auto
    ultimately have "good H taken st1" "\<exists>q. queue st1 = queue st @ q"
      using step[of ps st st1] Suc.prems(1) by blast+
    moreover from this(1) have "valid st1"
      by (simp add: good_def)
    ultimately show ?thesis
      unfolding st1(2) using good_remove_pending[of H taken st1 key] remove_pending_queue[of st1 key] by simp
  qed
qed simp

lemma causal_process_good:
  assumes "good H taken st" "queue st = []" "causal_process S n st key ds = Some (st', b)"
  shows "good (insert (key, set ds) H) taken st' \<and> (\<exists>q. queue st' = (if b then [key] else []) @ q \<and> (\<not> b \<longrightarrow> q = []))"
proof -
  let ?H = "insert (key, set ds) H"
  have good: "good ?H taken st" and v: "valid st"
    using assms(1) causal_mono[of H _ ?H] by (auto simp: good_def)
  show ?thesis
  proof (cases "os_ready S st ds")
    case True
    then obtain "process_pending S n (fst (os_mark_ready S st key)) key = Some st'" b
      using assms(3) by (auto simp: causal_process_def)
    moreover have "queue (fst (os_mark_ready S st key)) = [key]"
      using assms(2) v by (simp add: store_laws)
    ultimately show ?thesis
      using process_pending_good[OF good_mark_ready[OF good _ ready_sound[OF v True]]] by force
  next
    case False
    then have st': "st' = fst (os_mark_pending S st key ds)" "\<not> b"
      using assms(3) by (auto simp: causal_process_def)
    then show ?thesis
      using good mark_pending_waiting[OF v, of key ds] assms(2) v by (auto simp: good_def store_laws)
  qed
qed

lemma drain_ready_good:
  "good H taken st \<Longrightarrow> drain_ready S n st own acc = Some (st', is) \<Longrightarrow>
   is = acc @ filter (\<lambda>i. i \<noteq> own) (queue st) \<and> good H (taken @ queue st) st' \<and> queue st' = []"
proof (induction n arbitrary: st taken acc)
  case (Suc n)
  obtain st1 r where 1: "os_take_next_ready S st = (st1, r)"
    by fastforce
  have v: "valid st"
    using Suc.prems(1) by (simp add: good_def)
  show ?case
  proof (cases r)
    case None
    then show ?thesis
      using Suc.prems 1 take_None[OF v] by (auto simp: causal_next_def)
  next
    case (Some i)
    note laws = take_Some[OF v 1[unfolded Some]]
    have "good H (taken @ [i]) st1"
      using Suc.prems(1) laws by (auto simp: good_def)
    from Suc.IH[OF this, of "if i \<noteq> own then acc @ [i] else acc"] show ?thesis
      using Suc.prems(2) 1 Some laws by (auto simp: causal_next_def)
  qed
qed simp

lemma orderer_process_good:
  assumes "good H (forwarded M (od_queue od)) (od_store od)" "queue (od_store od) = []"
    "operations_agree M (od_operations od)" "orderer_process M S n od input = Some (od', Inr u)"
  shows "good (requests M [input] \<union> H) (forwarded M (od_queue od')) (od_store od') \<and> queue (od_store od') = [] \<and>
         od_operations od' = od_operations od"
proof (cases "om_args M input")
  case (Process ds)
  let ?key = "om_hash M input"
  have H: "requests M [input] \<union> H = insert (?key, set ds) H"
    using Process by (auto simp: requests_def)
  obtain st b where 1: "causal_process S n (od_store od) ?key ds = Some (st, b)"
    using assms(4) Process by (cases "causal_process S n (od_store od) ?key ds") (auto simp: orderer_process_def)
  obtain q where st: "good (insert (?key, set ds) H) (forwarded M (od_queue od)) st"
      "queue st = (if b then [?key] else []) @ q" "\<not> b \<longrightarrow> q = []"
    using causal_process_good[OF assms(1,2) 1] by blast
  show ?thesis
  proof (cases b)
    case True
    obtain st2 dependent where 2: "drain_ready S n st ?key [] = Some (st2, dependent)"
      using assms(4) Process 1 True by (cases "drain_ready S n st ?key []") (auto simp: orderer_process_def)
    have "distinct (queue st)"
      using st(1) by (simp add: good_def)
    then have "dependent = q" "good (insert (?key, set ds) H) (forwarded M (od_queue od) @ ?key # q) st2" "queue st2 = []"
      using drain_ready_good[OF st(1) 2] st(2) True by (auto simp: filter_id_conv)
    moreover obtain items where "to_queue M (od\<lparr>od_store := st2\<rparr>) dependent = Inr items"
        "od' = push_back ((input, ReadyInput dependent) # items) (od\<lparr>od_store := st2\<rparr>)"
      using assms(4) Process 1 2 True by (auto simp: orderer_process_def Let_def split: sum.splits)
    moreover have "forwarded M ((input, ReadyInput dependent) # items) = ?key # dependent"
      if "to_queue M (od\<lparr>od_store := st2\<rparr>) dependent = Inr items" for items
      using to_queue_forwarded[OF _ that] assms(3) by (simp add: forwarded_def)
    ultimately show ?thesis
      by (simp add: H push_back_def forwarded_append)
  next
    case False
    then show ?thesis
      using assms(4) Process 1 st by (auto simp: orderer_process_def H push_back_def forwarded_append forwarded_def)
  qed
next
  case Ignore
  then have "requests M [input] \<union> H = H"
    by (simp add: requests_def)
  then show ?thesis
    using assms Ignore by (auto simp: orderer_process_def push_back_def forwarded_append forwarded_def)
qed

lemma orderer_run_causal:
  assumes "valid st" "queue st = []" "ready_ids st = {}" "waiting st = {}" "operations_agree M ops"
    and "orderer_run M S n \<lparr>od_store = st, od_operations = ops, od_events = ev, od_queue = []\<rparr> inputs = Some od"
  shows "causal (requests M inputs) (forwarded M (od_queue od))"
proof -
  have run: "good (requests M inputs \<union> H) (forwarded M (od_queue od')) (od_store od')"
    if "good H (forwarded M (od_queue od)) (od_store od)" "queue (od_store od) = []"
      "operations_agree M (od_operations od)" "orderer_run M S n od inputs = Some od'" for H od od'
    using that
  proof (induction inputs arbitrary: H od)
    case (Cons input inputs)
    obtain od1 u where 1: "orderer_process M S n od input = Some (od1, Inr u)" "orderer_run M S n od1 inputs = Some od'"
      using Cons.prems(4) by (auto split: option.splits sum.splits)
    note g = orderer_process_good[OF Cons.prems(1-3) 1(1)]
    have "requests M (input # inputs) \<union> H = requests M inputs \<union> (requests M [input] \<union> H)"
      by (auto simp: requests_def)
    then show ?case
      using Cons.IH[of "requests M [input] \<union> H" od1] g Cons.prems(3) 1(2) by simp
  qed (simp add: requests_def)
  have "good {} [] st"
    using assms(1-4) by (simp add: good_def causal_Nil)
  then have "good (requests M inputs) (forwarded M (od_queue od)) (od_store od)"
    using run[of "{}", OF _ _ _ assms(6)] assms(2,5) by (simp add: forwarded_def)
  then have "causal (requests M inputs) (forwarded M (od_queue od) @ queue (od_store od))"
    by (simp add: good_def)
  then show ?thesis
    unfolding causal_def by (metis append.assoc append_Cons)
qed

end

end
