(* ===== verification/Store_Orderer.thy ===== *)
theory Store_Orderer
  imports Stream_Orderer
begin

section \<open>The SQLite store of the orderer\<close>

text \<open>
  \<open>p2panda-store/src/orderer/sqlite.rs\<close>: the two tables \<open>orderer_ready_v1\<close> and \<open>orderer_pending_v1\<close> and
  the queries on them. A table is the list of its rows, without duplicates where the schema has a
  unique index. The digest over an item and its sorted dependencies is the argument \<open>dg\<close>; the order
  in which a \<open>HashSet\<close> is iterated is the argument \<open>it\<close>.
\<close>

record ('id, 'd) orderer_tables =
  ready_table :: "('id \<times> int \<times> bool) list"
  pending_table :: "('id \<times> 'id \<times> 'id \<times> 'd) list"

definition tables_empty :: "('id, 'd) orderer_tables" where
  "tables_empty = \<lparr>ready_table = [], pending_table = []\<rparr>"

definition max_queue_index :: "('id, 'd) orderer_tables \<Rightarrow> int" where
  "max_queue_index db =
     (case map (\<lambda>(_, k, _). k) (ready_table db) of [] \<Rightarrow> 0 | k # ks \<Rightarrow> fold max ks k)"

definition is_ready :: "('id, 'd) orderer_tables \<Rightarrow> 'id \<Rightarrow> bool" where
  "is_ready db i = list_ex (\<lambda>(j, _, _). j = i) (ready_table db)"

definition mark_ready :: "('id, 'd) orderer_tables \<Rightarrow> 'id \<Rightarrow> ('id, 'd) orderer_tables \<times> bool" where
  "mark_ready db i =
     (let queue_index = max_queue_index db + 1
      in if \<not> is_ready db i then (db\<lparr>ready_table := ready_table db @ [(i, queue_index, True)]\<rparr>, True)
         else if list_ex (\<lambda>(j, _, in_queue). j = i \<and> in_queue) (ready_table db) then (db, False)
         else (db\<lparr>ready_table :=
                 map (\<lambda>(j, k, q). if j = i then (j, queue_index, True) else (j, k, q)) (ready_table db)\<rparr>, True))"

definition insert_pending ::
  "'id \<times> 'id \<times> 'id \<times> 'd \<Rightarrow> ('id, 'd) orderer_tables \<times> bool \<Rightarrow> ('id, 'd) orderer_tables \<times> bool" where
  "insert_pending row acc =
     (case acc of (db, occured) \<Rightarrow>
        if row \<in> set (pending_table db) then (db, occured)
        else (db\<lparr>pending_table := pending_table db @ [row]\<rparr>, True))"

definition mark_pending ::
  "('id :: linorder \<Rightarrow> 'id list \<Rightarrow> 'd) \<Rightarrow> ('id, 'd) orderer_tables \<Rightarrow> 'id \<Rightarrow> 'id list \<Rightarrow>
   ('id, 'd) orderer_tables \<times> bool" where
  "mark_pending dg db child parents =
     (let parents = sort parents; set_digest = dg child parents
      in fold (\<lambda>i acc.
           if is_ready (fst acc) i then acc
           else fold (\<lambda>parent. insert_pending (i, child, parent, set_digest)) parents acc) parents (db, False))"

definition get_next_pending ::
  "(('id \<times> 'id list) list \<Rightarrow> ('id \<times> 'id list) list) \<Rightarrow> ('id :: linorder, 'd) orderer_tables \<Rightarrow> 'id \<Rightarrow>
   ('id \<times> 'id list) list option" where
  "get_next_pending it db i =
     (let sets = remdups (map (\<lambda>(_, child, _, digest). (child, digest))
                   (filter (\<lambda>(j, _). j = i) (pending_table db)))
      in if sets = [] then None
         else Some (it (remdups (map (\<lambda>(child, digest).
           (child, sort (map (\<lambda>(_, _, parent, _). parent)
              (filter (\<lambda>(_, c, _, d). c = child \<and> d = digest) (pending_table db))))) sets))))"

definition take_next_ready :: "('id, 'd) orderer_tables \<Rightarrow> ('id, 'd) orderer_tables \<times> 'id option" where
  "take_next_ready db =
     (case sort_key (\<lambda>(_, k, _). k) (filter (\<lambda>(_, _, in_queue). in_queue) (ready_table db)) of
        [] \<Rightarrow> (db, None)
      | (i, _, _) # _ \<Rightarrow>
          (db\<lparr>ready_table := map (\<lambda>(j, k, q). if j = i then (j, k, False) else (j, k, q)) (ready_table db)\<rparr>, Some i))"

definition remove_pending :: "('id, 'd) orderer_tables \<Rightarrow> 'id \<Rightarrow> ('id, 'd) orderer_tables \<times> bool" where
  "remove_pending db i =
     (db\<lparr>pending_table := filter (\<lambda>(j, _). j \<noteq> i) (pending_table db)\<rparr>,
      list_ex (\<lambda>(j, _). j = i) (pending_table db))"

definition ready :: "('id, 'd) orderer_tables \<Rightarrow> 'id list \<Rightarrow> bool" where
  "ready db dependencies =
     (length (filter (\<lambda>(j, _, _). j \<in> set dependencies) (ready_table db)) = length dependencies)"

definition sqlite_orderer ::
  "('id :: linorder \<Rightarrow> 'id list \<Rightarrow> 'd) \<Rightarrow> (('id \<times> 'id list) list \<Rightarrow> ('id \<times> 'id list) list) \<Rightarrow>
   (('id, 'd) orderer_tables, 'id) orderer_store" where
  "sqlite_orderer dg it =
     \<lparr>os_mark_ready = mark_ready, os_mark_pending = mark_pending dg, os_get_next_pending = get_next_pending it,
      os_take_next_ready = take_next_ready, os_remove_pending = remove_pending, os_ready = ready\<rparr>"

lemma sqlite_orderer_select [simp]:
  "os_mark_ready (sqlite_orderer dg it) = mark_ready" "os_mark_pending (sqlite_orderer dg it) = mark_pending dg"
  "os_get_next_pending (sqlite_orderer dg it) = get_next_pending it"
  "os_take_next_ready (sqlite_orderer dg it) = take_next_ready"
  "os_remove_pending (sqlite_orderer dg it) = remove_pending" "os_ready (sqlite_orderer dg it) = ready"
  by (simp_all add: sqlite_orderer_def)

subsection \<open>Valid tables\<close>

definition ready_ids :: "('id, 'd) orderer_tables \<Rightarrow> 'id set" where
  "ready_ids db = fst ` set (ready_table db)"

definition queued :: "('id, 'd) orderer_tables \<Rightarrow> 'id list" where
  "queued db = map fst (sort_key (\<lambda>(_, k, _). k) (filter (\<lambda>(_, _, in_queue). in_queue) (ready_table db)))"

definition waiting :: "('id, 'd) orderer_tables \<Rightarrow> ('id \<times> 'id set) set" where
  "waiting db = {(c, {p. \<exists>i. (i, c, p, d) \<in> set (pending_table db)}) | c d.
                   \<exists>i p. (i, c, p, d) \<in> set (pending_table db)}"

definition digest_ok :: "('id :: linorder \<Rightarrow> 'id list \<Rightarrow> 'd) \<Rightarrow> bool" where
  "digest_ok dg \<longleftrightarrow> (\<forall>c ps c' ps'. dg c ps = dg c' ps' \<longrightarrow> c = c' \<and> ps = ps')"

definition iter_ok :: "('a list \<Rightarrow> 'a list) \<Rightarrow> bool" where
  "iter_ok it \<longleftrightarrow> (\<forall>xs. set (it xs) = set xs)"

definition ready_ok :: "('id, 'd) orderer_tables \<Rightarrow> bool" where
  "ready_ok db \<longleftrightarrow> distinct (map fst (ready_table db)) \<and> distinct (map (\<lambda>(_, k, _). k) (ready_table db))"

definition pending_ok :: "('id :: linorder \<Rightarrow> 'id list \<Rightarrow> 'd) \<Rightarrow> ('id, 'd) orderer_tables \<Rightarrow> bool" where
  "pending_ok dg db \<longleftrightarrow>
     (\<forall>i c p d. (i, c, p, d) \<in> set (pending_table db) \<longrightarrow>
        (\<exists>ps. d = dg c ps \<and> p \<in> set ps \<and> (\<forall>p' \<in> set ps. (i, c, p', d) \<in> set (pending_table db))))"

abbreviation index :: "'id \<times> int \<times> bool \<Rightarrow> int" where
  "index \<equiv> (\<lambda>(_, k, _). k)"

abbreviation in_queue :: "'id \<times> int \<times> bool \<Rightarrow> bool" where
  "in_queue \<equiv> (\<lambda>(_, _, q). q)"

lemma fold_max_ge:
  fixes k :: int
  shows "k \<le> fold max ks k" "x \<in> set ks \<Longrightarrow> x \<le> fold max ks k"
proof (induction ks arbitrary: k)
  case (Cons y ks)
  {
    case 1
    then show ?case
      using Cons(1)[of "max y k"] by simp
  next
    case 2
    then show ?case
      using Cons(1)[of "max y k"] Cons(2)[of "max y k"] by auto
  }
qed simp_all

lemma index_le_max: "r \<in> set (ready_table db) \<Longrightarrow> index r \<le> max_queue_index db"
  by (cases "ready_table db") (auto simp: max_queue_index_def intro: fold_max_ge)

lemma ready_okD:
  assumes "ready_ok db"
  shows "distinct (map fst (ready_table db))" "distinct (map index (ready_table db))"
    "distinct (map index (filter in_queue (ready_table db)))"
    "(i, k, q) \<in> set (ready_table db) \<Longrightarrow> (i, k', q') \<in> set (ready_table db) \<Longrightarrow> k' = k \<and> q' = q"
proof -
  show d: "distinct (map fst (ready_table db))" "distinct (map index (ready_table db))"
    using assms by (auto simp: ready_ok_def)
  show "distinct (map index (filter in_queue (ready_table db)))"
    using d(2) by (rule distinct_map_filter)
  show "(i, k, q) \<in> set (ready_table db) \<Longrightarrow> (i, k', q') \<in> set (ready_table db) \<Longrightarrow> k' = k \<and> q' = q"
    using eq_key_imp_eq_value[OF d(1)] by blast
qed

lemma is_ready_iff: "is_ready db i \<longleftrightarrow> i \<in> ready_ids db"
  by (force simp: is_ready_def ready_ids_def list_ex_iff)

lemma in_queued: "i \<in> set (queued db) \<longleftrightarrow> (\<exists>k. (i, k, True) \<in> set (ready_table db))"
  by (force simp: queued_def)

lemma ready_sound:
  assumes ok: "ready_ok db" and r: "ready db ds"
  shows "set ds \<subseteq> ready_ids db \<and> distinct ds"
proof -
  let ?rows = "filter (\<lambda>(j, _, _). j \<in> set ds) (ready_table db)"
  have "distinct (map fst ?rows)"
    using ready_okD(1)[OF ok] by (rule distinct_map_filter)
  then have "length ds = card (fst ` set ?rows)"
    using r distinct_card[of "map fst ?rows"] by (simp add: ready_def)
  moreover have sub: "fst ` set ?rows \<subseteq> set ds"
    by auto
  moreover have "card (set ds) \<le> length ds"
    by (rule card_length)
  ultimately have "fst ` set ?rows = set ds" "card (set ds) = length ds"
    using card_mono[OF finite_set sub] card_subset_eq[OF finite_set sub] by linarith+
  then show ?thesis
    by (auto simp: ready_ids_def card_distinct)
qed

subsection \<open>The ready table\<close>

definition requeue :: "'id \<Rightarrow> int \<Rightarrow> bool \<Rightarrow> ('id \<times> int \<times> bool) list \<Rightarrow> ('id \<times> int \<times> bool) list" where
  "requeue i k q rows = map (\<lambda>r. if fst r = i then (i, k, q) else r) rows"

lemma requeue_eq: "map (\<lambda>(j, k', q'). if j = i then (j, k, q) else (j, k', q')) rows = requeue i k q rows"
  by (auto simp: requeue_def)

lemma requeue_ids: "map fst (requeue i k q rows) = map fst rows"
  by (auto simp: requeue_def)

lemma row_unique:
  "distinct (map fst rows) \<Longrightarrow> (i, k0, q0) \<in> set rows \<Longrightarrow> r \<in> set rows \<Longrightarrow> fst r = i \<longleftrightarrow> r = (i, k0, q0)"
  using eq_key_imp_eq_value[of rows i "(k0, q0)" "snd r"] by (cases r) auto

lemma requeue_set:
  assumes "distinct (map fst rows)" "(i, k0, q0) \<in> set rows"
  shows "set (requeue i k q rows) = insert (i, k, q) (set rows - {(i, k0, q0)})"
proof -
  have "set (requeue i k q rows) = (\<lambda>r. if r = (i, k0, q0) then (i, k, q) else r) ` set rows"
    using row_unique[OF assms] by (auto simp: requeue_def intro!: image_cong)
  also have "\<dots> = insert (i, k, q) (set rows - {(i, k0, q0)})"
    using assms(2) by auto
  finally show ?thesis .
qed

lemma requeue_indexes:
  assumes "distinct (map index rows)" "\<forall>r \<in> set rows. fst r \<noteq> i \<longrightarrow> index r \<noteq> k" "distinct (map fst rows)"
  shows "distinct (map index (requeue i k q rows))"
  using assms
proof (induction rows)
  case (Cons r rows)
  have "index (if fst x = i then (i, k, q) else x) \<noteq> index (if fst r = i then (i, k, q) else r)"
    if "x \<in> set rows" for x
    using Cons.prems that by (cases "fst x = i"; cases "fst r = i") (simp_all add: image_iff, metis+)
  then have "index (if fst r = i then (i, k, q) else r) \<notin> set (map index (requeue i k q rows))"
    unfolding requeue_def by fastforce
  then show ?case
    using Cons by (simp add: requeue_def)
qed (simp add: requeue_def)

lemma take_requeue:
  assumes "distinct (map fst rows)" "(i, k0, q0) \<in> set rows"
  shows "map (\<lambda>(j, k, q). if j = i then (j, k, False) else (j, k, q)) rows = requeue i k0 False rows"
proof -
  have "(case r of (j, k, q) \<Rightarrow> if j = i then (j, k, False) else (j, k, q)) = (if fst r = i then (i, k0, False) else r)"
    if "r \<in> set rows" for r
    using row_unique[OF assms that] by (cases r) auto
  then show ?thesis
    unfolding requeue_def by (rule map_cong[OF refl])
qed

lemma mark_ready_laws:
  assumes ok: "ready_ok db"
  shows "ready_ok (fst (mark_ready db i))" "ready_ids (fst (mark_ready db i)) = insert i (ready_ids db)"
    "queued (fst (mark_ready db i)) = (if i \<in> set (queued db) then queued db else queued db @ [i])"
    "pending_table (fst (mark_ready db i)) = pending_table db"
proof -
  let ?rows = "ready_table db" and ?k = "max_queue_index db + 1"
  note d = ready_okD[OF ok]
  have less: "index r < ?k" if "r \<in> set ?rows" for r
    using index_le_max[OF that] by linarith
  show "pending_table (fst (mark_ready db i)) = pending_table db"
    by (simp add: mark_ready_def Let_def)
  have goals: "ready_ok (fst (mark_ready db i)) \<and> ready_ids (fst (mark_ready db i)) = insert i (ready_ids db) \<and>
    queued (fst (mark_ready db i)) = (if i \<in> set (queued db) then queued db else queued db @ [i])"
  proof (cases "is_ready db i")
    case False
    let ?db = "db\<lparr>ready_table := ?rows @ [(i, ?k, True)]\<rparr>"
    have new: "i \<notin> ready_ids db" "i \<notin> set (queued db)"
      using False by (auto simp: is_ready_iff in_queued ready_ids_def image_iff)
    have ok': "ready_ok ?db"
      using ok less new by (force simp: ready_ok_def ready_ids_def)
    have "sort_key index (filter in_queue (ready_table ?db)) = sort_key index (filter in_queue ?rows) @ [(i, ?k, True)]"
      using d(3) ready_okD(3)[OF ok'] by (rule sort_key_snoc) (use less in auto)
    then have "queued ?db = queued db @ [i]"
      by (simp add: queued_def)
    moreover have "fst (mark_ready db i) = ?db"
      using False by (simp add: mark_ready_def Let_def)
    ultimately show ?thesis
      using ok' new by (simp add: ready_ids_def)
  next
    case True
    show ?thesis
    proof (cases "i \<in> set (queued db)")
      case q: True
      then have "fst (mark_ready db i) = db"
        using True by (auto simp: mark_ready_def Let_def list_ex_iff in_queued)
      then show ?thesis
        using q True ok by (auto simp: is_ready_iff)
    next
      case q: False
      obtain k0 where row: "(i, k0, False) \<in> set ?rows"
        using True q by (auto simp: is_ready_iff ready_ids_def in_queued) (metis (full_types))
      let ?db = "db\<lparr>ready_table := requeue i ?k True ?rows\<rparr>"
      have mr: "fst (mark_ready db i) = ?db"
        using True q by (auto simp: mark_ready_def Let_def list_ex_iff in_queued requeue_eq)
      have ok': "ready_ok ?db"
        using d(1,2) less by (fastforce simp: ready_ok_def requeue_ids intro!: requeue_indexes)
      have "sort_key index (filter in_queue (ready_table ?db)) = sort_key index (filter in_queue ?rows) @ [(i, ?k, True)]"
        using d(3) ready_okD(3)[OF ok'] by (rule sort_key_snoc) (use less row in \<open>auto simp: requeue_set[OF d(1) row]\<close>)
      then have "queued ?db = queued db @ [i]"
        by (simp add: queued_def)
      moreover have "ready_ids ?db = insert i (ready_ids db)"
        using True requeue_ids[of i ?k True ?rows] unfolding is_ready_iff ready_ids_def
        by (metis image_set insert_absorb orderer_tables.ext_inject orderer_tables.surjective orderer_tables.update_convs(1))
      ultimately show ?thesis
        using ok' q mr by simp
    qed
  qed
  then show "ready_ok (fst (mark_ready db i))" "ready_ids (fst (mark_ready db i)) = insert i (ready_ids db)"
    "queued (fst (mark_ready db i)) = (if i \<in> set (queued db) then queued db else queued db @ [i])"
    by simp_all
qed

lemma take_next_ready_laws:
  assumes ok: "ready_ok db"
  shows "take_next_ready db = (db', None) \<Longrightarrow> db' = db \<and> queued db = []"
    "take_next_ready db = (db', Some i) \<Longrightarrow>
       ready_ok db' \<and> queued db = i # queued db' \<and> ready_ids db' = ready_ids db \<and> pending_table db' = pending_table db"
proof -
  let ?q = "sort_key index (filter in_queue (ready_table db))"
  note d = ready_okD[OF ok]
  show "take_next_ready db = (db', None) \<Longrightarrow> db' = db \<and> queued db = []"
    by (auto simp: take_next_ready_def queued_def split: list.splits)
  assume t: "take_next_ready db = (db', Some i)"
  then obtain k q rs where r: "?q = (i, k, q) # rs"
    by (auto simp: take_next_ready_def split: list.splits)
  have "(i, k, q) \<in> set ?q"
    by (simp add: r)
  then have mem: "(i, k, q) \<in> set (ready_table db)" and q: q
    by auto
  have db': "db' = db\<lparr>ready_table := requeue i k False (ready_table db)\<rparr>"
    using t r take_requeue[OF d(1) mem] by (simp add: take_next_ready_def)
  have "\<forall>r \<in> set (ready_table db). fst r \<noteq> i \<longrightarrow> index r \<noteq> k"
    using d(2) mem by (force simp: distinct_map inj_on_def)
  then have ok': "ready_ok db'"
    using d(1,2) by (simp add: db' ready_ok_def requeue_ids requeue_indexes)
  have "sort_key index (filter in_queue (ready_table db')) = rs"
    using d(3) ready_okD(3)[OF ok'] r
    by (rule sort_key_tail) (use q in \<open>auto simp: db' requeue_set[OF d(1) mem]\<close>)
  then have "queued db = i # queued db'"
    by (simp add: queued_def r)
  moreover have "ready_ids db' = ready_ids db"
    using arg_cong[OF requeue_ids[of i k False "ready_table db"], of set] by (simp add: ready_ids_def db')
  ultimately show "ready_ok db' \<and> queued db = i # queued db' \<and> ready_ids db' = ready_ids db \<and>
      pending_table db' = pending_table db"
    using ok' db' by simp
qed

subsection \<open>The pending table\<close>

lemma insert_pending_set:
  "ready_table (fst (insert_pending row acc)) = ready_table (fst acc)"
  "set (pending_table (fst (insert_pending row acc))) = insert row (set (pending_table (fst acc)))"
  by (cases acc; auto simp: insert_pending_def)+

lemma insert_parents:
  "ready_table (fst (fold (\<lambda>p. insert_pending (f p)) ps acc)) = ready_table (fst acc)"
  "set (pending_table (fst (fold (\<lambda>p. insert_pending (f p)) ps acc))) = f ` set ps \<union> set (pending_table (fst acc))"
  by (induction ps arbitrary: acc) (auto simp: insert_pending_set)

lemma mark_pending_tables:
  "ready_table (fst (mark_pending dg db c ps)) = ready_table db"
  "set (pending_table (fst (mark_pending dg db c ps))) =
     set (pending_table db) \<union> {(i, c, p, dg c (sort ps)) | i p. i \<in> set ps - ready_ids db \<and> p \<in> set ps}"
proof -
  let ?step = "\<lambda>i acc. if is_ready (fst acc) i then acc
      else fold (\<lambda>parent. insert_pending (i, c, parent, dg c (sort ps))) (sort ps) acc"
  have "ready_table (fst (fold ?step xs acc)) = ready_table (fst acc) \<and>
    set (pending_table (fst (fold ?step xs acc))) = set (pending_table (fst acc)) \<union>
      {(i, c, p, dg c (sort ps)) | i p. i \<in> set xs - ready_ids (fst acc) \<and> p \<in> set ps}" for xs acc
  proof (induction xs arbitrary: acc)
    case (Cons x xs)
    have *: "ready_table (fst (?step x acc)) = ready_table (fst acc)"
      "set (pending_table (fst (?step x acc))) = set (pending_table (fst acc)) \<union>
         (if x \<in> ready_ids (fst acc) then {} else (\<lambda>p. (x, c, p, dg c (sort ps))) ` set ps)"
      by (auto simp: is_ready_iff insert_parents)
    then have "ready_ids (fst (?step x acc)) = ready_ids (fst acc)"
      by (simp add: ready_ids_def)
    then show ?case
      using Cons[of "?step x acc"] * by (auto simp: is_ready_iff)
  qed simp
  from this[of "sort ps" "(db, False)"]
  show "ready_table (fst (mark_pending dg db c ps)) = ready_table db"
    "set (pending_table (fst (mark_pending dg db c ps))) =
     set (pending_table db) \<union> {(i, c, p, dg c (sort ps)) | i p. i \<in> set ps - ready_ids db \<and> p \<in> set ps}"
    by (simp_all add: mark_pending_def Let_def)
qed

lemma waiting_parents:
  assumes dg: "digest_ok dg" and ok: "pending_ok dg db" and row: "(i, c, p, dg c ps) \<in> set (pending_table db)"
  shows "{p. \<exists>i. (i, c, p, dg c ps) \<in> set (pending_table db)} = set ps"
proof -
  have "qs = ps" if "dg c ps = dg c qs" for qs
    using that dg by (auto simp: digest_ok_def)
  then have "p \<in> set ps \<and> (\<forall>p' \<in> set ps. (j, c, p', dg c ps) \<in> set (pending_table db))"
    if "(j, c, p, dg c ps) \<in> set (pending_table db)" for j p
    using ok that unfolding pending_ok_def by metis
  then show ?thesis
    using row by blast
qed

lemma waiting_iff:
  assumes "digest_ok dg" "pending_ok dg db"
  shows "(c, D) \<in> waiting db \<longleftrightarrow> (\<exists>i p ps. (i, c, p, dg c ps) \<in> set (pending_table db) \<and> D = set ps)"
proof -
  have "\<exists>ps. d = dg c ps" if "(i, c, p, d) \<in> set (pending_table db)" for i p d
    using assms(2) that unfolding pending_ok_def by blast
  note digest = this
  show ?thesis
  proof
    assume "(c, D) \<in> waiting db"
    then obtain i p d where row: "(i, c, p, d) \<in> set (pending_table db)"
        and D: "D = {p. \<exists>i. (i, c, p, d) \<in> set (pending_table db)}"
      by (auto simp: waiting_def)
    obtain ps where d: "d = dg c ps"
      using digest[OF row] by blast
    show "\<exists>i p ps. (i, c, p, dg c ps) \<in> set (pending_table db) \<and> D = set ps"
      using row D waiting_parents[OF assms, of i c p ps] unfolding d by blast
  next
    assume "\<exists>i p ps. (i, c, p, dg c ps) \<in> set (pending_table db) \<and> D = set ps"
    then obtain i p ps where row: "(i, c, p, dg c ps) \<in> set (pending_table db)" and D: "D = set ps"
      by blast
    show "(c, D) \<in> waiting db"
      unfolding waiting_def D waiting_parents[OF assms row, symmetric] using row by blast
  qed
qed

lemma mark_pending_ok:
  assumes "digest_ok dg" "pending_ok dg db"
  shows "pending_ok dg (fst (mark_pending dg db c ps))"
    "waiting (fst (mark_pending dg db c ps)) \<subseteq> insert (c, set ps) (waiting db)"
proof -
  let ?db = "fst (mark_pending dg db c ps)"
  show ok: "pending_ok dg ?db"
    unfolding pending_ok_def
  proof (intro allI impI)
    fix i c' p d assume "(i, c', p, d) \<in> set (pending_table ?db)"
    then consider "(i, c', p, d) \<in> set (pending_table db)"
      | "c' = c" "d = dg c (sort ps)" "p \<in> set ps" "i \<in> set ps - ready_ids db"
      by (auto simp: mark_pending_tables)
    then show "\<exists>ps. d = dg c' ps \<and> p \<in> set ps \<and> (\<forall>p' \<in> set ps. (i, c', p', d) \<in> set (pending_table ?db))"
    proof cases
      case 1
      then show ?thesis
        using assms(2) unfolding pending_ok_def mark_pending_tables by blast
    next
      case 2
      then show ?thesis
        by (intro exI[of _ "sort ps"]) (auto simp: mark_pending_tables)
    qed
  qed
  show "waiting ?db \<subseteq> insert (c, set ps) (waiting db)"
  proof
    fix x assume "x \<in> waiting ?db"
    moreover obtain c' D where x: "x = (c', D)"
      by fastforce
    ultimately have "(c', D) \<in> waiting ?db"
      by simp
    then obtain i p qs where row: "(i, c', p, dg c' qs) \<in> set (pending_table ?db)" "D = set qs"
      unfolding waiting_iff[OF assms(1) ok] by metis
    then consider "(i, c', p, dg c' qs) \<in> set (pending_table db)" | "c' = c" "dg c' qs = dg c (sort ps)"
      by (auto simp: mark_pending_tables)
    then show "x \<in> insert (c, set ps) (waiting db)"
    proof cases
      case 1
      then have "(c', D) \<in> waiting db"
        unfolding waiting_iff[OF assms] using row(2) by metis
      then show ?thesis
        using x by simp
    next
      case 2
      then have "qs = sort ps"
        using assms(1) unfolding digest_ok_def by blast
      then show ?thesis
        using 2 row(2) x by simp
    qed
  qed
qed

lemma remove_pending_ok:
  assumes "digest_ok dg" "pending_ok dg db"
  shows "pending_ok dg (fst (remove_pending db i))" "waiting (fst (remove_pending db i)) \<subseteq> waiting db"
proof -
  show ok: "pending_ok dg (fst (remove_pending db i))"
    using assms(2) unfolding pending_ok_def remove_pending_def by fastforce
  show "waiting (fst (remove_pending db i)) \<subseteq> waiting db"
  proof
    fix x assume "x \<in> waiting (fst (remove_pending db i))"
    then show "x \<in> waiting db"
      using waiting_iff[OF assms] waiting_iff[OF assms(1) ok]
      by (cases x) (auto simp: remove_pending_def)
  qed
qed

lemma get_next_pending_waiting:
  assumes "digest_ok dg" "iter_ok it" "pending_ok dg db" "get_next_pending it db i = Some ps" "(c, ds) \<in> set ps"
  shows "(c, set ds) \<in> waiting db"
proof -
  obtain p d where row: "(i, c, p, d) \<in> set (pending_table db)" and
    ds: "ds = sort (map (\<lambda>(_, _, parent, _). parent) (filter (\<lambda>(_, c', _, d'). c' = c \<and> d' = d) (pending_table db)))"
    using assms(2,4,5) by (auto simp: get_next_pending_def iter_ok_def Let_def split: if_splits)
  have "set ds = {p. \<exists>i. (i, c, p, d) \<in> set (pending_table db)}"
    unfolding ds by (force simp: image_iff)
  then show ?thesis
    using row unfolding waiting_def by blast
qed

lemmas tables_ok_laws = mark_ready_laws take_next_ready_laws mark_pending_ok remove_pending_ok

lemma same_pending: "pending_table db' = pending_table db \<Longrightarrow> pending_ok dg db' = pending_ok dg db \<and> waiting db' = waiting db"
  by (simp add: pending_ok_def waiting_def)

lemma same_ready: "ready_table db' = ready_table db \<Longrightarrow>
  ready_ok db' = ready_ok db \<and> ready_ids db' = ready_ids db \<and> queued db' = queued db"
  by (simp add: ready_ok_def ready_ids_def queued_def)

interpretation sqlite: orderer_store_contract "sqlite_orderer dg it"
  "\<lambda>db. digest_ok dg \<and> iter_ok it \<and> ready_ok db \<and> pending_ok dg db" queued ready_ids waiting
  for dg :: "'id :: linorder \<Rightarrow> 'id list \<Rightarrow> 'd" and it
proof (unfold_locales, unfold sqlite_orderer_select, goal_cases)
  case (1 db ds)
  then show ?case
    using ready_sound by blast
next
  case (2 db)
  show ?case
    by (force simp: in_queued ready_ids_def)
next
  case (3 db i)
  then show ?case
    using mark_ready_laws(1,4)[of db i] same_pending[of "fst (mark_ready db i)" db dg] by simp
next
  case (6 db i)
  then show ?case
    using mark_ready_laws(4)[of db i] same_pending[of "fst (mark_ready db i)" db dg] by simp
next
  case (7 db i ds)
  then show ?case
    using mark_pending_ok(1)[of dg db i ds] same_ready[OF mark_pending_tables(1)[of dg db i ds]] by simp
next
  case (12 db st' )
  then show ?case
    using take_next_ready_laws(1) by blast
next
  case (13 db db' i)
  then show ?case
    using take_next_ready_laws(2)[of db db' i] same_pending[of db' db dg] by simp
next
  case (14 db i)
  then show ?case
    using remove_pending_ok(1)[of dg db i] same_ready[of "fst (remove_pending db i)" db] by (simp add: remove_pending_def)
next
  case (4 db i)
  then show ?case
    by (simp add: mark_ready_laws(2))
next
  case (5 db i)
  then show ?case
    by (simp add: mark_ready_laws(3))
next
  case (8 db i ds)
  show ?case
    using same_ready[OF mark_pending_tables(1)[of dg db i ds]] by simp
next
  case (9 db i ds)
  show ?case
    using same_ready[OF mark_pending_tables(1)[of dg db i ds]] by simp
next
  case (10 db i ds)
  then show ?case
    by (simp add: mark_pending_ok(2))
next
  case (11 db i ps c ds)
  then show ?case
    using get_next_pending_waiting by blast
next
  case (15 db i)
  show ?case
    by (simp add: remove_pending_def ready_ids_def)
next
  case (16 db i)
  show ?case
    by (simp add: remove_pending_def queued_def)
next
  case (17 db i)
  then show ?case
    using remove_pending_ok(2)[of dg db i] by blast
qed

subsection \<open>Termination\<close>

lemma mark_ready_pending: "pending_table (fst (mark_ready db i)) = pending_table db"
  by (simp add: mark_ready_def Let_def)

lemma get_next_pending_row:
  assumes "iter_ok it" "get_next_pending it db i = Some ps" "(c, ds) \<in> set ps"
  shows "\<exists>p d. (i, c, p, d) \<in> set (pending_table db)"
  using assms by (auto simp: get_next_pending_def iter_ok_def Let_def split: if_splits) blast

lemma process_pending_returns:
  assumes it: "iter_ok it" and bound: "\<forall>i. rank i \<le> N"
  shows "\<forall>i c p d. (i, c, p, d) \<in> set (pending_table db) \<longrightarrow> rank i < rank c \<Longrightarrow> N < n + rank key \<Longrightarrow>
    \<exists>db'. process_pending (sqlite_orderer dg it) n db key = Some db' \<and>
          set (pending_table db') \<subseteq> set (pending_table db)"
proof (induction n arbitrary: db key)
  case 0
  then show ?case
    using bound by (simp add: not_less[symmetric])
next
  case (Suc n)
  let ?S = "sqlite_orderer dg it"
  show ?case
  proof (cases "get_next_pending it db key")
    case None
    then show ?thesis
      by simp
  next
    case (Some ps)
    let ?step = "\<lambda>(next_key, next_deps) acc. case acc of None \<Rightarrow> None
      | Some st \<Rightarrow> if \<not> os_ready ?S st next_deps then Some st
          else process_pending ?S n (fst (os_mark_ready ?S st next_key)) next_key"
    have "\<exists>db'. fold ?step qs (Some db1) = Some db' \<and> set (pending_table db') \<subseteq> set (pending_table db)"
      if "set qs \<subseteq> set ps" "set (pending_table db1) \<subseteq> set (pending_table db)" for qs db1
      using that
    proof (induction qs arbitrary: db1)
      case (Cons q qs)
      obtain c ds where q: "q = (c, ds)"
        by (cases q)
      obtain p d where "(key, c, p, d) \<in> set (pending_table db)"
        using get_next_pending_row[OF it Some] Cons.prems(1) q by fastforce
      then have "N < n + rank c"
        using Suc.prems by fastforce
      moreover have "\<forall>i c p d. (i, c, p, d) \<in> set (pending_table (fst (mark_ready db1 c))) \<longrightarrow> rank i < rank c"
        using Suc.prems(1) Cons.prems(2) unfolding mark_ready_pending by blast
      ultimately obtain db2 where "process_pending ?S n (fst (mark_ready db1 c)) c = Some db2"
          "set (pending_table db2) \<subseteq> set (pending_table db1)"
        using Suc.IH[of "fst (mark_ready db1 c)" c] unfolding mark_ready_pending by blast
      then have "\<exists>db3. ?step q (Some db1) = Some db3 \<and> set (pending_table db3) \<subseteq> set (pending_table db)"
        using Cons.prems(2) q by auto
      then show ?case
        using Cons.IH Cons.prems(1) by (metis (no_types, lifting) fold_simps(2) list.set_intros(2) subset_code(1))
    qed simp
    from this[of ps db] obtain db' where "fold ?step ps (Some db) = Some db'" "set (pending_table db') \<subseteq> set (pending_table db)"
      by blast
    note fold = this
    have "process_pending ?S (Suc n) db key = Some (fst (remove_pending db' key))"
      using fold(1) by (simp only: process_pending.simps sqlite_orderer_select(3,5) Some option.case option.map)
    then show ?thesis
      using fold(2) by (auto simp: remove_pending_def)
  qed
qed

subsection \<open>Properties\<close>


definition example_metadata :: "(nat \<times> nat list, nat, nat \<times> nat list, unit) orderer_metadata" where
  "example_metadata =
     \<lparr>om_hash = fst, om_args = \<lambda>t. Process (snd t), om_metadata = \<lambda>_. (), om_from_operation = \<lambda>t _. t\<rparr>"

definition example_orderer ::
  "(nat \<times> nat list) list \<Rightarrow> ((nat, nat \<times> nat list) orderer_tables, nat \<times> nat list, nat, nat \<times> nat list, unit) orderer" where
  "example_orderer ops =
     \<lparr>od_store = tables_empty, od_operations = \<lambda>i. List.find (\<lambda>t. fst t = i) ops, od_events = \<lambda>_. None, od_queue = []\<rparr>"

lemma find_fst_eq: "List.find (\<lambda>t. fst t = i) xs = Some (j, d) \<Longrightarrow> j = i"
  by (induction xs) (auto split: if_splits)

lemma example_assumptions:
  "digest_ok Pair" "iter_ok (\<lambda>xs. xs)" "iter_ok rev"
  "operations_agree example_metadata (\<lambda>i. List.find (\<lambda>t. fst t = i) ops)"
  by (auto simp: digest_ok_def iter_ok_def operations_agree_def example_metadata_def dest: find_fst_eq)

definition example_run :: "((nat \<times> nat list) list \<Rightarrow> (nat \<times> nat list) list) \<Rightarrow> (nat \<times> nat list) list \<Rightarrow> (nat list \<times> (nat \<times> nat \<times> nat \<times> nat \<times> nat list) list) option" where
  "example_run it inputs =
     map_option (\<lambda>od. (forwarded example_metadata (od_queue od), pending_table (od_store od)))
       (orderer_run example_metadata (sqlite_orderer Pair it) 5 (example_orderer inputs) inputs)"

lemma example_chain: "example_run (\<lambda>xs. xs) [(2, [1]), (1, []), (3, [2])] = Some ([1, 2, 3], [])"
  by code_simp


text \<open>
  C13. Processing an item returns. If the items can be ranked by numbers up to \<open>N\<close> such that every pending
  item has a higher rank than the items it waits for, the recursion through the pending items ends: a
  recursion depth of \<open>N + 1\<close> is enough, whatever order the pending items are visited in.
\<close>
theorem orderer_process_terminates:
  assumes "iter_ok it" "\<forall>i. rank i \<le> N"
    and "\<forall>i c p d. (i, c, p, d) \<in> set (pending_table db) \<longrightarrow> rank i < rank c"
  shows "\<exists>r. causal_process (sqlite_orderer dg it) (Suc N) db key ds = Some r"
proof (cases "ready db ds")
  case True
  have "\<exists>db'. process_pending (sqlite_orderer dg it) (Suc N) (fst (mark_ready db key)) key = Some db'"
    using process_pending_returns[OF assms(1,2), of "fst (mark_ready db key)" "Suc N" key dg] assms(3)
    unfolding mark_ready_pending by (metis less_add_Suc1 add_Suc_shift trans_less_add1 lessI)
  then show ?thesis
    using True by (auto simp: causal_process_def simp del: process_pending.simps)
qed (auto simp: causal_process_def)

theorem orderer_process_terminates_witness:
  "\<exists>r. causal_process (sqlite_orderer Pair rev) 4 \<lparr>ready_table = [], pending_table = [(1, 2, 1, (2, [1]))]\<rparr> (1 :: nat) [] = Some r"
  using orderer_process_terminates[OF example_assumptions(3), of "\<lambda>i. min i 3" 3
      "\<lparr>ready_table = [], pending_table = [(1, 2, 1, (2, [1]))]\<rparr>" Pair 1 "[]"] by simp


text \<open>
  An item that names a dependency twice is never ready: whatever the ready table holds, processing
  it only marks it as pending.
\<close>
lemma duplicate_dependency_pending:
  assumes "ready_ok db" "\<not> distinct ds"
  shows "causal_process (sqlite_orderer dg it) n db key ds = Some (fst (mark_pending dg db key ds), False)"
proof -
  have "\<not> ready db ds"
    using ready_sound[OF assms(1)] assms(2) by blast
  then show ?thesis
    by (simp add: causal_process_def)
qed

lemma duplicate_dependency_pending_example:
  "causal_process (sqlite_orderer Pair rev) 5 \<lparr>ready_table = [(1, 1, False)], pending_table = []\<rparr> (2 :: nat) [1, 1] =
     Some (fst (mark_pending Pair \<lparr>ready_table = [(1, 1, False)], pending_table = []\<rparr> 2 [1, 1]), False)"
  by (rule duplicate_dependency_pending) (simp_all add: ready_ok_def)

end
