(* ===== verification/Store_Logs.thy ===== *)
theory Store_Logs
  imports Core_Validation Core_Logs
begin

section \<open>Operations, logs, topics and cursors in the SQLite store\<close>

text \<open>
  \<open>p2panda-store/src/operations/sqlite.rs\<close>, \<open>logs/sqlite/mod.rs\<close>, \<open>topics/sqlite.rs\<close> and
  \<open>cursors/sqlite.rs\<close>. A table is the list of its rows; the primary key of \<open>operations_v1\<close> is the hash
  and the rows of \<open>topics_v1\<close> are unique. A row holds the encoded header and every query decodes it, so
  a query can fail. Log ids, topics and names stand for their encodings. What the SQL driver makes of
  an integer, or of \<open>NULL\<close>, where a 32 bit number is expected is the argument \<open>sql_u32\<close>. Failures of the
  database itself are not modelled.
\<close>

record 'l operation_row =
  or_hash :: hash
  or_log_id :: 'l
  or_version :: u16
  or_verifying_key :: verifying_key
  or_signature :: signature
  or_payload_size :: u32
  or_payload_hash :: "hash option"
  or_seq_num :: u32
  or_header :: bytes
  or_header_size :: u32
  or_body :: "body option"

type_synonym 'l operations_table = "'l operation_row list"

subsection \<open>Operations\<close>

definition operation_row_of :: "'v cbor_api \<Rightarrow> hash \<Rightarrow> ('v, 'e) operation \<Rightarrow> 'l \<Rightarrow> 'l operation_row" where
  "operation_row_of C i p log_id =
     (let h = op_header p
      in \<lparr>or_hash = i, or_log_id = log_id, or_version = version h, or_verifying_key = verifying_key h,
          or_signature = signature h, or_payload_size = payload_size h, or_payload_hash = payload_hash h,
          or_seq_num = seq_num h, or_header = header_encode C h, or_header_size = header_size h,
          or_body = op_body p\<rparr>)"

definition has_operation :: "'l operations_table \<Rightarrow> hash \<Rightarrow> bool" where
  "has_operation tbl i = list_ex (\<lambda>r. or_hash r = i) tbl"

definition insert_operation ::
  "'v cbor_api \<Rightarrow> 'l operations_table \<Rightarrow> hash \<Rightarrow> ('v, 'e) operation \<Rightarrow> 'l \<Rightarrow> 'l operations_table \<times> bool" where
  "insert_operation C tbl i p log_id =
     (if has_operation tbl i then (tbl, False) else (tbl @ [operation_row_of C i p log_id], True))"

definition operation_of_row ::
  "'v cbor_api \<Rightarrow> 'sk crypto_api \<Rightarrow> ('e, 'v) ext_api \<Rightarrow> 'l operation_row \<Rightarrow> header_error + ('v, 'e) operation" where
  "operation_of_row C K E r =
     bind_result (header_decode C K E (or_header r)) (\<lambda>h.
       Inr \<lparr>op_hash = or_hash r, op_header = h, op_body = or_body r\<rparr>)"

definition any_operation_of_row ::
  "'v cbor_api \<Rightarrow> 'sk crypto_api \<Rightarrow> 'l operation_row \<Rightarrow> header_error + 'v any_operation" where
  "any_operation_of_row C K r =
     bind_result (any_header_decode C K (or_header r)) (\<lambda>h.
       Inr \<lparr>any_op_hash = or_hash r, any_op_header = h, any_op_body = or_body r\<rparr>)"

definition get_operation ::
  "'v cbor_api \<Rightarrow> 'sk crypto_api \<Rightarrow> ('e, 'v) ext_api \<Rightarrow> 'l operations_table \<Rightarrow> hash \<Rightarrow>
   header_error + ('v, 'e) operation option" where
  "get_operation C K E tbl i =
     (case List.find (\<lambda>r. or_hash r = i) tbl of
        None \<Rightarrow> Inr None
      | Some r \<Rightarrow> bind_result (operation_of_row C K E r) (\<lambda>p. Inr (Some p)))"

definition delete_operation :: "'l operations_table \<Rightarrow> hash \<Rightarrow> 'l operations_table \<times> bool" where
  "delete_operation tbl i = (filter (\<lambda>r. or_hash r \<noteq> i) tbl, has_operation tbl i)"

definition delete_operation_payload :: "'l operations_table \<Rightarrow> hash \<Rightarrow> 'l operations_table \<times> bool" where
  "delete_operation_payload tbl i =
     (map (\<lambda>r. if or_hash r = i then r\<lparr>or_body := None\<rparr> else r) tbl, has_operation tbl i)"

subsection \<open>Logs\<close>

definition log_rows :: "'l operations_table \<Rightarrow> verifying_key \<Rightarrow> 'l \<Rightarrow> 'l operation_row list" where
  "log_rows tbl author log_id = filter (\<lambda>r. or_verifying_key r = author \<and> or_log_id r = log_id) tbl"

definition get_latest_entry ::
  "'v cbor_api \<Rightarrow> 'sk crypto_api \<Rightarrow> 'l operations_table \<Rightarrow> verifying_key \<Rightarrow> 'l \<Rightarrow>
   header_error + 'v any_operation option" where
  "get_latest_entry C K tbl author log_id =
     (case sort_key (\<lambda>r. - uint (or_seq_num r)) (log_rows tbl author log_id) of
        [] \<Rightarrow> Inr None
      | latest # _ \<Rightarrow> bind_result (any_operation_of_row C K latest) (\<lambda>p. Inr (Some p)))"

definition get_log_heights ::
  "'l operations_table \<Rightarrow> verifying_key \<Rightarrow> 'l list \<Rightarrow> ('l, seq_num) amap option" where
  "get_log_heights tbl author logs =
     (let heights = List.map_filter (\<lambda>log_id.
            case map or_seq_num (log_rows tbl author log_id) of
              [] \<Rightarrow> None
            | s # ss \<Rightarrow> Some (log_id, fold max ss s)) (remdups logs)
      in if heights = [] then None else Some heights)"

definition in_range :: "seq_num option \<Rightarrow> seq_num option \<Rightarrow> 'l operation_row \<Rightarrow> bool" where
  "in_range after until r \<longleftrightarrow>
     (case after of None \<Rightarrow> 0 \<le> or_seq_num r | Some s \<Rightarrow> s < or_seq_num r) \<and>
     or_seq_num r \<le> (case until of None \<Rightarrow> - 1 | Some s \<Rightarrow> s)"

definition sql_sum :: "nat list \<Rightarrow> nat option" where
  "sql_sum xs = (if xs = [] then None else Some (sum_list xs))"

definition get_log_size ::
  "(nat option \<Rightarrow> u32 option) \<Rightarrow> 'l operations_table \<Rightarrow> verifying_key \<Rightarrow> 'l \<Rightarrow> seq_num option \<Rightarrow>
   seq_num option \<Rightarrow> (u32 \<times> u32) option" where
  "get_log_size sql_u32 tbl author log_id after until =
     (let rows = filter (in_range after until) (log_rows tbl author log_id)
      in case (sql_u32 (sql_sum (map (unat \<circ> or_header_size) rows)),
               sql_u32 (sql_sum (map (unat \<circ> or_payload_size) rows)), sql_u32 (Some (length rows))) of
           (Some total_header_bytes, Some total_payload_bytes, Some total_operation_count) \<Rightarrow>
             Some (total_operation_count, total_header_bytes + total_payload_bytes)
         | _ \<Rightarrow> None)"

record ('v, 'l) stream_item =
  si_entry :: "'v any_operation"
  si_log_id :: 'l
  si_bytes :: bytes

fun stream_rows ::
  "'v cbor_api \<Rightarrow> 'sk crypto_api \<Rightarrow> 'l \<Rightarrow> 'l operation_row list \<Rightarrow> (header_error + ('v, 'l) stream_item) list" where
  "stream_rows C K log_id [] = []"
| "stream_rows C K log_id (r # rs) =
     (case any_operation_of_row C K r of
        Inl e \<Rightarrow> [Inl e]
      | Inr p \<Rightarrow> Inr \<lparr>si_entry = p, si_log_id = log_id, si_bytes = or_header r\<rparr> # stream_rows C K log_id rs)"

definition log_entries ::
  "'v cbor_api \<Rightarrow> 'sk crypto_api \<Rightarrow> 'l operations_table \<Rightarrow> verifying_key \<Rightarrow> 'l \<Rightarrow> seq_num option \<Rightarrow>
   seq_num option \<Rightarrow> (header_error + ('v, 'l) stream_item) list" where
  "log_entries C K tbl author log_id after until =
     stream_rows C K log_id
       (sort_key or_seq_num (filter (in_range after until) (log_rows tbl author log_id)))"

definition prune_entries ::
  "'l operations_table \<Rightarrow> verifying_key \<Rightarrow> 'l \<Rightarrow> seq_num \<Rightarrow> 'l operations_table \<times> nat" where
  "prune_entries tbl author log_id until =
     (let pruned = (\<lambda>r. or_verifying_key r = author \<and> or_log_id r = log_id \<and> or_seq_num r < until)
      in (filter (\<lambda>r. \<not> pruned r) tbl, length (filter pruned tbl)))"

subsection \<open>Topics\<close>

type_synonym ('t, 'l) topics_table = "('t \<times> verifying_key \<times> 'l) list"

definition associate :: "('t, 'l) topics_table \<Rightarrow> 't \<Rightarrow> verifying_key \<Rightarrow> 'l \<Rightarrow> ('t, 'l) topics_table \<times> bool" where
  "associate tbl topic author data_id =
     (if (topic, author, data_id) \<in> set tbl then (tbl, False) else (tbl @ [(topic, author, data_id)], True))"

definition topic_remove :: "('t, 'l) topics_table \<Rightarrow> 't \<Rightarrow> verifying_key \<Rightarrow> 'l \<Rightarrow> ('t, 'l) topics_table \<times> bool" where
  "topic_remove tbl topic author data_id =
     (filter (\<lambda>r. r \<noteq> (topic, author, data_id)) tbl, (topic, author, data_id) \<in> set tbl)"

definition resolve :: "('t, 'l) topics_table \<Rightarrow> 't \<Rightarrow> (verifying_key, 'l list) amap" where
  "resolve tbl topic =
     fold (\<lambda>(t, author, data_id) result.
        if t = topic
        then amap_insert author ((case map_of result author of None \<Rightarrow> [] | Some ds \<Rightarrow> ds) @ [data_id]) result
        else result) tbl []"

definition resolve_topics :: "('t, 'l) topics_table \<Rightarrow> verifying_key \<Rightarrow> 'l \<Rightarrow> 't list" where
  "resolve_topics tbl author data_id = map fst (filter (\<lambda>(_, a, d). a = author \<and> d = data_id) tbl)"

definition topics :: "('t, 'l) topics_table \<Rightarrow> 't list" where
  "topics tbl = remdups (map fst tbl)"

subsection \<open>Cursors\<close>

type_synonym ('a, 'l) cursors_table = "(string, ('a, 'l) cursor) amap"

definition get_cursor :: "('a, 'l) cursors_table \<Rightarrow> string \<Rightarrow> ('a, 'l) cursor option" where
  "get_cursor tbl name = map_of tbl name"

definition set_cursor :: "('a, 'l) cursors_table \<Rightarrow> ('a, 'l) cursor \<Rightarrow> ('a, 'l) cursors_table" where
  "set_cursor tbl c = amap_insert (cursor_name c) c tbl"

definition delete_cursor :: "('a, 'l) cursors_table \<Rightarrow> string \<Rightarrow> ('a, 'l) cursors_table" where
  "delete_cursor tbl name = amap_remove name tbl"

end
