(* ===== verification/Stream_Ingest.thy ===== *)
theory Stream_Ingest
  imports Store_Logs
begin

section \<open>Ingesting operations\<close>

text \<open>
  \<open>p2panda-stream/src/ingest/ooo.rs\<close>, \<open>ingest/operation.rs\<close>, \<open>ingest/processor.rs\<close> and
  \<open>log_prune/processor.rs\<close>: the buffer for operations that arrive out of order, the checks before an
  operation is written to the store, and the two stream processors. The buffer is an \<open>IndexMap\<close>, a list
  of entries in insertion order with distinct keys. A transaction that is not committed is rolled back,
  so a failing or ignored ingest returns the store it was given; the buffer is not part of it.
\<close>

subsection \<open>The ring buffer\<close>

type_synonym ('i, 'l) ring_key = "'i option \<times> 'l"

record ('i, 'l, 'x) chain_ring =
  ring_buffer :: "(('i, 'l) ring_key, 'i \<times> 'x) amap"
  ring_capacity :: nat

definition ring_with_capacity :: "nat \<Rightarrow> ('i, 'l, 'x) chain_ring" where
  "ring_with_capacity n = \<lparr>ring_buffer = [], ring_capacity = n\<rparr>"

definition ring_push :: "'i \<Rightarrow> 'i option \<Rightarrow> 'l \<Rightarrow> 'x \<Rightarrow> ('i, 'l, 'x) chain_ring \<Rightarrow> ('i, 'l, 'x) chain_ring" where
  "ring_push i bl log_id item ring =
     (let buffer = (if ring_capacity ring \<le> length (ring_buffer ring) then butlast (ring_buffer ring)
                    else ring_buffer ring)
      in ring\<lparr>ring_buffer := amap_insert (bl, log_id) (i, item) buffer\<rparr>)"

lemma length_amap_remove: "map_of m k \<noteq> None \<Longrightarrow> length (amap_remove k m) < length m"
  by (induction m) (auto simp: amap_remove_def AList.delete_eq less_Suc_eq_le split: if_splits intro: length_filter_le)

function pop_loop ::
  "'l \<Rightarrow> 'i option \<Rightarrow> (('i, 'l) ring_key, 'i \<times> 'x) amap \<Rightarrow> 'x list \<times> (('i, 'l) ring_key, 'i \<times> 'x) amap" where
  "pop_loop log_id bl buffer =
     (case map_of buffer (bl, log_id) of
        None \<Rightarrow> ([], buffer)
      | Some (i, item) \<Rightarrow>
          (case pop_loop log_id (Some i) (amap_remove (bl, log_id) buffer) of
             (result, buffer) \<Rightarrow> (item # result, buffer)))"
  by pat_completeness auto

termination
  by (relation "measure (\<lambda>(_, _, buffer). length buffer)") (auto intro: length_amap_remove)

definition pop_from :: "'i option \<Rightarrow> 'l \<Rightarrow> ('i, 'l, 'x) chain_ring \<Rightarrow> 'x list \<times> ('i, 'l, 'x) chain_ring" where
  "pop_from bl log_id ring =
     (case pop_loop log_id bl (ring_buffer ring) of
        (result, buffer) \<Rightarrow> (result, ring\<lparr>ring_buffer := buffer\<rparr>))"

definition ring_len :: "('i, 'l, 'x) chain_ring \<Rightarrow> nat" where
  "ring_len ring = length (ring_buffer ring)"

definition ring_is_empty :: "('i, 'l, 'x) chain_ring \<Rightarrow> bool" where
  "ring_is_empty ring \<longleftrightarrow> ring_buffer ring = []"

definition ring_clear :: "('i, 'l, 'x) chain_ring \<Rightarrow> ('i, 'l, 'x) chain_ring" where
  "ring_clear ring = ring\<lparr>ring_buffer := []\<rparr>"

subsection \<open>The out-of-order buffer\<close>

type_synonym ('v, 'e, 'l) ooo_buffer = "(hash, 'l, ('v, 'e) operation) chain_ring"

datatype ('v, 'e) ooo_result =
    InOrder "('v, 'e) operation"
  | Ordered "('v, 'e) operation list"
  | OutOfOrder
  | Outdated

definition ooo_new :: "('v, 'e, 'l) ooo_buffer" where
  "ooo_new = ring_with_capacity 128"

definition push_and_pop_from ::
  "('v, 'e) operation \<Rightarrow> hash option \<Rightarrow> 'l \<Rightarrow> ('v, 'e, 'l) ooo_buffer \<Rightarrow> ('v, 'e) ooo_result \<times> ('v, 'e, 'l) ooo_buffer" where
  "push_and_pop_from p expected_backlink log_id ring =
     (case pop_from expected_backlink log_id (ring_push (op_hash p) (backlink (op_header p)) log_id p ring) of
        (result, ring) \<Rightarrow> (if result = [] then OutOfOrder else Ordered result, ring))"

definition saturating_pred :: "u32 \<Rightarrow> u32" where
  "saturating_pred s = (if s = 0 then 0 else s - 1)"

definition ooo_process ::
  "('v, 'e) operation \<Rightarrow> 'v any_header option \<Rightarrow> 'l \<Rightarrow> bool \<Rightarrow> ('v, 'e, 'l) ooo_buffer \<Rightarrow>
   ('v, 'e) ooo_result \<times> ('v, 'e, 'l) ooo_buffer" where
  "ooo_process p latest_header log_id prune_flag ring =
     (if prune_flag then (InOrder p, ring)
      else (case latest_header of
              Some latest \<Rightarrow>
                if seq_num (op_header p) < seq_num latest then (Outdated, ring)
                else if seq_num latest = saturating_pred (seq_num (op_header p)) then (InOrder p, ring)
                else push_and_pop_from p (backlink latest) log_id ring
            | None \<Rightarrow> push_and_pop_from p None log_id ring))"

subsection \<open>Ingesting an operation\<close>

record ('l, 't) log_store =
  ls_operations :: "'l operations_table"
  ls_topics :: "('t, 'l) topics_table"

datatype ('v, 'e) ingest_result =
    Inserted
  | AlreadyExists
  | IngestOrdered "('v, 'e) operation list"
  | IngestOutOfOrder
  | IngestOutdated

datatype ingest_error = InvalidOperation operation_error | HashMismatch | StoreError header_error

definition map_err :: "('a \<Rightarrow> 'b) \<Rightarrow> 'a + 'c \<Rightarrow> 'b + 'c" where
  "map_err f r = (case r of Inl e \<Rightarrow> Inl (f e) | Inr x \<Rightarrow> Inr x)"

definition latest_header ::
  "'v cbor_api \<Rightarrow> 'sk crypto_api \<Rightarrow> ('l, 't) log_store \<Rightarrow> verifying_key \<Rightarrow> 'l \<Rightarrow>
   ingest_error + 'v any_header option" where
  "latest_header C K st author log_id =
     bind_result (map_err StoreError (get_latest_entry C K (ls_operations st) author log_id)) (\<lambda>latest.
       Inr (map_option any_op_header latest))"

definition check_log_and_insert ::
  "'v cbor_api \<Rightarrow> 'sk crypto_api \<Rightarrow> ('l, 't) log_store \<Rightarrow> ('v, 'e) operation \<Rightarrow> 'l \<Rightarrow> 't \<Rightarrow> bool \<Rightarrow>
   ingest_error + ('l, 't) log_store" where
  "check_log_and_insert C K st p log_id topic prune_flag =
     bind_result (latest_header C K st (verifying_key (op_header p)) log_id) (\<lambda>latest.
     bind_result (map_err InvalidOperation
         (validate_prunable_backlink (map_option item_of_header latest)
            (item_of_header (any_of_header (op_header p))) prune_flag)) (\<lambda>_.
       Inr (st\<lparr>ls_operations := fst (insert_operation C (ls_operations st) (op_hash p) p log_id),
               ls_topics := fst (associate (ls_topics st) topic (verifying_key (op_header p)) log_id)\<rparr>)))"

fun insert_all ::
  "'v cbor_api \<Rightarrow> 'sk crypto_api \<Rightarrow> ('l, 't) log_store \<Rightarrow> ('v, 'e) operation list \<Rightarrow> 'l \<Rightarrow> 't \<Rightarrow> bool \<Rightarrow>
   ingest_error + ('l, 't) log_store" where
  "insert_all C K st [] log_id topic prune_flag = Inr st"
| "insert_all C K st (p # ps) log_id topic prune_flag =
     bind_result (check_log_and_insert C K st p log_id topic prune_flag) (\<lambda>st.
       insert_all C K st ps log_id topic prune_flag)"

definition ingest_checked ::
  "'v cbor_api \<Rightarrow> 'sk crypto_api \<Rightarrow> ('l, 't) log_store \<Rightarrow> ('v, 'e, 'l) ooo_buffer option \<Rightarrow> ('v, 'e) operation \<Rightarrow>
   'l \<Rightarrow> 't \<Rightarrow> bool \<Rightarrow>
   (ingest_error + ('l, 't) log_store \<times> ('v, 'e) ingest_result) \<times> ('v, 'e, 'l) ooo_buffer option" where
  "ingest_checked C K st ooo p log_id topic prune_flag =
     (case ooo of
        None \<Rightarrow>
          (bind_result (check_log_and_insert C K st p log_id topic prune_flag) (\<lambda>st. Inr (st, Inserted)), None)
      | Some ring \<Rightarrow>
          (case latest_header C K st (verifying_key (op_header p)) log_id of
             Inl e \<Rightarrow> (Inl e, Some ring)
           | Inr latest \<Rightarrow>
               (case ooo_process p latest log_id prune_flag ring of
                  (InOrder p, ring) \<Rightarrow>
                    (bind_result (check_log_and_insert C K st p log_id topic prune_flag) (\<lambda>st. Inr (st, Inserted)),
                     Some ring)
                | (Ordered ps, ring) \<Rightarrow>
                    (bind_result (insert_all C K st ps log_id topic prune_flag) (\<lambda>st. Inr (st, IngestOrdered ps)),
                     Some ring)
                | (OutOfOrder, ring) \<Rightarrow> (Inr (st, IngestOutOfOrder), Some ring)
                | (Outdated, ring) \<Rightarrow> (Inr (st, IngestOutdated), Some ring))))"

definition ingest_operation ::
  "'v cbor_api \<Rightarrow> 'sk crypto_api \<Rightarrow> ('l, 't) log_store \<Rightarrow> ('v, 'e, 'l) ooo_buffer option \<Rightarrow> ('v, 'e) operation \<Rightarrow>
   'l \<Rightarrow> 't \<Rightarrow> bool \<Rightarrow>
   (ingest_error + ('l, 't) log_store \<times> ('v, 'e) ingest_result) \<times> ('v, 'e, 'l) ooo_buffer option" where
  "ingest_operation C K st ooo p log_id topic prune_flag =
     (if op_hash p \<noteq> digest (op_header p) then (Inl HashMismatch, ooo)
      else (case validate_operation K (item_of_operation p) of
              Inl e \<Rightarrow> (Inl (InvalidOperation e), ooo)
            | Inr _ \<Rightarrow>
                if has_operation (ls_operations st) (op_hash p) then (Inr (st, AlreadyExists), ooo)
                else ingest_checked C K st ooo p log_id topic prune_flag))"

definition ingest_validate_operation ::
  "'v cbor_api \<Rightarrow> 'sk crypto_api \<Rightarrow> ('l, 't) log_store \<Rightarrow> ('v, 'e) operation \<Rightarrow> 'l \<Rightarrow> bool \<Rightarrow> ingest_error + unit" where
  "ingest_validate_operation C K st p log_id prune_flag =
     (if op_hash p \<noteq> digest (op_header p) then Inl HashMismatch
      else bind_result (map_err InvalidOperation (validate_operation K (item_of_operation p))) (\<lambda>_.
           bind_result (latest_header C K st (verifying_key (op_header p)) log_id) (\<lambda>latest.
           map_err InvalidOperation
             (validate_prunable_backlink (map_option item_of_header latest)
                (item_of_header (any_of_header (op_header p))) prune_flag))))"

subsection \<open>The stream processors\<close>

record ('l, 't) ingest_args =
  ia_log_id :: 'l
  ia_topic :: 't
  ia_prune_flag :: bool

record ('l, 't, 'v, 'e) ingest =
  in_store :: "('l, 't) log_store"
  in_queue :: "((('v, 'e) operation \<times> ('l, 't) ingest_args) \<times> ('v, 'e) ingest_result) list"

definition ingest_process ::
  "'v cbor_api \<Rightarrow> 'sk crypto_api \<Rightarrow> ('l, 't, 'v, 'e) ingest \<Rightarrow> ('v, 'e) operation \<times> ('l, 't) ingest_args \<Rightarrow>
   ('l, 't, 'v, 'e) ingest \<times> ((('v, 'e) operation \<times> ('l, 't) ingest_args) \<times> ingest_error + unit)" where
  "ingest_process C K s input =
     (case input of (p, args) \<Rightarrow>
        (case fst (ingest_operation C K (in_store s) None p (ia_log_id args) (ia_topic args) (ia_prune_flag args)) of
           Inl e \<Rightarrow> (s, Inl (input, e))
         | Inr (st, result) \<Rightarrow> (s\<lparr>in_store := st, in_queue := in_queue s @ [(input, result)]\<rparr>, Inr ())))"

definition ingest_next ::
  "('l, 't, 'v, 'e) ingest \<Rightarrow>
   (('l, 't, 'v, 'e) ingest \<times> ((('v, 'e) operation \<times> ('l, 't) ingest_args) \<times> ('v, 'e) ingest_result)) option" where
  "ingest_next s = (case in_queue s of [] \<Rightarrow> None | item # rest \<Rightarrow> Some (s\<lparr>in_queue := rest\<rparr>, item))"

datatype 'l log_prune_args = PruneEntriesUntil verifying_key 'l seq_num | PruneIgnore

datatype log_prune_result = Noop | Pruned nat

definition log_prune_process ::
  "'l operations_table \<times> ('l log_prune_args \<times> log_prune_result) list \<Rightarrow> 'l log_prune_args \<Rightarrow>
   'l operations_table \<times> ('l log_prune_args \<times> log_prune_result) list" where
  "log_prune_process s args =
     (case s of (tbl, queue) \<Rightarrow>
        (case args of
           PruneEntriesUntil author log_id sn \<Rightarrow>
             (case prune_entries tbl author log_id sn of
                (tbl, num_entries) \<Rightarrow> (tbl, queue @ [(args, Pruned num_entries)]))
         | PruneIgnore \<Rightarrow> (tbl, queue @ [(args, Noop)])))"

subsection \<open>Stored logs are chains\<close>

definition log_chain :: "'v cbor_api \<Rightarrow> 'sk crypto_api \<Rightarrow> 'l operation_row list \<Rightarrow> bool" where
  "log_chain C K rows \<longleftrightarrow>
     (\<forall>k < length rows. \<exists>h. any_header_decode C K (or_header (rows ! k)) = Inr h \<and>
        digest h = or_hash (rows ! k) \<and> seq_num h = or_seq_num (rows ! k) \<and> unat (seq_num h) = k \<and>
        backlink h = (if k = 0 then None else Some (or_hash (rows ! (k - 1)))))"

definition chains_ok :: "'v cbor_api \<Rightarrow> 'sk crypto_api \<Rightarrow> 'l operations_table \<Rightarrow> bool" where
  "chains_ok C K tbl \<longleftrightarrow> (\<forall>author log_id. log_chain C K (log_rows tbl author log_id))"

definition storable :: "'v cbor_api \<Rightarrow> 'sk crypto_api \<Rightarrow> ('v, 'e) operation \<Rightarrow> bool" where
  "storable C K p \<longleftrightarrow> any_header_decode C K (header_encode C (op_header p)) = Inr (any_of_header (op_header p))"

definition checked :: "'v cbor_api \<Rightarrow> 'sk crypto_api \<Rightarrow> ('v, 'e) operation \<Rightarrow> bool" where
  "checked C K p \<longleftrightarrow>
     storable C K p \<and> op_hash p = digest (op_header p) \<and>
     (backlink (op_header p) \<noteq> None \<longleftrightarrow> 0 < seq_num (op_header p))"

lemma log_chainD:
  assumes "log_chain C K rows" "k < length rows"
  obtains h where "any_header_decode C K (or_header (rows ! k)) = Inr h" "digest h = or_hash (rows ! k)"
    "seq_num h = or_seq_num (rows ! k)" "unat (seq_num h) = k"
    "backlink h = (if k = 0 then None else Some (or_hash (rows ! (k - 1))))"
  using assms unfolding log_chain_def by blast

lemma chain_seq_nums: "log_chain C K rows \<Longrightarrow> map (unat \<circ> or_seq_num) rows = [0..<length rows]"
  by (rule nth_equalityI) (auto elim: log_chainD)

lemma chain_latest:
  assumes "log_chain C K (log_rows tbl author log_id)"
  shows "sort_key (\<lambda>r. - uint (or_seq_num r)) (log_rows tbl author log_id) = rev (log_rows tbl author log_id)"
proof -
  let ?rows = "log_rows tbl author log_id" and ?f = "\<lambda>r. - uint (or_seq_num r)"
  have "map ?f ?rows = map (\<lambda>n. - int n) (map (unat \<circ> or_seq_num) ?rows)"
    by simp
  then have eq: "map ?f ?rows = map (\<lambda>n. - int n) [0..<length ?rows]"
    unfolding chain_seq_nums[OF assms] .
  then have d: "distinct (map ?f ?rows)"
    by (simp add: distinct_map inj_on_def)
  moreover have "sorted (map ?f (rev ?rows))"
    unfolding rev_map[symmetric] eq by (auto simp: sorted_wrt_iff_nth_less rev_nth)
  moreover have "distinct (map ?f (rev ?rows))"
    using d by (simp add: rev_map[symmetric])
  ultimately show ?thesis
    by (intro sort_key_unique) simp_all
qed

lemma chain_latest_header:
  assumes "chains_ok C K (ls_operations st)"
  shows "latest_header C K st author log_id =
    (let rows = log_rows (ls_operations st) author log_id
     in Inr (if rows = [] then None else Some (projr (any_header_decode C K (or_header (last rows))))))"
proof (cases "log_rows (ls_operations st) author log_id" rule: rev_cases)
  case Nil
  then show ?thesis
    by (simp add: latest_header_def get_latest_entry_def map_err_def)
next
  case (snoc rows r)
  have c: "log_chain C K (log_rows (ls_operations st) author log_id)"
    using assms by (simp add: chains_ok_def)
  then obtain h where "any_header_decode C K (or_header r) = Inr h"
    by (rule log_chainD[of _ _ _ "length rows"]) (simp_all add: snoc)
  then show ?thesis
    unfolding latest_header_def get_latest_entry_def chain_latest[OF c]
    by (simp add: snoc any_operation_of_row_def map_err_def)
qed

lemma log_rows_append:
  "log_rows (tbl @ [r]) author log_id =
     log_rows tbl author log_id @ (if or_verifying_key r = author \<and> or_log_id r = log_id then [r] else [])"
  by (simp add: log_rows_def)

lemma log_chain_snoc:
  assumes "log_chain C K rows" "any_header_decode C K (or_header r) = Inr h" "digest h = or_hash r"
    "seq_num h = or_seq_num r" "unat (seq_num h) = length rows"
    "backlink h = (if rows = [] then None else Some (or_hash (last rows)))"
  shows "log_chain C K (rows @ [r])"
  unfolding log_chain_def
proof (intro allI impI)
  fix k assume "k < length (rows @ [r])"
  then consider "k < length rows" | "k = length rows"
    by fastforce
  then show "\<exists>h. any_header_decode C K (or_header ((rows @ [r]) ! k)) = Inr h \<and>
      digest h = or_hash ((rows @ [r]) ! k) \<and> seq_num h = or_seq_num ((rows @ [r]) ! k) \<and> unat (seq_num h) = k \<and>
      backlink h = (if k = 0 then None else Some (or_hash ((rows @ [r]) ! (k - 1))))"
  proof cases
    case 1
    then show ?thesis
      using assms(1) unfolding log_chain_def by (auto simp: nth_append)
  next
    case 2
    then show ?thesis
      using assms(2-6) by (auto simp: nth_append last_conv_nth)
  qed
qed

lemma check_log_and_insert_chains:
  assumes ok: "chains_ok C K (ls_operations st)" and p: "checked C K p"
    and ins: "check_log_and_insert C K st p log_id topic False = Inr st'"
  shows "chains_ok C K (ls_operations st')"
proof (cases "has_operation (ls_operations st) (op_hash p)")
  case True
  then show ?thesis
    using ok ins by (auto simp: check_log_and_insert_def insert_operation_def bind_result_eq_Inr)
next
  case False
  let ?h = "op_header p" and ?tbl = "ls_operations st"
  let ?r = "operation_row_of C (op_hash p) p log_id" and ?rows = "log_rows ?tbl (verifying_key ?h) log_id"
  have tbl': "ls_operations st' = ?tbl @ [?r]"
    using ins False by (auto simp: check_log_and_insert_def insert_operation_def bind_result_eq_Inr)
  have c: "log_chain C K ?rows"
    using ok by (simp add: chains_ok_def)
  have seq: "backlink ?h \<noteq> None \<longleftrightarrow> 0 < seq_num ?h"
    using p by (simp add: checked_def)
  have valid: "validate_prunable_backlink (map_option item_of_header
      (if ?rows = [] then None else Some (projr (any_header_decode C K (or_header (last ?rows))))))
      (item_of_header (any_of_header ?h)) False = Inr ()"
    using ins unfolding check_log_and_insert_def chain_latest_header[OF ok]
    by (auto simp: bind_result_eq_Inr map_err_def Let_def split: sum.splits)
  have "unat (seq_num ?h) = length ?rows \<and> backlink ?h = (if ?rows = [] then None else Some (or_hash (last ?rows)))"
  proof (cases "?rows = []")
    case True
    then show ?thesis
      using valid seq by (auto simp: validate_prunable_backlink_def item_of_header_def any_of_header_def any_header.defs word_gt_0 split: if_splits)
  next
    case ne: False
    then obtain g where g: "any_header_decode C K (or_header (last ?rows)) = Inr g" "digest g = or_hash (last ?rows)"
        "unat (seq_num g) = length ?rows - 1"
      using log_chainD[OF c, of "length ?rows - 1"] by (metis diff_less last_conv_nth length_greater_0_conv less_one)
    have "validate_backlink (item_of_header g) (item_of_header (any_of_header ?h)) = Inr ()"
      using valid ne g(1) by (auto simp: validate_prunable_backlink_def split: if_splits)
    then have v: "seq_num ?h = seq_num g + 1" "backlink ?h = Some (digest g)"
      by (simp_all add: validate_backlink_ok item_of_header_def any_of_header_def any_header.defs)
    then have "seq_num g \<noteq> - 1"
      using seq by auto
    then have "unat (seq_num ?h) = Suc (unat (seq_num g))"
      unfolding v(1) by (rule unat_plus_one)
    then show ?thesis
      using ne g v(2) by (simp add: Suc_diff_1)
  qed
  then have "log_chain C K (?rows @ [?r])"
    using p by (intro log_chain_snoc[OF c, of _ "any_of_header ?h"])
      (simp_all add: operation_row_of_def Let_def checked_def storable_def any_of_header_def any_header.defs)
  then show ?thesis
    using ok unfolding tbl' chains_ok_def log_rows_append by (auto simp: operation_row_of_def Let_def)
qed

lemma insert_all_chains:
  "chains_ok C K (ls_operations st) \<Longrightarrow> \<forall>p \<in> set ps. checked C K p \<Longrightarrow>
   insert_all C K st ps log_id topic False = Inr st' \<Longrightarrow> chains_ok C K (ls_operations st')"
  by (induction ps arbitrary: st) (auto simp: bind_result_eq_Inr dest: check_log_and_insert_chains)

definition buffered :: "('i, 'l, 'x) chain_ring \<Rightarrow> 'x set" where
  "buffered ring = (snd \<circ> snd) ` set (ring_buffer ring)"

lemma set_amap_insert: "set (amap_insert k v m) \<subseteq> insert (k, v) (set m)"
  by (induction m) (auto simp: amap_insert_def)

lemma buffered_push: "buffered (ring_push i bl log_id x ring) \<subseteq> insert x (buffered ring)"
proof -
  let ?b = "if ring_capacity ring \<le> length (ring_buffer ring) then butlast (ring_buffer ring) else ring_buffer ring"
  have "set ?b \<subseteq> set (ring_buffer ring)"
    by (auto dest: in_set_butlastD)
  then have "set (amap_insert (bl, log_id) (i, x) ?b) \<subseteq> insert ((bl, log_id), i, x) (set (ring_buffer ring))"
    using set_amap_insert[of "(bl, log_id)" "(i, x)" ?b] by blast
  then show ?thesis
    unfolding buffered_def ring_push_def Let_def by auto
qed

lemma pop_loop_items:
  "pop_loop log_id bl buffer = (xs, buffer') \<Longrightarrow>
   set xs \<subseteq> (snd \<circ> snd) ` set buffer \<and> set buffer' \<subseteq> set buffer"
proof (induction log_id bl buffer arbitrary: xs rule: pop_loop.induct)
  case (1 log_id bl buffer)
  show ?case
  proof (cases "map_of buffer (bl, log_id)")
    case None
    then show ?thesis
      using "1.prems" by simp
  next
    case (Some v)
    obtain i x where v: "v = (i, x)"
      by fastforce
    obtain ys where ys: "pop_loop log_id (Some i) (amap_remove (bl, log_id) buffer) = (ys, buffer')" "xs = x # ys"
      using "1.prems" Some v by (auto split: prod.splits)
    have "set (amap_remove (bl, log_id) buffer) \<subseteq> set buffer"
      by (auto simp: amap_remove_def AList.delete_eq)
    then show ?thesis
      using "1.IH"[OF Some v[symmetric] ys(1)] map_of_SomeD[OF Some] v ys(2) by force
  qed
qed

lemma buffered_pop: "pop_from bl log_id ring = (xs, ring') \<Longrightarrow> set xs \<subseteq> buffered ring \<and> buffered ring' \<subseteq> buffered ring"
  using pop_loop_items[of log_id bl "ring_buffer ring"] by (fastforce simp: pop_from_def buffered_def split: prod.splits)

lemma ooo_process_buffered:
  assumes "ooo_process p latest log_id prune_flag ring = (r, ring')"
  shows "buffered ring' \<subseteq> insert p (buffered ring)" "r = InOrder q \<Longrightarrow> q = p"
    "r = Ordered ps \<Longrightarrow> set ps \<subseteq> insert p (buffered ring)"
  using assms buffered_push[of "op_hash p" "backlink (op_header p)" log_id p ring] buffered_pop
  by (fastforce simp: ooo_process_def push_and_pop_from_def split: if_splits option.splits prod.splits)+

definition ingest_ok :: "'v cbor_api \<Rightarrow> 'sk crypto_api \<Rightarrow> ('l, 't) log_store \<times> ('v, 'e, 'l) ooo_buffer option \<Rightarrow> bool" where
  "ingest_ok C K s \<longleftrightarrow>
     chains_ok C K (ls_operations (fst s)) \<and>
     (case snd s of None \<Rightarrow> True | Some ring \<Rightarrow> \<forall>p \<in> buffered ring. checked C K p)"

definition ingest_step ::
  "'v cbor_api \<Rightarrow> 'sk crypto_api \<Rightarrow> ('v, 'e) operation \<times> 'l \<times> 't \<Rightarrow>
   ('l, 't) log_store \<times> ('v, 'e, 'l) ooo_buffer option \<Rightarrow> ('l, 't) log_store \<times> ('v, 'e, 'l) ooo_buffer option" where
  "ingest_step C K input s =
     (case input of (p, log_id, topic) \<Rightarrow>
        (case ingest_operation C K (fst s) (snd s) p log_id topic False of
           (Inl _, ooo) \<Rightarrow> (fst s, ooo)
         | (Inr (st, _), ooo) \<Rightarrow> (st, ooo)))"

lemma ingest_checked_ok:
  assumes ok: "ingest_ok C K (st, ooo)" and p: "checked C K p"
    and res: "ingest_checked C K st ooo p log_id topic False = (r, ooo')"
  shows "ingest_ok C K (case r of Inl _ \<Rightarrow> st | Inr (st', _) \<Rightarrow> st', ooo')"
proof (cases ooo)
  case None
  then show ?thesis
    using ok res check_log_and_insert_chains[OF _ p]
    by (auto simp: ingest_checked_def ingest_ok_def bind_result_def split: sum.splits)
next
  case (Some ring)
  have st: "chains_ok C K (ls_operations st)" and ring: "\<forall>q \<in> buffered ring. checked C K q"
    using ok Some by (simp_all add: ingest_ok_def)
  show ?thesis
  proof (cases "latest_header C K st (verifying_key (op_header p)) log_id")
    case (Inl e)
    then show ?thesis
      using res Some ok by (auto simp: ingest_checked_def)
  next
    case (Inr latest)
    obtain o1 ring' where o1: "ooo_process p latest log_id False ring = (o1, ring')"
      by fastforce
    have ring': "\<forall>q \<in> buffered ring'. checked C K q"
      using ooo_process_buffered(1)[OF o1] ring p by blast
    have "chains_ok C K (ls_operations (case r of Inl _ \<Rightarrow> st | Inr (st', _) \<Rightarrow> st'))"
    proof (cases o1)
      case (InOrder q)
      then show ?thesis
        using res Some Inr o1 ooo_process_buffered(2)[OF o1] st check_log_and_insert_chains[OF st p]
        by (auto simp: ingest_checked_def bind_result_def split: sum.splits)
    next
      case (Ordered ps)
      then have "\<forall>q \<in> set ps. checked C K q"
        using ooo_process_buffered(3)[OF o1] ring p by blast
      then show ?thesis
        using res Some Inr o1 Ordered st insert_all_chains[OF st]
        by (auto simp: ingest_checked_def bind_result_def split: sum.splits)
    qed (use res Some Inr o1 st in \<open>auto simp: ingest_checked_def\<close>)
    moreover have "ooo' = Some ring'"
      using res Some Inr o1 by (cases o1) (auto simp: ingest_checked_def)
    ultimately show ?thesis
      using ring' by (simp add: ingest_ok_def)
  qed
qed

lemma ingest_step_ok:
  assumes ok: "ingest_ok C K s" and p: "storable C K p"
  shows "ingest_ok C K (ingest_step C K (p, log_id, topic) s)"
proof (cases "op_hash p = digest (op_header p) \<and> validate_operation K (item_of_operation p) = Inr () \<and>
              \<not> has_operation (ls_operations (fst s)) (op_hash p)")
  case True
  then have "checked C K p"
    using p by (simp add: checked_def validate_operation_ok validate_header_ok item_of_operation_def item_of_header_def)
  moreover obtain r ooo where r: "ingest_checked C K (fst s) (snd s) p log_id topic False = (r, ooo)"
    by fastforce
  ultimately have "ingest_ok C K (case r of Inl _ \<Rightarrow> fst s | Inr (st', _) \<Rightarrow> st', ooo)"
    using ingest_checked_ok[of C K "fst s" "snd s"] ok by simp
  then show ?thesis
    using True r by (auto simp: ingest_step_def ingest_operation_def split: sum.splits prod.splits)
next
  case False
  then have "ingest_step C K (p, log_id, topic) s = s"
    by (auto simp: ingest_step_def ingest_operation_def split: sum.splits)
  then show ?thesis
    using ok by simp
qed

subsection \<open>Properties\<close>

text \<open>
  C9. Stored logs are chains. Start with an empty store, with or without an out-of-order buffer, and
  ingest operations without the prune flag, valid or not, in any order. Then the log of every author and
  log id in the store has the sequence numbers 0, 1, 2, ... in the order of insertion, every entry names
  the hash of the entry before it as its backlink and the first one has none. Operations come from
  decoding or from the builder, so that their header can be decoded from its encoding.
\<close>
theorem ingest_keeps_chains:
  assumes "\<forall>(p, log_id, topic) \<in> set inputs. storable C K p"
  shows "log_chain C K (log_rows (ls_operations (fst
           (fold (ingest_step C K) inputs
              (\<lparr>ls_operations = [], ls_topics = []\<rparr>, map_option ring_with_capacity capacity)))) author log_id)"
proof -
  have "ingest_ok C K (fold (ingest_step C K) inputs s)" if "ingest_ok C K s" for s
    using assms that
  proof (induction inputs arbitrary: s)
    case (Cons x inputs)
    then have "ingest_ok C K (ingest_step C K x s)"
      by (cases x) (auto intro: ingest_step_ok)
    then show ?case
      using Cons by simp
  qed simp
  moreover have "ingest_ok C K (\<lparr>ls_operations = [], ls_topics = []\<rparr>, map_option ring_with_capacity capacity)"
    by (cases capacity) (auto simp: ingest_ok_def chains_ok_def log_rows_def log_chain_def buffered_def ring_with_capacity_def)
  ultimately have "ingest_ok C K (fold (ingest_step C K) inputs
      (\<lparr>ls_operations = [], ls_topics = []\<rparr>, map_option ring_with_capacity capacity))"
    by blast
  then show ?thesis
    unfolding ingest_ok_def chains_ok_def by blast
qed

definition first_header :: "(bytes, unit) header" where
  "first_header =
     the (build framed prefix_keys unit_ext
            (builder_chain 0 (replicate 32 9) (builder_body prefix_keys [4, 2] builder_new)) 5 ())"

lemma first_header_built:
  "build framed prefix_keys unit_ext
     (builder_chain 0 (replicate 32 9) (builder_body prefix_keys [4, 2] builder_new)) 5 () = Some first_header"
  by (simp add: first_header_def build_def extensions_value_def unit_ext_def Let_def)

lemma first_builder_wf: "builder_wf (builder_chain 0 (replicate 32 9) (builder_body prefix_keys [4, 2] builder_new))"
  using crypto_ok_prefix_keys by (intro builder_wf_intros) (simp_all add: HASH_LEN_def)

theorem ingest_keeps_chains_witness:
  "log_chain framed prefix_keys (log_rows (ls_operations (fst
     (fold (ingest_step framed prefix_keys) [(operation_from_parts first_header None, 1 :: nat, 2 :: nat)]
        (\<lparr>ls_operations = [], ls_topics = []\<rparr>, Some (ring_with_capacity 4))))) (verifying_key first_header) 1)"
proof -
  have "storable framed prefix_keys (operation_from_parts first_header None)"
    using decode_built[OF cbor_ok_framed crypto_ok_prefix_keys first_builder_wf first_header_built within_limits_framed]
    by (simp add: storable_def operation_from_parts_def)
  then show ?thesis
    using ingest_keeps_chains[of "[(operation_from_parts first_header None, 1 :: nat, 2 :: nat)]" framed prefix_keys
        "Some 4" "verifying_key first_header" 1] by simp
qed

definition ring_ok :: "('i, 'l, 'x) chain_ring \<Rightarrow> bool" where
  "ring_ok ring \<longleftrightarrow> amap_wf (ring_buffer ring) \<and> length (ring_buffer ring) \<le> max 1 (ring_capacity ring)"

lemma length_amap_insert: "length (amap_insert k v m) = (if k \<in> fst ` set m then length m else Suc (length m))"
  by (induction m) (auto simp: amap_insert_def)

lemma amap_insert_new: "k \<notin> fst ` set m \<Longrightarrow> amap_insert k v m = m @ [(k, v)]"
  by (induction m) (auto simp: amap_insert_def)

lemma amap_wf_butlast: "amap_wf m \<Longrightarrow> amap_wf (butlast m)"
  by (simp add: amap_wf_def map_butlast distinct_butlast)

lemma amap_remove_absent: "k \<notin> fst ` set m \<Longrightarrow> amap_remove k m = m"
  by (force simp: amap_remove_def AList.delete_eq filter_id_conv)

lemma length_amap_remove_wf: "amap_wf m \<Longrightarrow> map_of m k = Some v \<Longrightarrow> Suc (length (amap_remove k m)) = length m"
proof (induction m)
  case (Cons e m)
  show ?case
  proof (cases "fst e = k")
    case True
    then have "amap_remove k (e # m) = amap_remove k m"
      by (cases e) (simp add: amap_remove_def)
    moreover have "k \<notin> fst ` set m"
      using Cons.prems(1) True by (auto simp: amap_wf_def)
    ultimately show ?thesis
      by (simp add: amap_remove_absent)
  next
    case False
    then show ?thesis
      using Cons by (cases e) (auto simp: amap_remove_def amap_wf_def)
  qed
qed simp

lemma pop_loop_ok:
  "pop_loop log_id bl buffer = (xs, buffer') \<Longrightarrow> amap_wf buffer \<Longrightarrow>
   amap_wf buffer' \<and> length buffer' + length xs = length buffer"
proof (induction log_id bl buffer arbitrary: xs rule: pop_loop.induct)
  case (1 log_id bl buffer)
  show ?case
  proof (cases "map_of buffer (bl, log_id)")
    case (Some v)
    obtain i x where v: "v = (i, x)"
      by fastforce
    obtain ys where ys: "pop_loop log_id (Some i) (amap_remove (bl, log_id) buffer) = (ys, buffer')" "xs = x # ys"
      using "1.prems"(1) Some v by (auto split: prod.splits)
    have "Suc (length (amap_remove (bl, log_id) buffer)) = length buffer"
      using "1.prems"(2) Some
      by (simp add: length_amap_remove_wf)
    then show ?thesis
      using "1.IH"[OF Some v[symmetric] ys(1)] "1.prems"(2) ys(2) by (simp add: amap_wf_remove)
  qed (use 1 in simp)
qed

text \<open>
  C36. The buffer is bounded and evicts the newest entry. It never holds more entries than its capacity
  (one for a capacity of zero), and its keys stay distinct. When it is full, an entry with a new key takes
  the place of the entry that was inserted last, while all older entries stay.
\<close>
theorem ring_bounded_evicts_newest:
  assumes "ring_ok ring"
  shows "ring_ok (ring_with_capacity n) \<and> ring_ok (ring_push i bl log_id x ring) \<and>
         ring_ok (snd (pop_from bl log_id ring)) \<and>
         (length (ring_buffer ring) = ring_capacity ring \<and> (bl, log_id) \<notin> fst ` set (ring_buffer ring) \<longrightarrow>
            ring_buffer (ring_push i bl log_id x ring) = butlast (ring_buffer ring) @ [((bl, log_id), i, x)])"
proof (intro conjI impI)
  show "ring_ok (ring_with_capacity n)"
    by (simp add: ring_ok_def ring_with_capacity_def)
  show "ring_ok (ring_push i bl log_id x ring)"
    using assms by (auto simp: ring_ok_def ring_push_def Let_def amap_wf_insert amap_wf_butlast length_amap_insert)
  obtain xs b where "pop_loop log_id bl (ring_buffer ring) = (xs, b)"
    by fastforce
  then show "ring_ok (snd (pop_from bl log_id ring))"
    using assms pop_loop_ok[of log_id bl "ring_buffer ring" xs b] by (simp add: ring_ok_def pop_from_def)
  assume full: "length (ring_buffer ring) = ring_capacity ring \<and> (bl, log_id) \<notin> fst ` set (ring_buffer ring)"
  then have "(bl, log_id) \<notin> fst ` set (butlast (ring_buffer ring))"
    by (auto dest: in_set_butlastD)
  then show "ring_buffer (ring_push i bl log_id x ring) = butlast (ring_buffer ring) @ [((bl, log_id), i, x)]"
    using full by (simp add: ring_push_def amap_insert_new)
qed

theorem ring_bounded_evicts_newest_witness:
  "let ring = ring_push 2 (Some 5) (7 :: nat) ''two'' (ring_push 5 (Some 0) (7 :: nat) ''one'' (ring_with_capacity 2))
   in ring_ok ring \<and> map fst (ring_buffer (ring_push (3 :: nat) (Some 2) (7 :: nat) ''three'' ring)) = [(Some 0, 7), (Some 2, 7)]"
proof -
  let ?ring = "ring_push 2 (Some 5) (7 :: nat) ''two'' (ring_push (5 :: nat) (Some 0) (7 :: nat) ''one'' (ring_with_capacity 2))"
  have b: "ring_buffer ?ring = [((Some 0, 7), 5, ''one''), ((Some 5, 7), 2, ''two'')]" "ring_capacity ?ring = 2"
    by (simp_all add: ring_push_def ring_with_capacity_def amap_insert_def)
  then have ok: "ring_ok ?ring"
    by (simp add: ring_ok_def amap_wf_def)
  have "ring_buffer (ring_push 3 (Some 2) 7 ''three'' ?ring) = butlast (ring_buffer ?ring) @ [((Some 2, 7), 3, ''three'')]"
    using conjunct2[OF conjunct2[OF conjunct2[OF ring_bounded_evicts_newest[OF ok, of 0 3 "Some 2" 7 "''three''"]]]]
    by (rule mp) (simp add: b)
  then show ?thesis
    using ok unfolding Let_def b by simp
qed

text \<open>
  C37. The buffer releases nothing once a log exists. Let entry 1 be the latest entry of a log and let
  entry 3 and then entry 2 arrive, the example of the documentation. Entry 3 is buffered; entry 2 is
  in order and is returned alone, and entry 3 stays in the buffer, although its predecessor is there. When
  entry 4 arrives after entry 2 was stored it is buffered as well and still neither is released: the
  search starts from the predecessor of the latest entry instead of the latest entry.
\<close>
theorem ooo_buffer_keeps_successors:
  fixes p2 p3 p4 :: "('v, 'e) operation" and l1 :: "'v any_header"
  assumes "seq_num l1 = 1" "seq_num (op_header p2) = 2" "seq_num (op_header p3) = 3" "seq_num (op_header p4) = 4"
    and "backlink (op_header p3) = Some (op_hash p2)" "backlink (op_header p4) = Some (op_hash p3)"
    and "backlink l1 \<noteq> Some (op_hash p2)" "backlink (op_header p2) \<noteq> Some (op_hash p2)"
        "backlink (op_header p2) \<noteq> Some (op_hash p3)" "op_hash p2 \<noteq> op_hash p3" "1 < capacity"
  shows "\<exists>ring. ooo_process p3 (Some l1) log_id False (ring_with_capacity capacity) = (OutOfOrder, ring) \<and>
                p3 \<in> buffered ring \<and>
                ooo_process p2 (Some l1) log_id False ring = (InOrder p2, ring) \<and>
                (\<exists>ring'. ooo_process p4 (Some (any_of_header (op_header p2))) log_id False ring = (OutOfOrder, ring') \<and>
                         {p3, p4} \<subseteq> buffered ring')"
proof -
  let ?ring = "\<lparr>ring_buffer = [((Some (op_hash p2), log_id), op_hash p3, p3)], ring_capacity = capacity\<rparr>"
  have "ooo_process p3 (Some l1) log_id False (ring_with_capacity capacity) = (OutOfOrder, ?ring)"
    using assms by (simp add: ooo_process_def saturating_pred_def push_and_pop_from_def pop_from_def ring_push_def
        ring_with_capacity_def amap_insert_def Let_def)
  moreover have "ooo_process p2 (Some l1) log_id False ?ring = (InOrder p2, ?ring)"
    using assms by (simp add: ooo_process_def saturating_pred_def)
  moreover have "\<exists>ring'. ooo_process p4 (Some (any_of_header (op_header p2))) log_id False ?ring = (OutOfOrder, ring') \<and>
                         {p3, p4} \<subseteq> buffered ring'"
    using assms by (auto simp: ooo_process_def saturating_pred_def push_and_pop_from_def pop_from_def ring_push_def
        amap_insert_def Let_def any_of_header_def any_header.defs buffered_def)
  ultimately show ?thesis
    by (intro exI[of _ ?ring]) (simp add: buffered_def)
qed

definition example_operation :: "u32 \<Rightarrow> (bytes, unit) operation" where
  "example_operation n =
     \<lparr>op_hash = [ucast n], op_header = first_header\<lparr>seq_num := n, backlink := Some [ucast (n - 1)], digest := [ucast n]\<rparr>,
      op_body = None\<rparr>"

theorem ooo_buffer_keeps_successors_witness:
  "\<exists>ring. ooo_process (example_operation 3) (Some (any_of_header (op_header (example_operation 1)))) (0 :: nat) False
            (ring_with_capacity 128) = (OutOfOrder, ring) \<and>
          ooo_process (example_operation 2) (Some (any_of_header (op_header (example_operation 1)))) 0 False ring =
            (InOrder (example_operation 2), ring) \<and> example_operation 3 \<in> buffered ring"
  using ooo_buffer_keeps_successors[of "any_of_header (op_header (example_operation 1))" "example_operation 2"
      "example_operation 3" "example_operation 4" 128 0]
  by (auto simp: example_operation_def any_of_header_def any_header.defs)

end
