(* ===== verification/Sync_Dedup.thy ===== *)
theory Sync_Dedup
  imports Prelude
begin

section \<open>Deduplication of received messages\<close>

text \<open>
  \<open>p2panda-sync/src/dedup.rs\<close>: a ring buffer of recently seen items with a set for the lookup. The
  code compares the length with the capacity of the \<open>VecDeque\<close>, which grows when an item is pushed to
  a full deque; how far it grows is the argument \<open>grow\<close>.
\<close>

definition DEFAULT_BUFFER_CAPACITY :: nat where
  "DEFAULT_BUFFER_CAPACITY = 1024"

record 'x dedup_buffer =
  dd_buffer :: "'x list"
  dd_capacity :: nat
  dd_set :: "'x set"

definition dedup_new :: "nat \<Rightarrow> 'x dedup_buffer" where
  "dedup_new n = \<lparr>dd_buffer = [], dd_capacity = n, dd_set = {}\<rparr>"

definition dedup_default :: "'x dedup_buffer" where
  "dedup_default = dedup_new DEFAULT_BUFFER_CAPACITY"

definition dedup_evict :: "'x dedup_buffer \<Rightarrow> 'x dedup_buffer" where
  "dedup_evict d =
     (if dd_capacity d < length (dd_buffer d) + 1
      then (case dd_buffer d of
              [] \<Rightarrow> d
            | evicted # rest \<Rightarrow> d\<lparr>dd_buffer := rest, dd_set := dd_set d - {evicted}\<rparr>)
      else d)"

definition dedup_push :: "(nat \<Rightarrow> nat) \<Rightarrow> 'x \<Rightarrow> 'x dedup_buffer \<Rightarrow> 'x dedup_buffer" where
  "dedup_push grow x d =
     d\<lparr>dd_buffer := dd_buffer d @ [x], dd_set := insert x (dd_set d),
       dd_capacity := (if length (dd_buffer d) < dd_capacity d then dd_capacity d else grow (dd_capacity d))\<rparr>"

definition dedup_insert :: "(nat \<Rightarrow> nat) \<Rightarrow> 'x \<Rightarrow> 'x dedup_buffer \<Rightarrow> bool \<times> 'x dedup_buffer" where
  "dedup_insert grow x d =
     (if x \<in> dd_set d then (False, d) else (True, dedup_push grow x (dedup_evict d)))"

definition dedup_contains :: "'x dedup_buffer \<Rightarrow> 'x \<Rightarrow> bool" where
  "dedup_contains d x \<longleftrightarrow> x \<in> dd_set d"

subsection \<open>The buffer holds the last distinct items\<close>

fun dedup_inserts :: "(nat \<Rightarrow> nat) \<Rightarrow> 'x list \<Rightarrow> 'x dedup_buffer \<Rightarrow> bool list \<times> 'x dedup_buffer" where
  "dedup_inserts grow [] d = ([], d)"
| "dedup_inserts grow (x # xs) d =
     (case dedup_insert grow x d of (b, d) \<Rightarrow>
        (case dedup_inserts grow xs d of (bs, d) \<Rightarrow> (b # bs, d)))"

definition dedup_ok :: "nat \<Rightarrow> 'x dedup_buffer \<Rightarrow> bool" where
  "dedup_ok n d \<longleftrightarrow>
     dd_capacity d = n \<and> length (dd_buffer d) \<le> n \<and> distinct (dd_buffer d) \<and> dd_set d = set (dd_buffer d)"

lemma dedup_insert_ok:
  assumes "dedup_ok n d" "0 < n" "dedup_insert grow x d = (b, d')"
  shows "dedup_ok n d'" "b \<longleftrightarrow> x \<notin> set (dd_buffer d)"
    "b \<Longrightarrow> dd_buffer d' = (if length (dd_buffer d) < n then dd_buffer d else tl (dd_buffer d)) @ [x]"
    "x \<in> set (dd_buffer d')"
proof -
  consider "x \<in> set (dd_buffer d)" | "x \<notin> set (dd_buffer d)" "length (dd_buffer d) < n"
    | y ys where "x \<notin> set (dd_buffer d)" "dd_buffer d = y # ys" "length (dd_buffer d) = n"
    using assms(1,2) by (cases "dd_buffer d"; cases "length (dd_buffer d) < n") (auto simp: dedup_ok_def)
  then have "dedup_ok n d' \<and> (b \<longleftrightarrow> x \<notin> set (dd_buffer d)) \<and>
    (b \<longrightarrow> dd_buffer d' = (if length (dd_buffer d) < n then dd_buffer d else tl (dd_buffer d)) @ [x]) \<and>
    x \<in> set (dd_buffer d')"
  proof cases
    case 1
    then show ?thesis
      using assms(1,3) by (simp add: dedup_ok_def dedup_insert_def)
  next
    case 2
    then have "dedup_evict d = d"
      using assms(1) by (simp add: dedup_ok_def dedup_evict_def)
    moreover have "b" "d' = dedup_push grow x (dedup_evict d)"
      using 2 assms(1,3) by (simp_all add: dedup_ok_def dedup_insert_def)
    ultimately show ?thesis
      using 2 assms(1) by (simp add: dedup_ok_def dedup_push_def)
  next
    case 3
    then have "dedup_evict d = d\<lparr>dd_buffer := ys, dd_set := set ys\<rparr>"
      using assms(1) by (auto simp: dedup_ok_def dedup_evict_def)
    moreover have "b" "d' = dedup_push grow x (dedup_evict d)"
      using 3 assms(1,3) by (simp_all add: dedup_ok_def dedup_insert_def)
    ultimately show ?thesis
      using 3 assms(1) by (auto simp: dedup_ok_def dedup_push_def)
  qed
  then show "dedup_ok n d'" "b \<longleftrightarrow> x \<notin> set (dd_buffer d)"
    "b \<Longrightarrow> dd_buffer d' = (if length (dd_buffer d) < n then dd_buffer d else tl (dd_buffer d)) @ [x]"
    "x \<in> set (dd_buffer d')"
    by auto
qed

lemma dedup_new_ok: "dedup_ok n (dedup_new n)"
  by (simp add: dedup_ok_def dedup_new_def)

lemma dedup_inserts_ok:
  "dedup_ok n d \<Longrightarrow> 0 < n \<Longrightarrow> dedup_inserts grow xs d = (bs, d') \<Longrightarrow> dedup_ok n d'"
  by (induction xs arbitrary: d bs) (auto split: prod.splits dest: dedup_insert_ok(1))

lemma dedup_inserts_append:
  "dedup_inserts grow (xs @ ys) d =
     (case dedup_inserts grow xs d of (bs, d) \<Rightarrow> case dedup_inserts grow ys d of (cs, d) \<Rightarrow> (bs @ cs, d))"
  by (induction xs arbitrary: d) (simp_all split: prod.splits)

lemma drop_window: "n \<le> length xs \<Longrightarrow> tl (drop (length xs - n) xs) @ [x] = drop (Suc (length xs) - n) (xs @ [x])" if "0 < n"
proof -
  assume n: "n \<le> length xs"
  then have "Suc (length xs) - n = Suc (length xs - n)" "Suc (length xs - n) - length xs = 0"
    using that by arith+
  then show ?thesis
    by (simp add: drop_Suc tl_drop)
qed

lemma dedup_distinct_window:
  assumes "0 < n" "distinct xs"
  shows "fst (dedup_inserts grow xs (dedup_new n)) = replicate (length xs) True \<and>
    dd_buffer (snd (dedup_inserts grow xs (dedup_new n))) = drop (length xs - n) xs"
  using assms(2)
proof (induction xs rule: rev_induct)
  case Nil
  then show ?case by (simp add: dedup_new_def)
next
  case (snoc x xs)
  obtain bs d where d: "dedup_inserts grow xs (dedup_new n) = (bs, d)" by fastforce
  obtain b d' where d': "dedup_insert grow x d = (b, d')" by fastforce
  have IH: "bs = replicate (length xs) True" "dd_buffer d = drop (length xs - n) xs"
    using snoc d by auto
  have ok: "dedup_ok n d"
    using dedup_inserts_ok[OF dedup_new_ok assms(1) d] .
  have b: "b"
    using dedup_insert_ok(2)[OF ok assms(1) d'] snoc.prems IH(2) by (auto dest: in_set_dropD)
  have "dd_buffer d' = drop (Suc (length xs) - n) (xs @ [x])"
    using dedup_insert_ok(3)[OF ok assms(1) d' b] drop_window[OF assms(1), of xs x] IH(2)
    by (cases "length xs < n") (simp_all add: not_less)
  then show ?case
    using d d' IH(1) b by (simp add: dedup_inserts_append replicate_append_same)
qed

text \<open>
  C38. The deduplication buffer is bounded and forgets the oldest item first. Whatever is inserted, at most
  the given capacity of items is held, without duplicates, the set agrees with the queue, and inserting
  an item reports whether it was absent. After a sequence of distinct items the buffer holds
  exactly the last ones, as many as the capacity allows, and every insertion was reported as new.
\<close>
theorem dedup_window:
  assumes "0 < n"
  shows "let d = snd (dedup_inserts grow xs (dedup_new n))
    in length (dd_buffer d) \<le> n \<and> distinct (dd_buffer d) \<and>
       (\<forall>x. dedup_contains d x = (x \<in> set (dd_buffer d))) \<and>
       (\<forall>x. fst (dedup_insert grow x d) = (\<not> dedup_contains d x)) \<and>
       (distinct xs \<longrightarrow>
          fst (dedup_inserts grow xs (dedup_new n)) = replicate (length xs) True \<and>
          dd_buffer d = drop (length xs - n) xs)"
proof -
  obtain bs d where d: "dedup_inserts grow xs (dedup_new n) = (bs, d)" by fastforce
  have ok: "dedup_ok n d"
    using dedup_inserts_ok[OF dedup_new_ok assms d] .
  then have "fst (dedup_insert grow x d) = (\<not> dedup_contains d x)" for x
    by (simp add: dedup_insert_def dedup_contains_def)
  with ok dedup_distinct_window[OF assms, of xs grow] d show ?thesis
    by (simp add: dedup_ok_def dedup_contains_def)
qed

theorem dedup_window_witness:
  "dd_buffer (snd (dedup_inserts (\<lambda>n. 2 * n) [5, 6, 7 :: nat] (dedup_new 2))) = [6, 7]"
  using dedup_window[of 2 "\<lambda>n. 2 * n" "[5, 6, 7 :: nat]"] by (simp add: Let_def)

end
