(* ===== verification/Sync_Log.thy ===== *)
theory Sync_Log
  imports Store_Logs Sync_Dedup
begin

section \<open>The log sync protocol\<close>

text \<open>
  \<open>p2panda-sync/src/api.rs\<close> and \<open>p2panda-sync/src/protocols/log_sync.rs\<close>. \<open>peer_step\<close> is one iteration
  of the state machine of \<open>run\<close>: it reads from the inbox and returns the messages it sends. The
  \<open>select!\<close> of the sync loop picks between receiving and sending, which is the argument \<open>recv\<close>; \<open>None\<close>
  means that the peer waits. The inbox is what the remote has sent and the peer has not yet read;
  \<open>closed\<close> tells whether the remote has closed its end, so that reading from an empty inbox yields the
  end of the stream. The store does not change during a session. A closed event channel and errors of
  the transport are not modelled. Two peers connected by their message streams are a \<open>session\<close>, and
  \<open>session_step\<close> interleaves them in every possible way.
\<close>

subsection \<open>Queries for a session\<close>

type_synonym 'l logs = "(verifying_key, 'l list) amap"

definition log_heights_api :: "'l operations_table \<Rightarrow> 'l logs \<Rightarrow> (verifying_key, 'l) log_heights" where
  "log_heights_api tbl logs =
     fold (\<lambda>(author, log_ids) result.
        case get_log_heights tbl author log_ids of
          None \<Rightarrow> result
        | Some heights \<Rightarrow> amap_insert author heights result) logs []"

definition topic_log_heights ::
  "'l operations_table \<Rightarrow> ('t, 'l) topics_table \<Rightarrow> 't \<Rightarrow> (verifying_key, 'l) log_heights" where
  "topic_log_heights tbl assoc topic = log_heights_api tbl (resolve assoc topic)"

definition flattened_ranges ::
  "(verifying_key, 'l) log_ranges \<Rightarrow> (verifying_key \<times> 'l \<times> seq_num option \<times> seq_num option) list" where
  "flattened_ranges ranges =
     concat (map (\<lambda>(author, logs). map (\<lambda>(log_id, after, until). (author, log_id, after, until)) logs) ranges)"

fun close_on_error :: "('e + 'a) list \<Rightarrow> ('e + 'a) list" where
  "close_on_error [] = []"
| "close_on_error (Inl e # items) = [Inl e]"
| "close_on_error (Inr x # items) = Inr x # close_on_error items"

definition log_ranges_api ::
  "'v cbor_api \<Rightarrow> 'sk crypto_api \<Rightarrow> 'l operations_table \<Rightarrow> (verifying_key, 'l) log_ranges \<Rightarrow>
   (header_error + ('v, 'l) stream_item) list" where
  "log_ranges_api C K tbl ranges =
     close_on_error
       (concat (map (\<lambda>(author, log_id, after, until). log_entries C K tbl author log_id after until)
                  (flattened_ranges ranges)))"

subsection \<open>Messages, events and states\<close>

datatype 'l log_sync_message =
    Have "(verifying_key, 'l) log_heights"
  | PreSync u32 u32
  | Operation bytes "bytes option"
  | Done

record log_sync_metrics =
  outbound_operations :: u32
  outbound_bytes :: u32
  inbound_operations :: u32
  inbound_bytes :: u32
  sent_operations :: u32
  sent_bytes :: u32
  received_operations :: u32
  received_bytes :: u32

datatype ('v, 'e) log_sync_event =
    MetricsExchanged log_sync_metrics
  | OperationReceived "('v, 'e) operation" log_sync_metrics

datatype log_sync_error =
    DecodeHeader header_error
  | LogStoreError header_error
  | OperationStoreError
  | UnexpectedStreamClosure
  | UnexpectedMessage

datatype ('v, 'l) sync_state =
    Start
  | SendHave
  | ReceiveHave "(verifying_key, 'l) log_heights"
  | SendPreSync "(verifying_key, 'l) log_ranges"
  | ReceivePreSyncOrDone "(verifying_key, 'l) log_ranges" u32 u32
  | Sync "(header_error + ('v, 'l) stream_item) list" log_sync_metrics
  | End log_sync_metrics
  | Failed log_sync_error

record ('v, 'l, 'e) peer =
  pe_state :: "('v, 'l) sync_state"
  pe_done_received :: bool
  pe_done_sent :: bool
  pe_dedup :: "hash dedup_buffer"
  pe_events :: "('v, 'e) log_sync_event list"

record ('v, 'sk, 'e, 'l) sync_env =
  se_cbor :: "'v cbor_api"
  se_crypto :: "'sk crypto_api"
  se_ext :: "('e, 'v) ext_api"
  se_sql_u32 :: "nat option \<Rightarrow> u32 option"
  se_grow :: "nat \<Rightarrow> nat"
  se_store :: "'l operations_table"
  se_logs :: "'l logs"
  se_capacity :: nat

definition peer_new :: "('v, 'sk, 'e, 'l) sync_env \<Rightarrow> ('v, 'l, 'e) peer" where
  "peer_new env =
     \<lparr>pe_state = Start, pe_done_received = False, pe_done_sent = False,
      pe_dedup = dedup_new (se_capacity env), pe_events = []\<rparr>"

subsection \<open>The state machine of a peer\<close>

definition outbound_size :: "('v, 'sk, 'e, 'l) sync_env \<Rightarrow> (verifying_key, 'l) log_ranges \<Rightarrow> (u32 \<times> u32) option" where
  "outbound_size env remote_needs =
     fold (\<lambda>(author, log_id, after, until) acc.
        case (acc, get_log_size (se_sql_u32 env) (se_store env) author log_id after until) of
          (Some (operations, bytes), Some (inner_operations, inner_bytes)) \<Rightarrow>
            Some (operations + inner_operations, bytes + inner_bytes)
        | _ \<Rightarrow> None) (flattened_ranges remote_needs) (Some (0, 0))"

definition exchanged_metrics :: "u32 \<Rightarrow> u32 \<Rightarrow> u32 \<Rightarrow> u32 \<Rightarrow> log_sync_metrics" where
  "exchanged_metrics out_ops out_bytes in_ops in_bytes =
     \<lparr>outbound_operations = out_ops, outbound_bytes = out_bytes, inbound_operations = in_ops,
      inbound_bytes = in_bytes, sent_operations = 0, sent_bytes = 0, received_operations = 0, received_bytes = 0\<rparr>"

definition raw_size :: "bytes \<Rightarrow> bytes option \<Rightarrow> u32" where
  "raw_size header body = of_nat (length header + (case body of None \<Rightarrow> 0 | Some b \<Rightarrow> length b))"

definition start_sync ::
  "('v, 'sk, 'e, 'l) sync_env \<Rightarrow> (verifying_key, 'l) log_ranges \<Rightarrow> log_sync_metrics \<Rightarrow> ('v, 'l, 'e) peer \<Rightarrow> ('v, 'l, 'e) peer" where
  "start_sync env remote_needs metrics p =
     p\<lparr>pe_events := pe_events p @ [MetricsExchanged metrics],
       pe_state := Sync (log_ranges_api (se_cbor env) (se_crypto env) (se_store env) remote_needs) metrics\<rparr>"

definition receive_operation ::
  "('v, 'sk, 'e, 'l) sync_env \<Rightarrow> (header_error + ('v, 'l) stream_item) list \<Rightarrow> log_sync_metrics \<Rightarrow> bytes \<Rightarrow> bytes option \<Rightarrow>
   ('v, 'l, 'e) peer \<Rightarrow> ('v, 'l, 'e) peer" where
  "receive_operation env outgoing metrics header body p =
     (let metrics = metrics\<lparr>received_bytes := received_bytes metrics + raw_size header body,
                            received_operations := received_operations metrics + 1\<rparr>
      in case header_decode (se_cbor env) (se_crypto env) (se_ext env) header of
           Inl e \<Rightarrow> p\<lparr>pe_state := Failed (DecodeHeader e)\<rparr>
         | Inr h \<Rightarrow>
             (case dedup_insert (se_grow env) (digest h) (pe_dedup p) of
                (False, dedup) \<Rightarrow> p\<lparr>pe_dedup := dedup, pe_state := Sync outgoing metrics\<rparr>
              | (True, dedup) \<Rightarrow>
                  p\<lparr>pe_dedup := dedup, pe_state := Sync outgoing metrics,
                    pe_events := pe_events p @
                      [OperationReceived \<lparr>op_hash = digest h, op_header = h, op_body = body\<rparr> metrics]\<rparr>))"

definition receive_message ::
  "('v, 'sk, 'e, 'l) sync_env \<Rightarrow> (header_error + ('v, 'l) stream_item) list \<Rightarrow> log_sync_metrics \<Rightarrow> 'l log_sync_message \<Rightarrow>
   ('v, 'l, 'e) peer \<Rightarrow> ('v, 'l, 'e) peer" where
  "receive_message env outgoing metrics message p =
     (case message of
        Operation header body \<Rightarrow> receive_operation env outgoing metrics header body p
      | Done \<Rightarrow> p\<lparr>pe_done_received := True\<rparr>
      | _ \<Rightarrow> p\<lparr>pe_state := Failed UnexpectedMessage\<rparr>)"

definition send_next ::
  "('v, 'sk, 'e, 'l) sync_env \<Rightarrow> (header_error + ('v, 'l) stream_item) list \<Rightarrow> log_sync_metrics \<Rightarrow> ('v, 'l, 'e) peer \<Rightarrow>
   ('v, 'l, 'e) peer \<times> 'l log_sync_message list" where
  "send_next env outgoing metrics p =
     (case outgoing of
        [] \<Rightarrow> (p\<lparr>pe_done_sent := True\<rparr>, [Done])
      | Inl e # _ \<Rightarrow> (p\<lparr>pe_state := Failed (LogStoreError e)\<rparr>, [])
      | Inr item # rest \<Rightarrow>
          (let body = any_op_body (si_entry item);
               metrics = metrics\<lparr>sent_bytes := sent_bytes metrics + raw_size (si_bytes item) body,
                                 sent_operations := sent_operations metrics + 1\<rparr>
           in (p\<lparr>pe_state := Sync rest metrics,
                 pe_dedup := snd (dedup_insert (se_grow env) (any_op_hash (si_entry item)) (pe_dedup p))\<rparr>,
               [Operation (si_bytes item) body])))"

definition sync_loop ::
  "('v, 'sk, 'e, 'l) sync_env \<Rightarrow> bool \<Rightarrow> (header_error + ('v, 'l) stream_item) list \<Rightarrow> log_sync_metrics \<Rightarrow>
   ('v, 'l, 'e) peer \<Rightarrow> 'l log_sync_message list \<Rightarrow> bool \<Rightarrow>
   (('v, 'l, 'e) peer \<times> 'l log_sync_message list \<times> 'l log_sync_message list) option" where
  "sync_loop env recv outgoing metrics p inbox closed =
     (if recv \<and> \<not> pe_done_received p \<and> inbox \<noteq> []
      then Some (receive_message env outgoing metrics (hd inbox) p, tl inbox, [])
      else if \<not> recv \<and> \<not> pe_done_sent p
      then (case send_next env outgoing metrics p of (p, out) \<Rightarrow> Some (p, inbox, out))
      else if (pe_done_received p \<or> inbox = [] \<and> closed) \<and> pe_done_sent p
      then Some (p\<lparr>pe_state := End metrics\<rparr>, inbox, [])
      else None)"

definition next_message ::
  "('v, 'l, 'e) peer \<Rightarrow> 'l log_sync_message list \<Rightarrow> bool \<Rightarrow> ('l log_sync_message \<Rightarrow> ('v, 'l, 'e) peer) \<Rightarrow>
   (('v, 'l, 'e) peer \<times> 'l log_sync_message list \<times> 'l log_sync_message list) option" where
  "next_message p inbox closed handle =
     (case inbox of
        [] \<Rightarrow> if closed then Some (p\<lparr>pe_state := Failed UnexpectedStreamClosure\<rparr>, [], []) else None
      | message # rest \<Rightarrow> Some (handle message, rest, []))"

definition peer_step ::
  "('v, 'sk, 'e, 'l) sync_env \<Rightarrow> bool \<Rightarrow> ('v, 'l, 'e) peer \<Rightarrow> 'l log_sync_message list \<Rightarrow> bool \<Rightarrow>
   (('v, 'l, 'e) peer \<times> 'l log_sync_message list \<times> 'l log_sync_message list) option" where
  "peer_step env recv p inbox closed =
     (case pe_state p of
        Start \<Rightarrow> Some (p\<lparr>pe_state := SendHave\<rparr>, inbox, [])
      | SendHave \<Rightarrow>
          (let local = log_heights_api (se_store env) (se_logs env)
           in Some (p\<lparr>pe_state := ReceiveHave local\<rparr>, inbox, [Have local]))
      | ReceiveHave local \<Rightarrow>
          next_message p inbox closed (\<lambda>message.
            case message of
              Have remote \<Rightarrow> p\<lparr>pe_state := SendPreSync (compare local remote)\<rparr>
            | _ \<Rightarrow> p\<lparr>pe_state := Failed UnexpectedMessage\<rparr>)
      | SendPreSync remote_needs \<Rightarrow>
          (case outbound_size env remote_needs of
             None \<Rightarrow> Some (p\<lparr>pe_state := Failed OperationStoreError\<rparr>, inbox, [])
           | Some (operations, bytes) \<Rightarrow>
               (let p = p\<lparr>pe_state := ReceivePreSyncOrDone remote_needs operations bytes\<rparr>
                in if 0 < bytes then Some (p, inbox, [PreSync operations bytes])
                   else Some (p\<lparr>pe_done_sent := True\<rparr>, inbox, [Done])))
      | ReceivePreSyncOrDone remote_needs operations bytes \<Rightarrow>
          next_message p inbox closed (\<lambda>message.
            case message of
              PreSync total_operations total_bytes \<Rightarrow>
                start_sync env remote_needs (exchanged_metrics operations bytes total_operations total_bytes) p
            | Done \<Rightarrow>
                start_sync env remote_needs (exchanged_metrics operations bytes 0 0) (p\<lparr>pe_done_received := True\<rparr>)
            | _ \<Rightarrow> p\<lparr>pe_state := Failed UnexpectedMessage\<rparr>)
      | Sync outgoing metrics \<Rightarrow> sync_loop env recv outgoing metrics p inbox closed
      | End metrics \<Rightarrow> None
      | Failed e \<Rightarrow> None)"

definition peer_result :: "('v, 'l, 'e) peer \<Rightarrow> (log_sync_error + hash dedup_buffer \<times> log_sync_metrics) option" where
  "peer_result p =
     (case pe_state p of
        End metrics \<Rightarrow> Some (Inr (pe_dedup p, metrics))
      | Failed e \<Rightarrow> Some (Inl e)
      | _ \<Rightarrow> None)"

subsection \<open>Sessions of two peers\<close>

record ('v, 'l, 'e) session =
  ses_a :: "('v, 'l, 'e) peer"
  ses_b :: "('v, 'l, 'e) peer"
  ses_inbox_a :: "'l log_sync_message list"
  ses_inbox_b :: "'l log_sync_message list"

definition ended :: "('v, 'l, 'e) peer \<Rightarrow> bool" where
  "ended p \<longleftrightarrow> peer_result p \<noteq> None"

inductive session_step ::
  "('v, 'sk, 'e, 'l) sync_env \<Rightarrow> ('v, 'sk, 'e, 'l) sync_env \<Rightarrow> ('v, 'l, 'e) session \<Rightarrow> ('v, 'l, 'e) session \<Rightarrow> bool"
  for ea eb where
  step_a: "peer_step ea recv (ses_a s) (ses_inbox_a s) closed = Some (p, inbox, out) \<Longrightarrow>
     (closed \<longrightarrow> ended (ses_b s)) \<Longrightarrow> session_step ea eb s (s\<lparr>ses_a := p, ses_inbox_a := inbox, ses_inbox_b := ses_inbox_b s @ out\<rparr>)"
| step_b: "peer_step eb recv (ses_b s) (ses_inbox_b s) closed = Some (p, inbox, out) \<Longrightarrow>
     (closed \<longrightarrow> ended (ses_a s)) \<Longrightarrow> session_step ea eb s (s\<lparr>ses_b := p, ses_inbox_b := inbox, ses_inbox_a := ses_inbox_a s @ out\<rparr>)"

inductive_cases session_stepE: "session_step ea eb s t"

definition session_new :: "('v, 'sk, 'e, 'l) sync_env \<Rightarrow> ('v, 'sk, 'e, 'l) sync_env \<Rightarrow> ('v, 'l, 'e) session" where
  "session_new ea eb = \<lparr>ses_a = peer_new ea, ses_b = peer_new eb, ses_inbox_a = [], ses_inbox_b = []\<rparr>"

subsection \<open>Every session ends\<close>

fun phase :: "('v, 'l) sync_state \<Rightarrow> nat" where
  "phase Start = 6"
| "phase SendHave = 5"
| "phase (ReceiveHave _) = 4"
| "phase (SendPreSync _) = 3"
| "phase (ReceivePreSyncOrDone _ _ _) = 2"
| "phase (Sync _ _) = Suc 0"
| "phase (End _) = 0"
| "phase (Failed _) = 0"

definition pending_sends :: "('v, 'l, 'e) peer \<Rightarrow> nat" where
  "pending_sends p =
     (case pe_state p of
        Sync outgoing _ \<Rightarrow> length outgoing + (if pe_done_sent p then 0 else 1)
      | _ \<Rightarrow> 0)"

lemma sync_loopE:
  assumes "sync_loop env recv outgoing metrics p inbox closed = Some (p', inbox', out)"
  obtains (receive) message where "\<not> pe_done_received p" "inbox = message # inbox'" "out = []"
      "p' = receive_message env outgoing metrics message p"
  | (send) "\<not> pe_done_sent p" "inbox' = inbox" "send_next env outgoing metrics p = (p', out)"
  | (finish) "pe_done_received p \<or> inbox = [] \<and> closed" "pe_done_sent p" "inbox' = inbox" "out = []"
      "p' = p\<lparr>pe_state := End metrics\<rparr>"
proof -
  consider "recv \<and> \<not> pe_done_received p \<and> inbox \<noteq> []"
    | "\<not> (recv \<and> \<not> pe_done_received p \<and> inbox \<noteq> [])" "\<not> recv \<and> \<not> pe_done_sent p"
    | "\<not> (recv \<and> \<not> pe_done_received p \<and> inbox \<noteq> [])" "\<not> (\<not> recv \<and> \<not> pe_done_sent p)"
        "(pe_done_received p \<or> inbox = [] \<and> closed) \<and> pe_done_sent p"
    using assms unfolding sync_loop_def by (metis option.distinct(1))
  then show thesis
  proof cases
    case 1
    then obtain message rest where "inbox = message # rest"
      by (cases inbox) auto
    with 1 assms show thesis
      by (intro receive) (auto simp: sync_loop_def)
  next
    case 2
    then show thesis
      using assms by (intro send) (simp_all add: sync_loop_def split: prod.splits)
  next
    case 3
    have "sync_loop env recv outgoing metrics p inbox closed = Some (p\<lparr>pe_state := End metrics\<rparr>, inbox, [])"
      unfolding sync_loop_def by (simp only: 3 if_False if_True) simp
    with 3(3) show thesis
      using assms by (intro finish) simp_all
  qed
qed

lemma next_message_phase:
  assumes "next_message p inbox closed handle = Some (p', inbox', out)"
    and "\<And>message. phase (pe_state (handle message)) < phase (pe_state p)" "0 < phase (pe_state p)"
  shows "phase (pe_state p') < phase (pe_state p)"
  using assms by (auto simp: next_message_def split: list.splits if_splits)

lemma receive_message_phase:
  assumes "pe_state p = Sync outgoing metrics"
  shows "phase (pe_state (receive_message env outgoing metrics message p)) < phase (pe_state p) \<or>
    phase (pe_state (receive_message env outgoing metrics message p)) = phase (pe_state p) \<and>
    pending_sends (receive_message env outgoing metrics message p) = pending_sends p"
  using assms
  by (auto simp: receive_message_def receive_operation_def pending_sends_def Let_def
      split: log_sync_message.splits sum.splits prod.splits bool.splits)

lemma send_next_phase:
  assumes "pe_state p = Sync outgoing metrics" "\<not> pe_done_sent p" "send_next env outgoing metrics p = (p', out)"
  shows "phase (pe_state p') < phase (pe_state p) \<or>
    phase (pe_state p') = phase (pe_state p) \<and> pending_sends p' < pending_sends p"
  using assms by (auto simp: send_next_def pending_sends_def Let_def split: list.splits sum.splits)

lemma peer_step_decreases:
  assumes "peer_step env recv p inbox closed = Some (p', inbox', out)"
  shows "phase (pe_state p') < phase (pe_state p) \<or>
    phase (pe_state p') = phase (pe_state p) \<and>
      (pending_sends p' < pending_sends p \<or>
       pending_sends p' = pending_sends p \<and> out = [] \<and> length inbox' < length inbox)"
proof (cases "pe_state p")
  case (ReceiveHave local)
  note step = assms[unfolded peer_step_def ReceiveHave sync_state.case]
  have "phase (pe_state p') < phase (pe_state p)"
    by (rule next_message_phase[OF step]) (simp_all add: ReceiveHave split: log_sync_message.split)
  then show ?thesis ..
next
  case (ReceivePreSyncOrDone remote_needs operations bytes)
  note step = assms[unfolded peer_step_def ReceivePreSyncOrDone sync_state.case]
  have "phase (pe_state p') < phase (pe_state p)"
    by (rule next_message_phase[OF step])
      (simp_all add: ReceivePreSyncOrDone start_sync_def split: log_sync_message.split)
  then show ?thesis ..
next
  case (Sync outgoing metrics)
  then have "sync_loop env recv outgoing metrics p inbox closed = Some (p', inbox', out)"
    using assms by (simp add: peer_step_def)
  then show ?thesis
  proof (cases rule: sync_loopE)
    case (receive message)
    then show ?thesis
      using receive_message_phase[OF Sync, of env message] by auto
  next
    case send
    then show ?thesis
      using send_next_phase[OF Sync] by blast
  qed (simp add: Sync)
next
  case (SendPreSync remote_needs)
  with assms show ?thesis
    by (auto simp: peer_step_def Let_def split: option.splits if_splits)
qed (use assms in \<open>auto simp: peer_step_def Let_def\<close>)

definition session_order :: "(('v, 'l, 'e) session \<times> ('v, 'l, 'e) session) set" where
  "session_order = measures
     [\<lambda>s. phase (pe_state (ses_a s)) + phase (pe_state (ses_b s)),
      \<lambda>s. pending_sends (ses_a s) + pending_sends (ses_b s),
      \<lambda>s. length (ses_inbox_a s) + length (ses_inbox_b s)]"

lemma session_step_decreases: "session_step ea eb s t \<Longrightarrow> (t, s) \<in> session_order"
  by (erule session_stepE) (auto simp: session_order_def dest!: peer_step_decreases)

text \<open>
  C24. Every session of two peers ends: whatever the two stores hold, whatever the order in which the
  peers run, receive and send, and even when a peer fails, there is no infinite run of a session.
\<close>

theorem log_sync_terminates: "wf {(t, s). session_step ea eb s t}"
proof (rule wf_subset)
  show "wf session_order"
    by (simp add: session_order_def)
  show "{(t, s). session_step ea eb s t} \<subseteq> session_order"
    by (auto dest: session_step_decreases)
qed

subsection \<open>A stream that closes too early\<close>

fun peer_run ::
  "('v, 'sk, 'e, 'l) sync_env \<Rightarrow> bool list \<Rightarrow> ('v, 'l, 'e) peer \<Rightarrow> 'l log_sync_message list \<Rightarrow> ('v, 'l, 'e) peer" where
  "peer_run env [] p inbox = p"
| "peer_run env (recv # recvs) p inbox =
     (case peer_step env recv p inbox True of
        None \<Rightarrow> p
      | Some (p, inbox, _) \<Rightarrow> peer_run env recvs p inbox)"

text \<open>
  A remote that closes the stream early is noticed only before the operations are exchanged. A peer with
  nothing to send whose remote closes the stream before or right after \<open>Have\<close> fails with
  \<open>UnexpectedStreamClosure\<close>. When the remote announces operations and closes the stream without sending any
  of them, and without \<open>Done\<close>, the session still ends successfully: its metrics show the announced number of
  operations and none received.
\<close>
lemma early_close_reported_as_success:
  "let nothing = env\<lparr>se_logs := []\<rparr> in
    peer_result (peer_run nothing [True, True, True] (peer_new nothing) []) = Some (Inl UnexpectedStreamClosure) \<and>
    peer_result (peer_run nothing [True, True, True, True, True] (peer_new nothing) [Have remote]) =
      Some (Inl UnexpectedStreamClosure) \<and>
    (\<exists>metrics. peer_result (peer_run nothing [True, True, True, True, True, True] (peer_new nothing)
        [Have remote, PreSync operations bytes]) = Some (Inr (dedup_new (se_capacity env), metrics)) \<and>
      inbound_operations metrics = operations \<and> received_operations metrics = 0)"
  unfolding Let_def
  by (intro conjI)
    (simp_all add: peer_step_def peer_new_def peer_result_def log_heights_api_def compare_def outbound_size_def
      flattened_ranges_def log_ranges_api_def next_message_def start_sync_def exchanged_metrics_def sync_loop_def Let_def)

end
