(* ===== verification/Sync_Session.thy ===== *)
theory Sync_Session
  imports Sync_Log
begin

section \<open>Sessions exchange exactly what is missing\<close>

text \<open>
  Correctness of the log sync protocol of \<open>Sync_Log\<close>. The message sequence of each peer is fixed by the
  two stores; an invariant relates the states of the peers to the parts of the two sequences already
  sent and read, a session in which no step is possible has ended on both sides, and the rows a peer
  sends are exactly those of its logs above the heights the remote announced.
\<close>

subsection \<open>What a peer sends and receives\<close>

text \<open>
  A plan is what a peer is going to send: its log heights, the rows the remote needs and their total
  size. \<open>script\<close> is the resulting sequence of messages. \<open>peer_inv\<close> relates the state of a peer to the
  part of its own script it has sent and the part of the remote script it has read.
\<close>

record 'l plan =
  pl_heights :: "(verifying_key, 'l) log_heights"
  pl_rows :: "'l operation_row list"
  pl_operations :: u32
  pl_bytes :: u32

definition item_of_row :: "'v cbor_api \<Rightarrow> 'sk crypto_api \<Rightarrow> 'l operation_row \<Rightarrow> ('v, 'l) stream_item" where
  "item_of_row C K r =
     \<lparr>si_entry = projr (any_operation_of_row C K r), si_log_id = or_log_id r, si_bytes = or_header r\<rparr>"

definition row_ok :: "'v cbor_api \<Rightarrow> 'sk crypto_api \<Rightarrow> ('e, 'v) ext_api \<Rightarrow> 'l operation_row \<Rightarrow> bool" where
  "row_ok C K E r \<longleftrightarrow>
     \<not> isl (any_header_decode C K (or_header r)) \<and>
     (case header_decode C K E (or_header r) of Inl _ \<Rightarrow> False | Inr h \<Rightarrow> digest h = or_hash r)"

definition operation_in_row ::
  "'v cbor_api \<Rightarrow> 'sk crypto_api \<Rightarrow> ('e, 'v) ext_api \<Rightarrow> 'l operation_row \<Rightarrow> ('v, 'e) operation" where
  "operation_in_row C K E r = projr (operation_of_row C K E r)"

definition row_message :: "'l operation_row \<Rightarrow> 'l log_sync_message" where
  "row_message r = Operation (or_header r) (or_body r)"

definition pre_sync :: "'l plan \<Rightarrow> 'l log_sync_message list" where
  "pre_sync pl = (if pl_rows pl = [] then [] else [PreSync (pl_operations pl) (pl_bytes pl)])"

definition part :: "'l plan \<Rightarrow> 'l operation_row list \<Rightarrow> bool \<Rightarrow> 'l log_sync_message list" where
  "part pl rows finished =
     Have (pl_heights pl) # pre_sync pl @ map row_message rows @ (if finished then [Done] else [])"

abbreviation script :: "'l plan \<Rightarrow> 'l log_sync_message list" where
  "script pl \<equiv> part pl (pl_rows pl) True"

definition received :: "('v, 'l, 'e) peer \<Rightarrow> ('v, 'e) operation list" where
  "received p = List.map_filter (\<lambda>e. case e of OperationReceived x _ \<Rightarrow> Some x | _ \<Rightarrow> None) (pe_events p)"

definition plan_ok :: "('v, 'sk, 'e, 'l) sync_env \<Rightarrow> 'l plan \<Rightarrow> 'l plan \<Rightarrow> bool" where
  "plan_ok env mine theirs \<longleftrightarrow>
     pl_heights mine = log_heights_api (se_store env) (se_logs env) \<and>
     log_ranges_api (se_cbor env) (se_crypto env) (se_store env) (compare (pl_heights mine) (pl_heights theirs)) =
       map (Inr \<circ> item_of_row (se_cbor env) (se_crypto env)) (pl_rows mine) \<and>
     outbound_size env (compare (pl_heights mine) (pl_heights theirs)) = Some (pl_operations mine, pl_bytes mine) \<and>
     (0 < pl_bytes mine \<longleftrightarrow> pl_rows mine \<noteq> []) \<and>
     list_all (row_ok (se_cbor env) (se_crypto env) (se_ext env)) (pl_rows mine @ pl_rows theirs) \<and>
     distinct (map or_hash (pl_rows mine @ pl_rows theirs))"

definition untouched :: "('v, 'l, 'e) peer \<Rightarrow> bool" where
  "untouched p \<longleftrightarrow> \<not> pe_done_received p \<and> dd_set (pe_dedup p) = {} \<and> received p = []"

definition peer_inv ::
  "('v, 'sk, 'e, 'l) sync_env \<Rightarrow> 'l plan \<Rightarrow> 'l plan \<Rightarrow> ('v, 'l, 'e) peer \<Rightarrow> 'l log_sync_message list \<Rightarrow>
   'l log_sync_message list \<Rightarrow> bool" where
  "peer_inv env mine theirs p sent read \<longleftrightarrow>
     (case pe_state p of
        Start \<Rightarrow> sent = [] \<and> read = [] \<and> untouched p \<and> \<not> pe_done_sent p
      | SendHave \<Rightarrow> sent = [] \<and> read = [] \<and> untouched p \<and> \<not> pe_done_sent p
      | ReceiveHave local \<Rightarrow>
          local = pl_heights mine \<and> sent = [Have (pl_heights mine)] \<and> read = [] \<and> untouched p \<and> \<not> pe_done_sent p
      | SendPreSync needs \<Rightarrow>
          needs = compare (pl_heights mine) (pl_heights theirs) \<and> sent = [Have (pl_heights mine)] \<and>
          read = [Have (pl_heights theirs)] \<and> untouched p \<and> \<not> pe_done_sent p
      | ReceivePreSyncOrDone needs operations bytes \<Rightarrow>
          needs = compare (pl_heights mine) (pl_heights theirs) \<and> sent = part mine [] (pe_done_sent p) \<and>
          read = [Have (pl_heights theirs)] \<and> untouched p \<and> (pe_done_sent p \<longleftrightarrow> pl_rows mine = [])
      | Sync outgoing _ \<Rightarrow>
          (\<exists>gone rest seen left.
             pl_rows mine = gone @ rest \<and> outgoing = map (Inr \<circ> item_of_row (se_cbor env) (se_crypto env)) rest \<and>
             sent = part mine gone (pe_done_sent p) \<and> (pe_done_sent p \<longrightarrow> rest = []) \<and>
             pl_rows theirs = seen @ left \<and> read = part theirs seen (pe_done_received p) \<and>
             (pe_done_received p \<longrightarrow> left = []) \<and>
             received p = map (operation_in_row (se_cbor env) (se_crypto env) (se_ext env)) seen \<and>
             dd_set (pe_dedup p) \<subseteq> or_hash ` (set gone \<union> set seen))
      | End _ \<Rightarrow>
          sent = script mine \<and> read = script theirs \<and>
          received p = map (operation_in_row (se_cbor env) (se_crypto env) (se_ext env)) (pl_rows theirs)
      | Failed _ \<Rightarrow> False)"

lemma part_eq_iff [simp]:
  "part pl rows b = [] \<longleftrightarrow> False"
  by (simp add: part_def)

lemma part_snoc [simp]:
  "part pl rows False @ [row_message r] = part pl (rows @ [r]) False"
  "part pl rows False @ [Done] = part pl rows True"
  by (simp_all add: part_def)

lemma script_split: "pl_rows pl = seen @ rest \<Longrightarrow> script pl = part pl seen False @ map row_message rest @ [Done]"
  by (simp add: part_def)

lemma dedup_insert_set:
  assumes "dedup_insert grow x d = (b, d')"
  shows "dd_set d' \<subseteq> insert x (dd_set d)" "x \<notin> dd_set d \<Longrightarrow> b"
  using assms by (auto simp: dedup_insert_def dedup_push_def dedup_evict_def split: if_splits list.splits)

lemma receive_row:
  assumes "row_ok (se_cbor env) (se_crypto env) (se_ext env) r" "or_hash r \<notin> dd_set (pe_dedup p)"
    and "receive_message env outgoing metrics (row_message r) p = p'"
  shows "\<exists>metrics'. pe_state p' = Sync outgoing metrics'"
    "pe_done_received p' = pe_done_received p" "pe_done_sent p' = pe_done_sent p"
    "received p' = received p @ [operation_in_row (se_cbor env) (se_crypto env) (se_ext env) r]"
    "dd_set (pe_dedup p') \<subseteq> insert (or_hash r) (dd_set (pe_dedup p))"
proof -
  obtain h where h: "header_decode (se_cbor env) (se_crypto env) (se_ext env) (or_header r) = Inr h" "digest h = or_hash r"
    using assms(1) by (auto simp: row_ok_def split: sum.splits)
  obtain b d where d: "dedup_insert (se_grow env) (or_hash r) (pe_dedup p) = (b, d)"
    by fastforce
  with dedup_insert_set(2)[OF d] assms(2) have b: "b" by simp
  define m where "m = metrics\<lparr>received_bytes := received_bytes metrics + raw_size (or_header r) (or_body r),
    received_operations := received_operations metrics + 1\<rparr>"
  have op: "operation_in_row (se_cbor env) (se_crypto env) (se_ext env) r =
      \<lparr>op_hash = or_hash r, op_header = h, op_body = or_body r\<rparr>"
    by (simp add: operation_in_row_def operation_of_row_def h)
  have "p' = p\<lparr>pe_dedup := d, pe_state := Sync outgoing m, pe_events := pe_events p @
      [OperationReceived \<lparr>op_hash = or_hash r, op_header = h, op_body = or_body r\<rparr> m]\<rparr>"
    using assms(3) d b by (simp add: receive_message_def row_message_def receive_operation_def h m_def Let_def)
  then show "\<exists>metrics'. pe_state p' = Sync outgoing metrics'"
    "pe_done_received p' = pe_done_received p" "pe_done_sent p' = pe_done_sent p"
    "received p' = received p @ [operation_in_row (se_cbor env) (se_crypto env) (se_ext env) r]"
    "dd_set (pe_dedup p') \<subseteq> insert (or_hash r) (dd_set (pe_dedup p))"
    using dedup_insert_set(1)[OF d] by (simp_all add: op received_def List.map_filter_def)
qed

lemma send_row:
  assumes "row_ok (se_cbor env) (se_crypto env) (se_ext env) r"
    and "send_next env (Inr (item_of_row (se_cbor env) (se_crypto env) r) # rest) metrics p = (p', out)"
  shows "\<exists>metrics'. pe_state p' = Sync rest metrics'" "out = [row_message r]"
    "pe_done_received p' = pe_done_received p" "pe_done_sent p' = pe_done_sent p" "received p' = received p"
    "dd_set (pe_dedup p') \<subseteq> insert (or_hash r) (dd_set (pe_dedup p))"
proof -
  obtain h where h: "any_header_decode (se_cbor env) (se_crypto env) (or_header r) = Inr h"
    using assms(1) by (cases "any_header_decode (se_cbor env) (se_crypto env) (or_header r)") (auto simp: row_ok_def)
  show "\<exists>metrics'. pe_state p' = Sync rest metrics'" "out = [row_message r]"
    "pe_done_received p' = pe_done_received p" "pe_done_sent p' = pe_done_sent p" "received p' = received p"
    "dd_set (pe_dedup p') \<subseteq> insert (or_hash r) (dd_set (pe_dedup p))"
    using assms(2) dedup_insert_set(1)[OF prod.collapse[symmetric], of "se_grow env" "or_hash r" "pe_dedup p"]
    by (auto simp: send_next_def Let_def item_of_row_def any_operation_of_row_def h row_message_def received_def)
qed

lemma peer_inv_SyncI:
  assumes "pe_state p = Sync (map (Inr \<circ> item_of_row (se_cbor env) (se_crypto env)) rest) metrics"
    "pl_rows mine = gone @ rest" "sent = part mine gone (pe_done_sent p)" "pe_done_sent p \<Longrightarrow> rest = []"
    "pl_rows theirs = seen @ left" "read = part theirs seen (pe_done_received p)" "pe_done_received p \<Longrightarrow> left = []"
    "received p = map (operation_in_row (se_cbor env) (se_crypto env) (se_ext env)) seen"
    "dd_set (pe_dedup p) \<subseteq> or_hash ` (set gone \<union> set seen)"
  shows "peer_inv env mine theirs p sent read"
  unfolding peer_inv_def assms(1) sync_state.case using assms(2-) by blast

lemma peer_inv_SyncE:
  assumes "peer_inv env mine theirs p sent read" "pe_state p = Sync outgoing metrics"
  obtains gone rest seen left where
    "outgoing = map (Inr \<circ> item_of_row (se_cbor env) (se_crypto env)) rest"
    "pl_rows mine = gone @ rest" "sent = part mine gone (pe_done_sent p)" "pe_done_sent p \<Longrightarrow> rest = []"
    "pl_rows theirs = seen @ left" "read = part theirs seen (pe_done_received p)" "pe_done_received p \<Longrightarrow> left = []"
    "received p = map (operation_in_row (se_cbor env) (se_crypto env) (se_ext env)) seen"
    "dd_set (pe_dedup p) \<subseteq> or_hash ` (set gone \<union> set seen)"
  using assms(1) unfolding peer_inv_def assms(2) sync_state.case by blast

lemma script_first: "message # rest = script pl \<Longrightarrow> message = Have (pl_heights pl)"
  by (simp add: part_def)

lemma script_second:
  assumes "Have x # message # rest = script pl"
  shows "x = pl_heights pl"
    "pl_rows pl = [] \<and> message = Done \<or> pl_rows pl \<noteq> [] \<and> message = PreSync (pl_operations pl) (pl_bytes pl)"
  using assms by (auto simp: part_def pre_sync_def split: if_splits)

lemma handshake_waits:
  assumes inv: "peer_inv env mine theirs p sent read"
    and flow: "read @ inbox @ future = script theirs" "closed \<Longrightarrow> future = []"
    and state: "pe_state p = ReceiveHave local \<or> pe_state p = ReceivePreSyncOrDone needs operations bytes"
    and step: "peer_step env recv p inbox closed = Some (p', inbox', out)"
  obtains message where "inbox = message # inbox'" "out = []"
    "read @ message # inbox' @ future = script theirs"
proof (cases inbox)
  case Nil
  with step state have "closed"
    by (auto simp: peer_step_def next_message_def split: if_splits)
  with Nil show thesis
    using state inv flow by (auto simp: peer_inv_def part_def)
next
  case (Cons message rest)
  with step state show thesis
    using flow by (intro that[of message]) (auto simp: peer_step_def next_message_def)
qed

lemma receive_have_inv:
  assumes inv: "peer_inv env mine theirs p sent read" and state: "pe_state p = ReceiveHave local"
    and flow: "read @ message # future = script theirs"
    and step: "peer_step env recv p (message # inbox) closed = Some (p', inbox', out)"
  shows "peer_inv env mine theirs p' sent (read @ [message])"
proof -
  have "message = Have (pl_heights theirs)"
    using inv state flow by (intro script_first[of _ future]) (simp add: peer_inv_def)
  with state inv step show ?thesis
    by (auto simp: peer_inv_def peer_step_def next_message_def untouched_def received_def)
qed

lemma receive_pre_sync_inv:
  assumes ok: "plan_ok env mine theirs" and inv: "peer_inv env mine theirs p sent read"
    and state: "pe_state p = ReceivePreSyncOrDone needs operations bytes"
    and flow: "read @ message # future = script theirs"
    and step: "peer_step env recv p (message # inbox) closed = Some (p', inbox', out)"
  shows "peer_inv env mine theirs p' sent (read @ [message])"
proof -
  have now: "read = [Have (pl_heights theirs)]" "\<not> pe_done_received p"
      "needs = compare (pl_heights mine) (pl_heights theirs)"
    using inv state by (auto simp: peer_inv_def untouched_def)
  then have message: "pl_rows theirs = [] \<and> message = Done \<or>
      pl_rows theirs \<noteq> [] \<and> message = PreSync (pl_operations theirs) (pl_bytes theirs)"
    using script_second(2)[of "pl_heights theirs" message future theirs] flow by simp
  have ranges: "log_ranges_api (se_cbor env) (se_crypto env) (se_store env) needs =
      map (Inr \<circ> item_of_row (se_cbor env) (se_crypto env)) (pl_rows mine)"
    using ok now(3) unfolding plan_ok_def by blast
  have "read @ [message] = part theirs [] (pl_rows theirs = [])"
    using message by (auto simp: now(1) part_def pre_sync_def)
  moreover from state step message now(2) obtain metrics where
    "pe_state p' = Sync (map (Inr \<circ> item_of_row (se_cbor env) (se_crypto env)) (pl_rows mine)) metrics"
    "pe_done_received p' \<longleftrightarrow> pl_rows theirs = []" "pe_done_sent p' = pe_done_sent p" "received p' = received p"
    "pe_dedup p' = pe_dedup p"
    by (auto simp: peer_step_def next_message_def start_sync_def received_def ranges List.map_filter_def)
  ultimately show ?thesis
    using state inv
    by (intro peer_inv_SyncI[of _ _ "pl_rows mine" metrics _ "[]" _ _ "[]" "pl_rows theirs"])
      (simp_all add: peer_inv_def untouched_def)
qed

lemma handshake_keeps_inv:
  assumes ok: "plan_ok env mine theirs" and inv: "peer_inv env mine theirs p sent read"
    and flow: "read @ inbox @ future = script theirs" "closed \<Longrightarrow> future = []"
    and state: "pe_state p = ReceiveHave local \<or> pe_state p = ReceivePreSyncOrDone needs operations bytes"
    and step: "peer_step env recv p inbox closed = Some (p', inbox', out)"
  shows "\<exists>read'. read' @ inbox' = read @ inbox \<and> peer_inv env mine theirs p' (sent @ out) read'"
proof -
  obtain message where m: "inbox = message # inbox'" "out = []" "read @ message # inbox' @ future = script theirs"
    using handshake_waits[OF inv flow state step] by blast
  have "peer_inv env mine theirs p' sent (read @ [message])"
    using state receive_have_inv[OF inv _ m(3) step[unfolded m(1)]]
      receive_pre_sync_inv[OF ok inv _ m(3) step[unfolded m(1)]] by blast
  then show ?thesis
    using m by (intro exI[of _ "read @ [message]"]) simp
qed

lemma receive_keeps_inv:
  assumes ok: "plan_ok env mine theirs" and inv: "peer_inv env mine theirs p sent read"
    and state: "pe_state p = Sync outgoing metrics" and running: "\<not> pe_done_received p"
    and flow: "read @ message # inbox @ future = script theirs"
  shows "peer_inv env mine theirs (receive_message env outgoing metrics message p) sent (read @ [message])"
    (is "peer_inv _ _ _ ?p _ _")
  using inv state
proof (cases rule: peer_inv_SyncE)
  case (1 gone rest seen left)
  then have next_msg: "message # inbox @ future = map row_message left @ [Done]"
    using flow running script_split[OF 1(5)] by simp
  show ?thesis
  proof (cases left)
    case Nil
    with next_msg have "message = Done" by simp
    with 1 Nil running show ?thesis
      by (intro peer_inv_SyncI[of _ _ rest metrics _ gone _ _ seen left])
        (auto simp: receive_message_def state received_def)
  next
    case (Cons r left')
    have r: "row_ok (se_cbor env) (se_crypto env) (se_ext env) r" "or_hash r \<notin> dd_set (pe_dedup p)"
      using ok 1(9) by (auto simp: plan_ok_def 1(2,5) Cons)
    have message: "message = row_message r"
      using next_msg Cons by simp
    note row = receive_row[OF r, of outgoing metrics, OF refl, folded message]
    then obtain metrics' where "pe_state ?p = Sync outgoing metrics'" by blast
    moreover have "dd_set (pe_dedup ?p) \<subseteq> or_hash ` (set gone \<union> set (seen @ [r]))"
      using row(5) 1(9) by auto
    ultimately show ?thesis
      using 1(1-4,5-8) row(2-4) running Cons
      by (intro peer_inv_SyncI[of _ _ rest metrics' _ gone _ _ "seen @ [r]" left']) (simp_all add: message)
  qed
qed

lemma send_keeps_inv:
  assumes ok: "plan_ok env mine theirs" and inv: "peer_inv env mine theirs p sent read"
    and state: "pe_state p = Sync outgoing metrics" and running: "\<not> pe_done_sent p"
    and send: "send_next env outgoing metrics p = (p', out)"
  shows "peer_inv env mine theirs p' (sent @ out) read"
  using inv state
proof (cases rule: peer_inv_SyncE)
  case (1 gone rest seen left)
  show ?thesis
  proof (cases rest)
    case Nil
    with send 1(1) have "p' = p\<lparr>pe_done_sent := True\<rparr>" "out = [Done]"
      by (simp_all add: send_next_def)
    with 1 Nil running show ?thesis
      by (intro peer_inv_SyncI[of _ _ rest metrics _ gone _ _ seen left]) (auto simp: state received_def)
  next
    case (Cons r rest')
    have r: "row_ok (se_cbor env) (se_crypto env) (se_ext env) r"
      using ok by (simp add: plan_ok_def 1(2) Cons)
    note row = send_row[OF r send[unfolded 1(1) Cons list.map comp_apply]]
    then obtain metrics' where
      "pe_state p' = Sync (map (Inr \<circ> item_of_row (se_cbor env) (se_crypto env)) rest') metrics'" by auto
    moreover have "dd_set (pe_dedup p') \<subseteq> or_hash ` (set (gone @ [r]) \<union> set seen)"
      using row(6) 1(9) by auto
    ultimately show ?thesis
      using 1 row(2-5) running Cons
      by (intro peer_inv_SyncI[of _ _ rest' metrics' _ "gone @ [r]" _ _ seen left]) simp_all
  qed
qed

lemma finish_keeps_inv:
  assumes inv: "peer_inv env mine theirs p sent read" and state: "pe_state p = Sync outgoing metrics"
    and flow: "read @ inbox @ future = script theirs" "closed \<Longrightarrow> future = []"
    and finish: "pe_done_received p \<or> inbox = [] \<and> closed" "pe_done_sent p"
  shows "peer_inv env mine theirs (p\<lparr>pe_state := End metrics\<rparr>) sent read"
  using inv state
proof (cases rule: peer_inv_SyncE)
  case (1 gone rest seen left)
  then have "pe_done_received p"
    using finish(1) flow script_split[OF 1(5)] by (cases "pe_done_received p") auto
  with 1 finish show ?thesis
    by (simp add: peer_inv_def received_def)
qed

lemma sync_keeps_inv:
  assumes "plan_ok env mine theirs" "peer_inv env mine theirs p sent read" "pe_state p = Sync outgoing metrics"
    and flow: "read @ inbox @ future = script theirs" "closed \<Longrightarrow> future = []"
    and step: "sync_loop env recv outgoing metrics p inbox closed = Some (p', inbox', out)"
  shows "\<exists>read'. read' @ inbox' = read @ inbox \<and> peer_inv env mine theirs p' (sent @ out) read'"
  using step
proof (cases rule: sync_loopE)
  case (receive message)
  then show ?thesis
    using receive_keeps_inv[OF assms(1-3), of message inbox' future] flow(1)
    by (intro exI[of _ "read @ [message]"]) simp
next
  case send
  then show ?thesis
    using send_keeps_inv[OF assms(1-3)] by (intro exI[of _ read]) simp
next
  case finish
  then show ?thesis
    using finish_keeps_inv[OF assms(2,3) flow] by (intro exI[of _ read]) simp
qed

lemma peer_step_inv:
  assumes ok: "plan_ok env mine theirs" and inv: "peer_inv env mine theirs p sent read"
    and flow: "read @ inbox @ future = script theirs" "closed \<Longrightarrow> future = []"
    and step: "peer_step env recv p inbox closed = Some (p', inbox', out)"
  shows "\<exists>read'. read' @ inbox' = read @ inbox \<and> peer_inv env mine theirs p' (sent @ out) read'"
proof (cases "pe_state p")
  case Start
  then show ?thesis
    using inv step by (intro exI[of _ read]) (auto simp: peer_inv_def peer_step_def untouched_def received_def)
next
  case SendHave
  then show ?thesis
    using ok inv step
    by (intro exI[of _ read]) (auto simp: peer_inv_def peer_step_def untouched_def received_def plan_ok_def Let_def)
next
  case (SendPreSync needs)
  then have needs: "needs = compare (pl_heights mine) (pl_heights theirs)"
    using inv by (simp add: peer_inv_def)
  then have "outbound_size env needs = Some (pl_operations mine, pl_bytes mine)"
    and b: "0 < pl_bytes mine \<longleftrightarrow> pl_rows mine \<noteq> []"
    using ok unfolding plan_ok_def by blast+
  with SendPreSync inv step show ?thesis
    by (intro exI[of _ read])
      (auto simp: peer_inv_def peer_step_def untouched_def received_def part_def pre_sync_def Let_def split: if_splits)
next
  case (Sync outgoing metrics)
  then show ?thesis
    using sync_keeps_inv[OF ok inv Sync flow] step by (simp add: peer_step_def)
qed (use handshake_keeps_inv[OF ok inv flow _ step] step in \<open>auto simp: peer_step_def\<close>)

lemma peer_inv_sent:
  assumes "peer_inv env mine theirs p sent read"
  shows "\<exists>future. sent @ future = script mine \<and> (ended p \<longrightarrow> future = [])"
proof -
  have part: "\<exists>future. part mine gone b @ future = script mine"
    if "pl_rows mine = gone @ rest" "b \<Longrightarrow> rest = []" for gone rest b
    using that script_split[OF that(1)] by (cases b) auto
  show ?thesis
    using assms part[of _ _ "pe_done_sent p"] part[of "[]" "pl_rows mine" "pe_done_sent p"]
    by (auto simp: peer_inv_def ended_def peer_result_def split: sync_state.splits) (auto simp: part_def)
qed

definition session_inv ::
  "('v, 'sk, 'e, 'l) sync_env \<Rightarrow> ('v, 'sk, 'e, 'l) sync_env \<Rightarrow> 'l plan \<Rightarrow> 'l plan \<Rightarrow> ('v, 'l, 'e) session \<Rightarrow> bool" where
  "session_inv ea eb a b s \<longleftrightarrow>
     (\<exists>read_a read_b. peer_inv ea a b (ses_a s) (read_b @ ses_inbox_b s) read_a \<and>
        peer_inv eb b a (ses_b s) (read_a @ ses_inbox_a s) read_b)"

lemma session_step_inv:
  assumes ok: "plan_ok ea a b" "plan_ok eb b a" and step: "session_step ea eb s t" and inv: "session_inv ea eb a b s"
  shows "session_inv ea eb a b t"
proof -
  obtain ra rb where i: "peer_inv ea a b (ses_a s) (rb @ ses_inbox_b s) ra"
    "peer_inv eb b a (ses_b s) (ra @ ses_inbox_a s) rb"
    using inv by (auto simp: session_inv_def)
  obtain fb where fb: "ra @ ses_inbox_a s @ fb = script b" "ended (ses_b s) \<longrightarrow> fb = []"
    using peer_inv_sent[OF i(2)] by auto
  obtain fa where fa: "rb @ ses_inbox_b s @ fa = script a" "ended (ses_a s) \<longrightarrow> fa = []"
    using peer_inv_sent[OF i(1)] by auto
  from step show ?thesis
  proof cases
    case 1: (step_a recv closed p inbox out)
    obtain ra' where "ra' @ inbox = ra @ ses_inbox_a s" "peer_inv ea a b p ((rb @ ses_inbox_b s) @ out) ra'"
      using peer_step_inv[OF ok(1) i(1) fb(1) _ 1(2)] fb(2) 1(3) by blast
    then show ?thesis
      using i(2) unfolding session_inv_def 1(1) by (intro exI[of _ ra'] exI[of _ rb]) simp
  next
    case 2: (step_b recv closed p inbox out)
    obtain rb' where "rb' @ inbox = rb @ ses_inbox_b s" "peer_inv eb b a p ((ra @ ses_inbox_a s) @ out) rb'"
      using peer_step_inv[OF ok(2) i(2) fa(1) _ 2(2)] fa(2) 2(3) by blast
    then show ?thesis
      using i(1) unfolding session_inv_def 2(1) by (intro exI[of _ ra] exI[of _ rb']) simp
  qed
qed

lemma session_new_inv: "session_inv ea eb a b (session_new ea eb)"
  by (auto simp: session_inv_def session_new_def peer_inv_def peer_new_def untouched_def dedup_new_def received_def
      List.map_filter_def)

lemma session_reachable_inv:
  assumes "plan_ok ea a b" "plan_ok eb b a" "(session_step ea eb)\<^sup>*\<^sup>* (session_new ea eb) s"
  shows "session_inv ea eb a b s"
  using assms(3) by induction (auto intro: session_new_inv session_step_inv[OF assms(1,2)])

lemma length_script: "2 \<le> length (script pl)"
  by (simp add: part_def pre_sync_def)

definition waits ::
  "'l plan \<Rightarrow> 'l plan \<Rightarrow> 'l log_sync_message list \<Rightarrow> 'l log_sync_message list \<Rightarrow> 'l log_sync_message list \<Rightarrow> bool" where
  "waits mine theirs sent read inbox \<longleftrightarrow>
     inbox = [] \<and> read \<noteq> script theirs \<and> (length read < length sent \<and> length sent \<le> 2 \<or> sent = script mine)"

lemma blocked_peer:
  assumes ok: "plan_ok env mine theirs" and inv: "peer_inv env mine theirs p sent read"
    and blocked: "\<And>recv. peer_step env recv p inbox False = None" and running: "\<not> ended p"
  shows "waits mine theirs sent read inbox"
proof (cases "pe_state p")
  case (ReceiveHave local)
  then show ?thesis
    using inv blocked[of True]
    by (auto simp: waits_def peer_inv_def peer_step_def next_message_def part_def split: list.splits)
next
  case (ReceivePreSyncOrDone needs operations bytes)
  then show ?thesis
    using inv blocked[of True]
    by (auto simp: waits_def peer_inv_def peer_step_def next_message_def part_def pre_sync_def split: list.splits)
next
  case (Sync outgoing metrics)
  note b = blocked[unfolded peer_step_def Sync sync_state.case]
  have "pe_done_sent p" "\<not> pe_done_received p" "inbox = []"
    using b[of False] b[of True] by (auto simp: sync_loop_def split: if_splits prod.splits)
  moreover have "part theirs seen False \<noteq> script theirs" if "pl_rows theirs = seen @ left" for seen left
    using script_split[OF that] by auto
  ultimately show ?thesis
    using inv by (auto simp: waits_def peer_inv_def Sync)
next
  case (SendPreSync needs)
  then show ?thesis
    using blocked[of True] by (auto simp: peer_step_def Let_def split: option.splits if_splits)
qed (use blocked[of True] running in \<open>auto simp: peer_step_def ended_def peer_result_def Let_def\<close>)

lemma ended_inv:
  assumes "peer_inv env mine theirs p sent read" "ended p"
  shows "sent = script mine" "read = script theirs" "\<exists>d m. peer_result p = Some (Inr (d, m))"
    "received p = map (operation_in_row (se_cbor env) (se_crypto env) (se_ext env)) (pl_rows theirs)"
  using assms by (auto simp: peer_inv_def ended_def peer_result_def split: sync_state.splits)

lemma stuck_session:
  assumes ok: "plan_ok ea a b" "plan_ok eb b a" and inv: "session_inv ea eb a b s"
    and stuck: "\<nexists>t. session_step ea eb s t"
  shows "ended (ses_a s)" "ended (ses_b s)"
proof -
  obtain ra rb where i: "peer_inv ea a b (ses_a s) (rb @ ses_inbox_b s) ra"
    "peer_inv eb b a (ses_b s) (ra @ ses_inbox_a s) rb"
    using inv by (auto simp: session_inv_def)
  have "peer_step ea recv (ses_a s) (ses_inbox_a s) False = None"
    "peer_step eb recv (ses_b s) (ses_inbox_b s) False = None" for recv
    using stuck step_a[of ea recv s False] step_b[of eb recv s False] by (metis option.exhaust prod_cases3)+
  then have w: "\<not> ended (ses_a s) \<Longrightarrow> waits a b (rb @ ses_inbox_b s) ra (ses_inbox_a s)"
    "\<not> ended (ses_b s) \<Longrightarrow> waits b a (ra @ ses_inbox_a s) rb (ses_inbox_b s)"
    using blocked_peer[OF ok(1) i(1)] blocked_peer[OF ok(2) i(2)] by blast+
  have e: "ended (ses_a s) \<Longrightarrow> rb @ ses_inbox_b s = script a" "ended (ses_b s) \<Longrightarrow> ra @ ses_inbox_a s = script b"
    using ended_inv(1)[OF i(1)] ended_inv(1)[OF i(2)] by auto
  have "ended (ses_a s) \<and> ended (ses_b s)"
    using w e length_script[of a] length_script[of b]
    by (cases "ended (ses_a s)"; cases "ended (ses_b s)") (auto simp: waits_def)
  then show "ended (ses_a s)" "ended (ses_b s)" by auto
qed

lemma stuck_session_complete:
  assumes "plan_ok ea a b" "plan_ok eb b a" "(session_step ea eb)\<^sup>*\<^sup>* (session_new ea eb) s"
    and "\<nexists>t. session_step ea eb s t"
  shows "\<exists>d m. peer_result (ses_a s) = Some (Inr (d, m))" "\<exists>d m. peer_result (ses_b s) = Some (Inr (d, m))"
    "received (ses_a s) = map (operation_in_row (se_cbor ea) (se_crypto ea) (se_ext ea)) (pl_rows b)"
    "received (ses_b s) = map (operation_in_row (se_cbor eb) (se_crypto eb) (se_ext eb)) (pl_rows a)"
proof -
  note inv = session_reachable_inv[OF assms(1-3)]
  note e = stuck_session[OF assms(1,2) inv assms(4)]
  then show "\<exists>d m. peer_result (ses_a s) = Some (Inr (d, m))" "\<exists>d m. peer_result (ses_b s) = Some (Inr (d, m))"
    "received (ses_a s) = map (operation_in_row (se_cbor ea) (se_crypto ea) (se_ext ea)) (pl_rows b)"
    "received (ses_b s) = map (operation_in_row (se_cbor eb) (se_crypto eb) (se_ext eb)) (pl_rows a)"
    using inv ended_inv(3,4) unfolding session_inv_def by metis+
qed

end
