(* ===== verification/Sync_Ranges.thy ===== *)
theory Sync_Ranges
  imports Sync_Session "HOL-Library.Multiset"
begin

section \<open>The rows a peer sends\<close>

text \<open>
  The heights a peer announces are the heights of its stored logs, and the ranges it computes from the
  heights of the remote select exactly the rows of its logs above them. With this every session
  between two well-formed stores has plans, and the theorems of \<open>Sync_Session\<close> apply.
\<close>

subsection \<open>Heights\<close>

definition stored_height :: "'l operations_table \<Rightarrow> verifying_key \<Rightarrow> 'l \<Rightarrow> seq_num option" where
  "stored_height tbl author log_id =
     (if log_rows tbl author log_id = [] then None
      else Some (Max (or_seq_num ` set (log_rows tbl author log_id))))"

definition announced :: "'l logs \<Rightarrow> verifying_key \<Rightarrow> 'l \<Rightarrow> bool" where
  "announced logs author log_id \<longleftrightarrow> log_id \<in> set (amap_get logs author)"

lemma amap_wf_map_filter:
  assumes "distinct xs" "\<And>x y. f x = Some y \<Longrightarrow> fst y = x"
  shows "amap_wf (List.map_filter f xs)"
    "map_of (List.map_filter f xs) k = (if k \<in> set xs then map_option snd (f k) else None)"
proof -
  have keys: "fst ` set (List.map_filter f xs) \<subseteq> set xs" for xs
    using assms(2) by (fastforce simp: List.map_filter_def)
  show "amap_wf (List.map_filter f xs)"
    using assms(1)
  proof (induction xs)
    case (Cons x xs)
    then have "x \<notin> fst ` set (List.map_filter f xs)"
      using keys[of xs] by auto
    with Cons show ?case
      using assms(2)[of x] by (cases "f x") (auto simp: List.map_filter_simps)
  qed (simp add: List.map_filter_simps)
  show "map_of (List.map_filter f xs) k = (if k \<in> set xs then map_option snd (f k) else None)"
    using assms(1)
  proof (induction xs)
    case (Cons x xs)
    then show ?case
      using assms(2)[of x] by (cases "f x") (auto simp: List.map_filter_simps)
  qed (simp add: List.map_filter_simps)
qed

lemma get_log_heights_exact:
  "amap_wf (case get_log_heights tbl author logs of None \<Rightarrow> [] | Some h \<Rightarrow> h)"
  "map_of (case get_log_heights tbl author logs of None \<Rightarrow> [] | Some h \<Rightarrow> h) log_id =
     (if log_id \<in> set logs then stored_height tbl author log_id else None)"
proof -
  let ?f = "\<lambda>log_id. case map or_seq_num (log_rows tbl author log_id) of
      [] \<Rightarrow> None | s # ss \<Rightarrow> Some (log_id, fold max ss s)"
  have heights: "(case get_log_heights tbl author logs of None \<Rightarrow> [] | Some h \<Rightarrow> h) = List.map_filter ?f (remdups logs)"
    by (simp add: get_log_heights_def Let_def)
  have fst: "fst y = x" if "?f x = Some y" for x y
    using that by (auto split: list.splits)
  show "amap_wf (case get_log_heights tbl author logs of None \<Rightarrow> [] | Some h \<Rightarrow> h)"
    unfolding heights by (rule amap_wf_map_filter) (use fst in auto)
  have "map_option snd (?f log_id) = stored_height tbl author log_id"
    by (cases "log_rows tbl author log_id")
      (simp_all add: stored_height_def Max.set_eq_fold[symmetric])
  then show "map_of (case get_log_heights tbl author logs of None \<Rightarrow> [] | Some h \<Rightarrow> h) log_id =
      (if log_id \<in> set logs then stored_height tbl author log_id else None)"
    unfolding heights by (subst amap_wf_map_filter(2)) (use fst in auto)
qed

lemma log_heights_fold:
  fixes tbl :: "'l operations_table"
  assumes "amap_wf logs" "amap_wf2 acc" "fst ` set logs \<inter> fst ` set acc = {}"
  defines "step \<equiv> \<lambda>(author, log_ids) result.
     case get_log_heights tbl author log_ids of None \<Rightarrow> result | Some heights \<Rightarrow> amap_insert author heights result"
  shows "amap_wf2 (fold step logs acc) \<and> lookup2 (fold step logs acc) a l =
    (if announced logs a l then stored_height tbl a l else lookup2 acc a l)"
  using assms(1-3)
proof (induction logs arbitrary: acc)
  case Nil
  then show ?case by (simp add: announced_def amap_get_def)
next
  case (Cons e logs)
  obtain k ids where e: "e = (k, ids)" by (cases e)
  note exact = get_log_heights_exact[of tbl k ids]
  have acc: "amap_wf2 (step e acc)"
    using Cons.prems(2) exact(1) by (auto simp: step_def e split: option.splits)
  have lu: "lookup2 (step e acc) a l = (if a = k \<and> l \<in> set ids then stored_height tbl a l else lookup2 acc a l)"
    using exact(2)[of l] Cons.prems(3)
    by (cases "get_log_heights tbl k ids") (auto simp: step_def e)
  have "fst ` set logs \<inter> fst ` set (step e acc) = {}"
    using Cons.prems(1,3) by (auto simp: step_def e split: option.splits)
  note IH = Cons.IH[OF _ acc this]
  have "k \<notin> fst ` set logs" "amap_wf logs"
    using Cons.prems(1) e by auto
  then have "announced (e # logs) a l \<longleftrightarrow> (a = k \<and> l \<in> set ids) \<or> announced logs a l"
    by (auto simp: announced_def amap_get_def e map_of_eq_None_iff[THEN iffD2] split: option.splits)
  then show ?case
    using IH \<open>amap_wf logs\<close> lu by auto
qed

lemma log_heights_exact:
  assumes "amap_wf logs"
  shows "amap_wf2 (log_heights_api tbl logs)"
    "lookup2 (log_heights_api tbl logs) a l = (if announced logs a l then stored_height tbl a l else None)"
  using log_heights_fold[OF assms, of "[]" tbl a l] by (simp_all add: log_heights_api_def amap_wf2_def)

subsection \<open>Ranges\<close>

definition range_rows :: "'l operations_table \<Rightarrow> verifying_key \<times> 'l \<times> seq_num option \<times> seq_num option \<Rightarrow> 'l operation_row list" where
  "range_rows tbl rg =
     (case rg of (author, log_id, after, until) \<Rightarrow>
        sort_key or_seq_num (filter (in_range after until) (log_rows tbl author log_id)))"

definition sent_rows :: "'l operations_table \<Rightarrow> (verifying_key, 'l) log_ranges \<Rightarrow> 'l operation_row list" where
  "sent_rows tbl ranges = concat (map (range_rows tbl) (flattened_ranges ranges))"

abbreviation range_key :: "verifying_key \<times> 'l \<times> seq_num option \<times> seq_num option \<Rightarrow> verifying_key \<times> 'l" where
  "range_key rg \<equiv> (fst rg, fst (snd rg))"

abbreviation row_key :: "'l operation_row \<Rightarrow> verifying_key \<times> 'l" where
  "row_key r \<equiv> (or_verifying_key r, or_log_id r)"

lemma range_rows_mem:
  "r \<in> set (range_rows tbl (a, l, after, until)) \<longleftrightarrow>
     r \<in> set tbl \<and> row_key r = (a, l) \<and> in_range after until r"
  by (auto simp: range_rows_def log_rows_def)

lemma range_rows_key: "r \<in> set (range_rows tbl rg) \<Longrightarrow> row_key r = range_key rg"
  by (cases rg) (auto simp: range_rows_mem)

lemma sent_rows_mem:
  "r \<in> set (sent_rows tbl ranges) \<longleftrightarrow>
     r \<in> set tbl \<and> (\<exists>after until. (or_verifying_key r, or_log_id r, after, until) \<in> set (flattened_ranges ranges) \<and>
       in_range after until r)"
proof -
  have "r \<in> set (sent_rows tbl ranges) \<longleftrightarrow>
      (\<exists>a l after until. (a, l, after, until) \<in> set (flattened_ranges ranges) \<and> r \<in> set (range_rows tbl (a, l, after, until)))"
    by (auto simp: sent_rows_def)
  then show ?thesis
    unfolding range_rows_mem by auto
qed

lemma flattened_ranges_mem:
  assumes "amap_wf2 ranges"
  shows "(a, l, after, until) \<in> set (flattened_ranges ranges) \<longleftrightarrow> lookup2 ranges a l = Some (after, until)"
proof -
  have "(a, l, after, until) \<in> set (flattened_ranges ranges) \<longleftrightarrow>
      (\<exists>ls. (a, ls) \<in> set ranges \<and> (l, after, until) \<in> set ls)"
    by (force simp: flattened_ranges_def)
  also have "\<dots> \<longleftrightarrow> (\<exists>ls. map_of ranges a = Some ls \<and> map_of ls l = Some (after, until))"
    using assms by (auto simp: amap_wf2_def amap_mem_iff list_all_iff dest: map_of_SomeD)
      (metis amap_mem_iff amap_wf2_D assms)+
  finally show ?thesis
    by (auto simp: lookup2_def split: option.splits)
qed

lemma flattened_ranges_distinct:
  assumes "amap_wf2 ranges"
  shows "distinct (map range_key (flattened_ranges ranges))"
  using assms
proof (induction ranges)
  case Nil
  then show ?case by (simp add: flattened_ranges_def)
next
  case (Cons e ranges)
  obtain a ls where e: "e = (a, ls)" by (cases e)
  have wf: "amap_wf ls" "a \<notin> fst ` set ranges" "amap_wf2 ranges"
    using Cons.prems e by (auto simp: amap_wf2_def)
  have "flattened_ranges (e # ranges) =
      map (\<lambda>(log_id, after, until). (a, log_id, after, until)) ls @ flattened_ranges ranges"
    by (simp add: flattened_ranges_def e)
  moreover have "map range_key (map (\<lambda>(log_id, after, until). (a, log_id, after, until)) ls) = map (Pair a) (map fst ls)"
    by auto
  moreover have "distinct (map (Pair a) (map fst ls))"
    using wf(1) by (simp add: amap_wf_def distinct_map inj_on_def)
  moreover have "fst x \<noteq> a" if "x \<in> set (flattened_ranges ranges)" for x
    using that wf(2) by (force simp: flattened_ranges_def)
  ultimately show ?case
    using Cons.IH[OF wf(3)] by (auto simp del: map_map)
qed

lemma log_rows_append2: "log_rows (xs @ ys) a l = log_rows xs a l @ log_rows ys a l"
  by (simp add: log_rows_def)

lemma concat_range_rows:
  assumes "distinct (map range_key ranges)" "distinct tbl"
  shows "distinct (concat (map (range_rows tbl) ranges))"
    "sorted (map or_seq_num (log_rows (concat (map (range_rows tbl) ranges)) a l))"
proof -
  have other: "log_rows (concat (map (range_rows tbl) ranges)) a l = []" if "(a, l) \<notin> set (map range_key ranges)" for ranges
    using that by (force simp: log_rows_def filter_empty_conv dest: range_rows_key)
  show "distinct (concat (map (range_rows tbl) ranges))"
    using assms
  proof (induction ranges)
    case (Cons rg ranges)
    moreover have "distinct (range_rows tbl rg)"
      using assms(2) by (cases rg) (simp add: range_rows_def log_rows_def)
    moreover have False if "r \<in> set (range_rows tbl rg)" "rg' \<in> set ranges" "r \<in> set (range_rows tbl rg')" for r rg'
    proof -
      have "range_key rg = range_key rg'"
        using range_rows_key[OF that(1)] range_rows_key[OF that(3)] by simp
      then have "range_key rg \<in> range_key ` set ranges"
        using that(2) by (intro image_eqI[of _ _ rg'])
      with Cons.prems(1) show False by simp
    qed
    then have "set (range_rows tbl rg) \<inter> set (concat (map (range_rows tbl) ranges)) = {}"
      by auto
    ultimately show ?case by simp
  qed simp
  show "sorted (map or_seq_num (log_rows (concat (map (range_rows tbl) ranges)) a l))"
    using assms(1)
  proof (induction ranges)
    case Nil
    then show ?case by (simp add: log_rows_def)
  next
    case (Cons rg ranges)
    show ?case
    proof (cases "range_key rg = (a, l)")
      case True
      then have "log_rows (range_rows tbl rg) a l = range_rows tbl rg"
        by (auto simp: log_rows_def filter_id_conv dest: range_rows_key)
      moreover have "log_rows (concat (map (range_rows tbl) ranges)) a l = []"
        using True Cons.prems by (intro other) auto
      moreover have "sorted (map or_seq_num (range_rows tbl rg))"
        by (cases rg) (simp add: range_rows_def)
      ultimately show ?thesis
        by (simp add: log_rows_append2)
    next
      case False
      then have "log_rows (range_rows tbl rg) a l = []"
        using other[of "[rg]"] by auto
      with Cons show ?thesis
        by (simp add: log_rows_append2)
    qed
  qed
qed

subsection \<open>The stream of operations and its size\<close>

lemma close_on_error_Inr [simp]: "close_on_error (map (Inr \<circ> f) xs) = map (Inr \<circ> f) xs"
  by (induction xs) simp_all

lemma stream_rows_ok:
  assumes "\<And>r. r \<in> set rows \<Longrightarrow> or_log_id r = log_id \<and> \<not> isl (any_header_decode C K (or_header r))"
  shows "stream_rows C K log_id rows = map (Inr \<circ> item_of_row C K) rows"
  using assms
proof (induction rows)
  case (Cons r rows)
  have "\<not> isl (any_header_decode C K (or_header r))"
    using Cons.prems[of r] by simp
  then obtain h where "any_header_decode C K (or_header r) = Inr h"
    by (cases "any_header_decode C K (or_header r)") auto
  with Cons show ?case
    by (simp add: item_of_row_def any_operation_of_row_def)
qed simp

lemma concat_map_map: "concat (map (map f \<circ> g) xs) = map f (concat (map g xs))"
  by (simp add: map_concat)

lemma log_ranges_rows:
  assumes "\<And>r. r \<in> set tbl \<Longrightarrow> \<not> isl (any_header_decode C K (or_header r))"
  shows "log_ranges_api C K tbl ranges = map (Inr \<circ> item_of_row C K) (sent_rows tbl ranges)"
proof -
  have "log_entries C K tbl a l after until = map (Inr \<circ> item_of_row C K) (range_rows tbl (a, l, after, until))"
    for a l after until
    unfolding log_entries_def range_rows_def prod.case
    by (rule stream_rows_ok) (use assms in \<open>auto simp: log_rows_def\<close>)
  then have "(\<lambda>(author, log_id, after, until). log_entries C K tbl author log_id after until) =
      map (Inr \<circ> item_of_row C K) \<circ> range_rows tbl"
    by auto
  then show ?thesis
    by (simp only: log_ranges_api_def sent_rows_def close_on_error_Inr concat_map_map)
qed

definition row_bytes :: "'l operation_row \<Rightarrow> nat" where
  "row_bytes r = unat (or_header_size r) + unat (or_payload_size r)"

definition sql_ok :: "(nat option \<Rightarrow> u32 option) \<Rightarrow> bool" where
  "sql_ok f \<longleftrightarrow> (\<forall>n < 2 ^ 32. f (Some n) = Some (of_nat n))"

lemma sum_list_sort_key: "sum_list (map f (sort_key g xs)) = sum_list (map f xs)" for f :: "'a \<Rightarrow> nat"
  by (metis mset_map mset_sort sum_mset_sum_list)

lemma sum_list_le_distinct:
  fixes f :: "'a \<Rightarrow> nat"
  assumes "distinct xs" "distinct ys" "set xs \<subseteq> set ys"
  shows "sum_list (map f xs) \<le> sum_list (map f ys)"
  using assms by (simp add: sum_list_distinct_conv_sum_set sum_mono2)

lemma sum_list_length:
  "(\<And>x. x \<in> set xs \<Longrightarrow> 0 < f x) \<Longrightarrow> length xs \<le> sum_list (map f xs)" for f :: "'a \<Rightarrow> nat"
  by (induction xs) (auto simp: Suc_le_eq add_less_le_mono dest: meta_spec, fastforce)

lemma get_log_size_rows:
  assumes "sql_ok sql_u32" "range_rows tbl (a, l, after, until) \<noteq> []"
    and "sum_list (map row_bytes (range_rows tbl (a, l, after, until))) < 2 ^ 32"
    and "\<And>r. r \<in> set tbl \<Longrightarrow> 0 < or_header_size r"
  shows "get_log_size sql_u32 tbl a l after until =
    Some (of_nat (length (range_rows tbl (a, l, after, until))),
          of_nat (sum_list (map row_bytes (range_rows tbl (a, l, after, until)))))"
proof -
  define rows where "rows = filter (in_range after until) (log_rows tbl a l)"
  have eq: "range_rows tbl (a, l, after, until) = sort_key or_seq_num rows"
    by (simp add: range_rows_def rows_def)
  have split: "sum_list (map row_bytes rows) =
      sum_list (map (unat \<circ> or_header_size) rows) + sum_list (map (unat \<circ> or_payload_size) rows)"
    by (simp add: row_bytes_def[abs_def] sum_list_addf comp_def)
  have bound: "sum_list (map row_bytes rows) < 2 ^ 32" "rows \<noteq> []"
    using assms(2,3) by (auto simp: eq sum_list_sort_key)
  have "length rows \<le> sum_list (map (unat \<circ> or_header_size) rows)"
    by (rule sum_list_length) (use assms(4) in \<open>auto simp: rows_def log_rows_def unat_gt_0 word_neq_0_conv\<close>)
  with bound split have "sum_list (map (unat \<circ> or_header_size) rows) < 2 ^ 32"
    "sum_list (map (unat \<circ> or_payload_size) rows) < 2 ^ 32" "length rows < 2 ^ 32"
    by linarith+
  with assms(1) have "get_log_size sql_u32 tbl a l after until =
      Some (of_nat (length rows), of_nat (sum_list (map row_bytes rows)))"
    unfolding get_log_size_def sql_sum_def Let_def rows_def[symmetric] split
    by (simp add: sql_ok_def bound(2))
  then show ?thesis
    by (simp add: eq sum_list_sort_key)
qed

lemma outbound_size_fold:
  assumes sql: "sql_ok (se_sql_u32 env)" and sizes: "\<And>r. r \<in> set (se_store env) \<Longrightarrow> 0 < or_header_size r"
    and some: "\<And>rg. rg \<in> set ranges \<Longrightarrow> range_rows (se_store env) rg \<noteq> []"
    and bound: "sum_list (map row_bytes (concat (map (range_rows (se_store env)) ranges))) < 2 ^ 32"
  shows "fold (\<lambda>(author, log_id, after, until) acc.
      case (acc, get_log_size (se_sql_u32 env) (se_store env) author log_id after until) of
        (Some (operations, bytes), Some (inner_operations, inner_bytes)) \<Rightarrow>
          Some (operations + inner_operations, bytes + inner_bytes)
      | _ \<Rightarrow> None) ranges (Some (of_nat m, of_nat n)) =
    Some (of_nat (m + length (concat (map (range_rows (se_store env)) ranges))),
          of_nat (n + sum_list (map row_bytes (concat (map (range_rows (se_store env)) ranges)))))"
  using some bound
proof (induction ranges arbitrary: m n)
  case (Cons rg ranges)
  obtain a l after until where rg: "rg = (a, l, after, until)" by (cases rg)
  let ?rows = "range_rows (se_store env) rg"
  have size: "get_log_size (se_sql_u32 env) (se_store env) a l after until =
      Some (of_nat (length ?rows), of_nat (sum_list (map row_bytes ?rows)))"
    unfolding rg by (rule get_log_size_rows) (use sql sizes Cons.prems in \<open>auto simp: rg\<close>)
  show ?case
    using Cons.IH[of "m + length ?rows" "n + sum_list (map row_bytes ?rows)"] Cons.prems
    by (simp add: rg[symmetric]) (simp add: rg size[unfolded rg] add.assoc)
qed simp

subsection \<open>What the remote is missing\<close>

definition missing :: "('v, 'sk, 'e, 'l) sync_env \<Rightarrow> ('v, 'sk, 'e, 'l) sync_env \<Rightarrow> 'l operation_row \<Rightarrow> bool" where
  "missing sender receiver r \<longleftrightarrow>
     r \<in> set (se_store sender) \<and> announced (se_logs sender) (or_verifying_key r) (or_log_id r) \<and>
     (announced (se_logs receiver) (or_verifying_key r) (or_log_id r) \<longrightarrow>
        (\<forall>r' \<in> set (se_store receiver). row_key r' = row_key r \<longrightarrow> or_seq_num r' < or_seq_num r))"

definition store_ok :: "('v, 'sk, 'e, 'l) sync_env \<Rightarrow> bool" where
  "store_ok env \<longleftrightarrow>
     amap_wf (se_logs env) \<and> distinct (map or_hash (se_store env)) \<and> sql_ok (se_sql_u32 env) \<and>
     list_all (\<lambda>r. row_ok (se_cbor env) (se_crypto env) (se_ext env) r \<and> 0 < or_header_size r) (se_store env) \<and>
     sum_list (map row_bytes (se_store env)) < 2 ^ 32"

abbreviation heights :: "('v, 'sk, 'e, 'l) sync_env \<Rightarrow> (verifying_key, 'l) log_heights" where
  "heights env \<equiv> log_heights_api (se_store env) (se_logs env)"

lemma stored_height_iff:
  "stored_height tbl a l = Some h \<longleftrightarrow>
     (\<exists>r \<in> set tbl. row_key r = (a, l) \<and> or_seq_num r = h) \<and> (\<forall>r \<in> set tbl. row_key r = (a, l) \<longrightarrow> or_seq_num r \<le> h)"
proof -
  have "log_rows tbl a l \<noteq> [] \<Longrightarrow> stored_height tbl a l = Some h \<longleftrightarrow>
      h \<in> or_seq_num ` set (log_rows tbl a l) \<and> (\<forall>s \<in> or_seq_num ` set (log_rows tbl a l). s \<le> h)"
    by (auto simp: stored_height_def Max_eq_iff)
  then show ?thesis
    by (cases "log_rows tbl a l = []") (auto simp: stored_height_def log_rows_def filter_empty_conv)
qed

lemma stored_height_None: "stored_height tbl a l = None \<longleftrightarrow> (\<forall>r \<in> set tbl. row_key r \<noteq> (a, l))"
  by (auto simp: stored_height_def log_rows_def filter_empty_conv)

lemma stored_height_row: "r \<in> set tbl \<Longrightarrow> \<exists>h. stored_height tbl (or_verifying_key r) (or_log_id r) = Some h \<and> or_seq_num r \<le> h"
  by (cases "stored_height tbl (or_verifying_key r) (or_log_id r)") (auto simp: stored_height_None stored_height_iff)

lemma needed_in_range:
  "or_seq_num r \<le> h \<Longrightarrow>
   (\<exists>after until. needed (Some h) k = Some (after, until) \<and> in_range after until r) \<longleftrightarrow>
   (case k of None \<Rightarrow> True | Some k \<Rightarrow> k < or_seq_num r)"
  by (cases k) (auto simp: needed_def in_range_def)

lemma above_stored_height:
  "(\<forall>r' \<in> set tbl. row_key r' = (a, l) \<longrightarrow> or_seq_num r' < s) \<longleftrightarrow>
   (case stored_height tbl a l of None \<Rightarrow> True | Some k \<Rightarrow> k < s)"
proof (cases "stored_height tbl a l")
  case (Some k)
  with stored_height_iff[of tbl a l k] show ?thesis
    by (auto intro: le_less_trans)
next
  case None
  with stored_height_None[of tbl a l] show ?thesis by auto
qed

lemma sent_rows_missing:
  assumes "store_ok sender" "store_ok receiver"
  shows "set (sent_rows (se_store sender) (compare (heights sender) (heights receiver))) = {r. missing sender receiver r}"
proof -
  have wf: "amap_wf (se_logs sender)" "amap_wf (se_logs receiver)"
    using assms by (simp_all add: store_ok_def)
  note lu = lookup2_compare[OF log_heights_exact(1)[OF wf(1)] log_heights_exact(1)[OF wf(2)],
      unfolded log_heights_exact(2)[OF wf(1)] log_heights_exact(2)[OF wf(2)]]
  note mem = flattened_ranges_mem[OF amap_wf2_compare[OF log_heights_exact(1)[OF wf(1)]]]
  have "r \<in> set (sent_rows (se_store sender) (compare (heights sender) (heights receiver))) \<longleftrightarrow> missing sender receiver r"
    for r
  proof (cases "r \<in> set (se_store sender) \<and> announced (se_logs sender) (or_verifying_key r) (or_log_id r)")
    case True
    then obtain h where h: "stored_height (se_store sender) (or_verifying_key r) (or_log_id r) = Some h" "or_seq_num r \<le> h"
      using stored_height_row by blast
    have "r \<in> set (sent_rows (se_store sender) (compare (heights sender) (heights receiver))) \<longleftrightarrow>
        (\<exists>after until. needed (Some h) (if announced (se_logs receiver) (or_verifying_key r) (or_log_id r)
             then stored_height (se_store receiver) (or_verifying_key r) (or_log_id r) else None) = Some (after, until) \<and>
           in_range after until r)"
      using True by (simp add: sent_rows_mem mem lu h)
    also have "\<dots> \<longleftrightarrow> missing sender receiver r"
      using True
        by (simp add: needed_in_range[OF h(2)] missing_def
            above_stored_height[of "se_store receiver" "or_verifying_key r" "or_log_id r", simplified])
    finally show ?thesis .
  next
    case False
    then show ?thesis
      by (auto simp: sent_rows_mem mem lu missing_def)
  qed
  then show ?thesis by blast
qed

lemma needed_SomeD:
  "needed local remote = Some (after, until) \<Longrightarrow>
   \<exists>h. local = Some h \<and> until = Some h \<and> (after = None \<or> (\<exists>k. after = Some k \<and> k < h))"
  by (cases local; cases remote) (auto simp: needed_def split: if_splits)

lemma sent_rows_ranges:
  assumes "store_ok sender" "store_ok receiver" "rg \<in> set (flattened_ranges (compare (heights sender) (heights receiver)))"
  shows "range_rows (se_store sender) rg \<noteq> []"
proof -
  have wf: "amap_wf (se_logs sender)" "amap_wf (se_logs receiver)"
    using assms by (simp_all add: store_ok_def)
  obtain a l after until where rg: "rg = (a, l, after, until)" by (cases rg)
  have "lookup2 (compare (heights sender) (heights receiver)) a l = Some (after, until)"
    using assms(3) flattened_ranges_mem[OF amap_wf2_compare[OF log_heights_exact(1)[OF wf(1)]]] by (simp add: rg)
  then have "needed (if announced (se_logs sender) a l then stored_height (se_store sender) a l else None)
      (lookup2 (heights receiver) a l) = Some (after, until)"
    by (simp only: lookup2_compare[OF log_heights_exact(1)[OF wf(1)] log_heights_exact(1)[OF wf(2)]]
        log_heights_exact(2)[OF wf(1)])
  from needed_SomeD[OF this] obtain h where h: "stored_height (se_store sender) a l = Some h" "until = Some h"
    "after = None \<or> (\<exists>k. after = Some k \<and> k < h)"
    by (cases "announced (se_logs sender) a l") auto
  then obtain r where "r \<in> set (se_store sender)" "row_key r = (a, l)" "or_seq_num r = h"
    using h(1)[unfolded stored_height_iff] by blast
  with h have "r \<in> set (range_rows (se_store sender) rg)"
    by (auto simp: rg range_rows_mem in_range_def)
  then show ?thesis by auto
qed

definition plan_of :: "('v, 'sk, 'e, 'l) sync_env \<Rightarrow> ('v, 'sk, 'e, 'l) sync_env \<Rightarrow> 'l plan" where
  "plan_of mine theirs =
     (let rows = sent_rows (se_store mine) (compare (heights mine) (heights theirs))
      in \<lparr>pl_heights = heights mine, pl_rows = rows, pl_operations = of_nat (length rows),
          pl_bytes = of_nat (sum_list (map row_bytes rows))\<rparr>)"

lemma sent_rows_distinct:
  assumes "store_ok sender"
  shows "distinct (sent_rows (se_store sender) (compare (heights sender) remote))"
    "sorted (map or_seq_num (log_rows (sent_rows (se_store sender) (compare (heights sender) remote)) a l))"
proof -
  have "amap_wf2 (compare (heights sender) remote)" "distinct (se_store sender)"
    using assms by (auto simp: store_ok_def amap_wf2_compare log_heights_exact(1) distinct_map)
  then show "distinct (sent_rows (se_store sender) (compare (heights sender) remote))"
    "sorted (map or_seq_num (log_rows (sent_rows (se_store sender) (compare (heights sender) remote)) a l))"
    unfolding sent_rows_def by (auto intro!: concat_range_rows flattened_ranges_distinct)
qed

lemma of_nat_u32_pos: "n < 2 ^ 32 \<Longrightarrow> 0 < (of_nat n :: u32) \<longleftrightarrow> 0 < n"
  by (cases "n = 0") (auto simp: word_gt_0 word_of_nat_eq_0_iff dest: nat_dvd_not_less)

lemma plan_of_size:
  assumes "store_ok mine" "store_ok theirs"
  shows "outbound_size mine (compare (heights mine) (heights theirs)) =
      Some (pl_operations (plan_of mine theirs), pl_bytes (plan_of mine theirs))"
    "0 < pl_bytes (plan_of mine theirs) \<longleftrightarrow> pl_rows (plan_of mine theirs) \<noteq> []"
proof -
  let ?ranges = "compare (heights mine) (heights theirs)"
  let ?rows = "sent_rows (se_store mine) ?ranges"
  have sub: "set ?rows \<subseteq> set (se_store mine)"
    by (auto simp: sent_rows_mem)
  have sizes: "\<And>r. r \<in> set (se_store mine) \<Longrightarrow> 0 < or_header_size r"
    using assms(1) by (simp add: store_ok_def list_all_iff)
  have "sum_list (map row_bytes ?rows) \<le> sum_list (map row_bytes (se_store mine))"
    using assms(1) sub sent_rows_distinct(1)[OF assms(1)]
    by (intro sum_list_le_distinct) (auto simp: store_ok_def distinct_map)
  then have bound: "sum_list (map row_bytes ?rows) < 2 ^ 32"
    using assms(1) by (simp add: store_ok_def)
  show "outbound_size mine ?ranges = Some (pl_operations (plan_of mine theirs), pl_bytes (plan_of mine theirs))"
    using outbound_size_fold[OF _ sizes sent_rows_ranges[OF assms], where m = 0 and n = 0] assms(1) bound
    by (simp add: outbound_size_def plan_of_def sent_rows_def store_ok_def Let_def)
  have "0 < sum_list (map row_bytes ?rows)" if "?rows \<noteq> []"
  proof -
    have "0 < row_bytes r" if "r \<in> set ?rows" for r
      using sizes[of r] sub that by (auto simp: row_bytes_def word_gt_0_no unat_gt_0)
    then have "length ?rows \<le> sum_list (map row_bytes ?rows)"
      by (rule sum_list_length)
    moreover have "0 < length ?rows"
      using that by simp
    ultimately show ?thesis by linarith
  qed
  then have "0 < (of_nat (sum_list (map row_bytes ?rows)) :: u32) \<longleftrightarrow> ?rows \<noteq> []"
    unfolding of_nat_u32_pos[OF bound] by auto
  then show "0 < pl_bytes (plan_of mine theirs) \<longleftrightarrow> pl_rows (plan_of mine theirs) \<noteq> []"
    by (simp add: plan_of_def Let_def)
qed

subsection \<open>Two stores in a session\<close>

definition same_codec :: "('v, 'sk, 'e, 'l) sync_env \<Rightarrow> ('v, 'sk, 'e, 'l) sync_env \<Rightarrow> bool" where
  "same_codec ea eb \<longleftrightarrow> se_cbor ea = se_cbor eb \<and> se_crypto ea = se_crypto eb \<and> se_ext ea = se_ext eb"

definition stores_agree :: "('v, 'sk, 'e, 'l) sync_env \<Rightarrow> ('v, 'sk, 'e, 'l) sync_env \<Rightarrow> bool" where
  "stores_agree ea eb \<longleftrightarrow>
     (\<forall>r \<in> set (se_store ea). \<forall>r' \<in> set (se_store eb). or_hash r = or_hash r' \<longrightarrow>
        row_key r = row_key r' \<and> or_seq_num r = or_seq_num r')"

lemma missing_disjoint:
  assumes "stores_agree ea eb" "missing ea eb r" "missing eb ea r'"
  shows "or_hash r \<noteq> or_hash r'"
  using assms unfolding stores_agree_def missing_def by fastforce

lemma plan_of_rows: "pl_rows (plan_of ea eb) = sent_rows (se_store ea) (compare (heights ea) (heights eb))"
  by (simp add: plan_of_def Let_def)

lemma plan_of_hashes1: "store_ok ea \<Longrightarrow> distinct (map or_hash (pl_rows (plan_of ea eb)))"
  using sent_rows_distinct(1)[of ea "heights eb"]
  by (auto simp: plan_of_rows distinct_map store_ok_def sent_rows_mem intro: inj_on_subset)

lemma plan_of_hashes:
  assumes "store_ok ea" "store_ok eb" "stores_agree ea eb"
  shows "distinct (map or_hash (pl_rows (plan_of ea eb) @ pl_rows (plan_of eb ea)))"
proof -
  have "or_hash ` set (pl_rows (plan_of ea eb)) \<inter> or_hash ` set (pl_rows (plan_of eb ea)) = {}"
    unfolding plan_of_rows sent_rows_missing[OF assms(1,2)] sent_rows_missing[OF assms(2,1)]
    using missing_disjoint[OF assms(3)] by auto
  then show ?thesis
    using plan_of_hashes1[OF assms(1), of eb] plan_of_hashes1[OF assms(2), of ea] by simp
qed

lemma plan_of_ok:
  assumes "store_ok ea" "store_ok eb" "same_codec ea eb" "stores_agree ea eb"
  shows "plan_ok ea (plan_of ea eb) (plan_of eb ea)"
proof -
  have heights: "pl_heights (plan_of ea eb) = heights ea" "pl_heights (plan_of eb ea) = heights eb"
    by (simp_all add: plan_of_def Let_def)
  have "\<not> isl (any_header_decode (se_cbor ea) (se_crypto ea) (or_header r))" if "r \<in> set (se_store ea)" for r
    using assms(1) that by (auto simp: store_ok_def list_all_iff row_ok_def)
  note stream = log_ranges_rows[OF this, where ranges = "compare (heights ea) (heights eb)"]
  have "row_ok (se_cbor ea) (se_crypto ea) (se_ext ea) r"
    if "r \<in> set (pl_rows (plan_of ea eb)) \<union> set (pl_rows (plan_of eb ea))" for r
    using that assms(1-3) by (auto simp: plan_of_rows sent_rows_mem store_ok_def same_codec_def list_all_iff)
  then have rows: "list_all (row_ok (se_cbor ea) (se_crypto ea) (se_ext ea)) (pl_rows (plan_of ea eb) @ pl_rows (plan_of eb ea))"
    by (auto simp: list_all_iff)
  show ?thesis
    unfolding plan_ok_def heights
    by (intro conjI refl plan_of_size[OF assms(1,2)] plan_of_hashes[OF assms(1,2,4)] rows) (simp add: plan_of_rows stream)
qed

lemma codec_sym: "same_codec ea eb \<Longrightarrow> same_codec eb ea"
  by (simp add: same_codec_def)

lemma agree_sym: "stores_agree ea eb \<Longrightarrow> stores_agree eb ea"
  by (fastforce simp: stores_agree_def)

definition delivers :: "('v, 'sk, 'e, 'l) sync_env \<Rightarrow> ('v, 'sk, 'e, 'l) sync_env \<Rightarrow> ('v, 'e) operation list \<Rightarrow> bool" where
  "delivers sender receiver ops \<longleftrightarrow>
     (\<exists>rows. ops = map (operation_in_row (se_cbor receiver) (se_crypto receiver) (se_ext receiver)) rows \<and>
        distinct rows \<and> set rows = {r. missing sender receiver r} \<and>
        (\<forall>author log_id. sorted (map or_seq_num (log_rows rows author log_id))))"

lemma delivers_plan:
  assumes "store_ok sender" "store_ok receiver"
  shows "delivers sender receiver
    (map (operation_in_row (se_cbor receiver) (se_crypto receiver) (se_ext receiver)) (pl_rows (plan_of sender receiver)))"
  using sent_rows_missing[OF assms] sent_rows_distinct[OF assms(1)] unfolding delivers_def plan_of_rows by blast

text \<open>
  C2. A log sync session delivers exactly what is missing. Two peers with well-formed stores (operation
  ids are unique and decode to the stored headers, at most 4 GiB in total) that agree on the log position of
  the operations both have, run a session in any interleaving. When no step is possible any more, which
  by termination is reached, both peers have ended successfully; each has been notified of exactly the
  operations of the logs of the remote above the heights it announced itself, of each of them once, and
  per log in the order of the sequence numbers. No deadlock is possible, and the deduplication never
  swallows an operation that is needed.
\<close>
theorem log_sync_delivers_missing:
  assumes "store_ok ea" "store_ok eb" "same_codec ea eb" "stores_agree ea eb"
    and "(session_step ea eb)\<^sup>*\<^sup>* (session_new ea eb) s" "\<nexists>t. session_step ea eb s t"
  shows "(\<exists>dedup metrics. peer_result (ses_a s) = Some (Inr (dedup, metrics))) \<and>
    (\<exists>dedup metrics. peer_result (ses_b s) = Some (Inr (dedup, metrics))) \<and>
    delivers eb ea (received (ses_a s)) \<and> delivers ea eb (received (ses_b s))"
proof -
  note plans = plan_of_ok[OF assms(1-4)] plan_of_ok[OF assms(2,1) codec_sym[OF assms(3)] agree_sym[OF assms(4)]]
  note complete = stuck_session_complete[OF plans assms(5,6)]
  show ?thesis
    using complete(1,2) assms(1,2) unfolding complete(3,4) by (simp add: delivers_plan)
qed

subsection \<open>A session in which one operation is missing\<close>

lemma session_has_end: "\<exists>s. (session_step ea eb)\<^sup>*\<^sup>* (session_new ea eb) s \<and> (\<nexists>t. session_step ea eb s t)"
proof -
  have wf: "wf {(t, s). session_step ea eb s t}"
    by (rule wf_subset[of session_order]) (auto simp: session_order_def dest: session_step_decreases)
  have "session_new ea eb \<in> {s. (session_step ea eb)\<^sup>*\<^sup>* (session_new ea eb) s}"
    by simp
  from wfE_min[OF wf this] obtain s where "(session_step ea eb)\<^sup>*\<^sup>* (session_new ea eb) s"
    "\<And>t. session_step ea eb s t \<Longrightarrow> \<not> (session_step ea eb)\<^sup>*\<^sup>* (session_new ea eb) t"
    by auto
  then show ?thesis
    by (meson rtranclp.rtrancl_into_rtrancl)
qed

definition example_row :: "nat operation_row" where
  "example_row =
     \<lparr>or_hash = digest example_header, or_log_id = 3, or_version = 1, or_verifying_key = verifying_key example_header,
      or_signature = signature example_header, or_payload_size = 2, or_payload_hash = payload_hash example_header,
      or_seq_num = 7, or_header = header_encode framed example_header, or_header_size = 300, or_body = Some [4, 2]\<rparr>"

definition example_env :: "nat operations_table \<Rightarrow> (bytes, u8, unit, nat) sync_env" where
  "example_env tbl =
     \<lparr>se_cbor = framed, se_crypto = prefix_keys, se_ext = unit_ext,
      se_sql_u32 = (\<lambda>n. case n of None \<Rightarrow> None | Some n \<Rightarrow> if n < 2 ^ 32 then Some (of_nat n) else None),
      se_grow = (\<lambda>n. 2 * n), se_store = tbl, se_logs = [(verifying_key example_header, [3])],
      se_capacity = DEFAULT_BUFFER_CAPACITY\<rparr>"

lemma example_row_ok: "row_ok framed prefix_keys unit_ext example_row"
proof -
  have wf: "builder_wf (builder_chain 7 (replicate 32 9) (builder_body prefix_keys [4, 2] builder_new))"
    using crypto_ok_prefix_keys by (intro builder_wf_intros) (simp_all add: HASH_LEN_def)
  note any = decode_built[OF cbor_ok_framed crypto_ok_prefix_keys wf example_header_built within_limits_framed]
  have "header_of_any unit_ext (any_of_header example_header) = Inr example_header"
    using header_of_any_truncate[OF ext_ok_unit, of example_header] build_Some[OF example_header_built] by simp
  with any show ?thesis
    by (simp add: row_ok_def example_row_def header_decode_def)
qed

theorem log_sync_delivers_missing_witness:
  "\<exists>s. (session_step (example_env []) (example_env [example_row]))\<^sup>*\<^sup>* (session_new (example_env []) (example_env [example_row])) s \<and>
       (\<exists>dedup metrics. peer_result (ses_a s) = Some (Inr (dedup, metrics))) \<and>
       delivers (example_env [example_row]) (example_env []) (received (ses_a s)) \<and>
       missing (example_env [example_row]) (example_env []) example_row"
proof -
  let ?a = "example_env []" and ?b = "example_env [example_row]"
  have ok: "store_ok ?a" "store_ok ?b" "same_codec ?a ?b" "stores_agree ?a ?b"
    using example_row_ok
    by (simp_all add: store_ok_def same_codec_def stores_agree_def example_env_def sql_ok_def example_row_def row_bytes_def)
  obtain s where s: "(session_step ?a ?b)\<^sup>*\<^sup>* (session_new ?a ?b) s" "\<nexists>t. session_step ?a ?b s t"
    using session_has_end by blast
  have "missing ?b ?a example_row"
    by (simp add: missing_def example_env_def announced_def amap_get_def example_row_def)
  with log_sync_delivers_missing[OF ok s] s(1) show ?thesis
    by blast
qed

end
