(* ===== verification/Encryption_Ratchet.thy ===== *)
theory Encryption_Ratchet
  imports Prelude
begin

section \<open>The message ratchet\<close>

text \<open>
  \<open>p2panda-encryption/src/message_scheme/ratchet.rs\<close>: the key chain for encrypting messages and the
  ratchet for decrypting them, which keeps the keys of skipped generations for messages that arrive out of
  order. The key derivation of the \<open>hkdf\<close> crate is the argument \<open>kdf\<close> (label, input key material and
  length of the output). Generations are 32 bit words.
\<close>

subsection \<open>The key chain\<close>

definition MESSAGE_KEY_SIZE :: nat where
  "MESSAGE_KEY_SIZE = 32"

definition AEAD_NONCE_SIZE :: nat where
  "AEAD_NONCE_SIZE = 12"

type_synonym kdf = "string \<Rightarrow> bytes \<Rightarrow> nat \<Rightarrow> bytes option"
type_synonym generation = u32
type_synonym ratchet_key_material = "bytes \<times> bytes"

datatype ratchet_error =
    Hkdf
  | TooDistantInTheFuture
  | TooDistantInThePast
  | IndexOutOfBounds
  | SecretReuse

record ratchet_secret_state =
  rs_secret :: bytes
  rs_generation :: generation

definition ratchet_secret_init :: "bytes \<Rightarrow> ratchet_secret_state" where
  "ratchet_secret_init secret = \<lparr>rs_secret = secret, rs_generation = 0\<rparr>"

definition hkdf_bytes :: "kdf \<Rightarrow> string \<Rightarrow> bytes \<Rightarrow> nat \<Rightarrow> ratchet_error + bytes" where
  "hkdf_bytes kdf label ikm n = (case kdf label ikm n of None \<Rightarrow> Inl Hkdf | Some okm \<Rightarrow> Inr okm)"

definition ratchet_forward ::
  "kdf \<Rightarrow> ratchet_secret_state \<Rightarrow> ratchet_error + ratchet_secret_state \<times> generation \<times> ratchet_key_material" where
  "ratchet_forward kdf y =
     (let gen = rs_generation y in
      bind_result (hkdf_bytes kdf ''nonce'' (rs_secret y) AEAD_NONCE_SIZE) (\<lambda>nonce.
      bind_result (hkdf_bytes kdf ''key'' (rs_secret y) MESSAGE_KEY_SIZE) (\<lambda>key.
      bind_result (hkdf_bytes kdf ''chain'' (rs_secret y) MESSAGE_KEY_SIZE) (\<lambda>secret.
        Inr (\<lparr>rs_secret = secret, rs_generation = gen + 1\<rparr>, gen, (key, nonce))))))"

subsection \<open>The decryption ratchet\<close>

record decryption_ratchet_state =
  dr_past_secrets :: "ratchet_key_material option list"
  dr_head :: ratchet_secret_state

definition decryption_ratchet_init :: "bytes \<Rightarrow> decryption_ratchet_state" where
  "decryption_ratchet_init secret = \<lparr>dr_past_secrets = [], dr_head = ratchet_secret_init secret\<rparr>"

fun skip_generations :: "kdf \<Rightarrow> nat \<Rightarrow> decryption_ratchet_state \<Rightarrow> ratchet_error + decryption_ratchet_state" where
  "skip_generations kdf 0 y = Inr y"
| "skip_generations kdf (Suc n) y =
     bind_result (ratchet_forward kdf (dr_head y)) (\<lambda>(head, _, secrets).
       skip_generations kdf n \<lparr>dr_past_secrets = Some secrets # dr_past_secrets y, dr_head = head\<rparr>)"

definition future_secret ::
  "kdf \<Rightarrow> decryption_ratchet_state \<Rightarrow> generation \<Rightarrow> u32 \<Rightarrow> ratchet_error + decryption_ratchet_state \<times> ratchet_key_material" where
  "future_secret kdf y gen ooo_tolerance =
     bind_result (skip_generations kdf (unat (gen - rs_generation (dr_head y))) y) (\<lambda>y.
     bind_result (ratchet_forward kdf (dr_head y)) (\<lambda>(head, _, secrets).
       Inr (\<lparr>dr_past_secrets = take (unat ooo_tolerance) (None # dr_past_secrets y), dr_head = head\<rparr>, secrets)))"

definition past_secret ::
  "decryption_ratchet_state \<Rightarrow> generation \<Rightarrow> ratchet_error + decryption_ratchet_state \<times> ratchet_key_material" where
  "past_secret y gen =
     (let window_index = rs_generation (dr_head y) - gen - 1
      in if 0 \<le> sint window_index
         then (let index = unat window_index
               in if index < length (dr_past_secrets y)
                  then (case dr_past_secrets y ! index of
                          None \<Rightarrow> Inl SecretReuse
                        | Some secrets \<Rightarrow> Inr (y\<lparr>dr_past_secrets := (dr_past_secrets y)[index := None]\<rparr>, secrets))
                  else Inl IndexOutOfBounds)
         else Inl TooDistantInThePast)"

definition secret_for_decryption ::
  "kdf \<Rightarrow> decryption_ratchet_state \<Rightarrow> generation \<Rightarrow> u32 \<Rightarrow> u32 \<Rightarrow>
   ratchet_error + decryption_ratchet_state \<times> ratchet_key_material" where
  "secret_for_decryption kdf y gen maximum_forward_distance ooo_tolerance =
     (let head = rs_generation (dr_head y)
      in if head < - 1 - maximum_forward_distance \<and> head + maximum_forward_distance < gen
         then Inl TooDistantInTheFuture
         else if gen < head \<and> ooo_tolerance < head - gen then Inl TooDistantInThePast
         else if head \<le> gen then future_secret kdf y gen ooo_tolerance
         else past_secret y gen)"

subsection \<open>Sequences of messages\<close>

fun encryption_keys :: "kdf \<Rightarrow> nat \<Rightarrow> ratchet_secret_state \<Rightarrow> ratchet_error + (generation \<times> ratchet_key_material) list" where
  "encryption_keys kdf 0 y = Inr []"
| "encryption_keys kdf (Suc n) y =
     bind_result (ratchet_forward kdf y) (\<lambda>(y, gen, secrets).
     bind_result (encryption_keys kdf n y) (\<lambda>rest. Inr ((gen, secrets) # rest)))"

fun decryption_keys ::
  "kdf \<Rightarrow> u32 \<Rightarrow> u32 \<Rightarrow> generation list \<Rightarrow> decryption_ratchet_state \<Rightarrow> (ratchet_error + ratchet_key_material) list" where
  "decryption_keys kdf fwd ooo [] y = []"
| "decryption_keys kdf fwd ooo (gen # gens) y =
     (case secret_for_decryption kdf y gen fwd ooo of
        Inl e \<Rightarrow> Inl e # decryption_keys kdf fwd ooo gens y
      | Inr (y, secrets) \<Rightarrow> Inr secrets # decryption_keys kdf fwd ooo gens y)"

text \<open>
  The abstract ratchet: the next generation, the set of generations whose keys were handed out, and a
  function from generations to keys.
\<close>

fun window_keys ::
  "(nat \<Rightarrow> ratchet_key_material) \<Rightarrow> nat \<Rightarrow> nat \<Rightarrow> nat list \<Rightarrow> nat \<Rightarrow> nat set \<Rightarrow> (ratchet_error + ratchet_key_material) list" where
  "window_keys key_of fwd ooo [] head used = []"
| "window_keys key_of fwd ooo (g # gs) head used =
     (if head + fwd < g then Inl TooDistantInTheFuture # window_keys key_of fwd ooo gs head used
      else if ooo < head - g then Inl TooDistantInThePast # window_keys key_of fwd ooo gs head used
      else if g \<in> used then Inl SecretReuse # window_keys key_of fwd ooo gs head used
      else Inr (key_of g) # window_keys key_of fwd ooo gs (max head (Suc g)) (insert g used))"

definition hkdf_ok :: "kdf \<Rightarrow> bool" where
  "hkdf_ok kdf \<longleftrightarrow> (\<forall>label ikm n. n \<le> 255 * 32 \<longrightarrow> (\<exists>okm. kdf label ikm n = Some okm \<and> length okm = n))"

primrec chain_secret :: "kdf \<Rightarrow> bytes \<Rightarrow> nat \<Rightarrow> bytes" where
  "chain_secret kdf secret 0 = secret"
| "chain_secret kdf secret (Suc n) = the (kdf ''chain'' (chain_secret kdf secret n) MESSAGE_KEY_SIZE)"

definition chain_key :: "kdf \<Rightarrow> bytes \<Rightarrow> nat \<Rightarrow> ratchet_key_material" where
  "chain_key kdf secret n =
     (the (kdf ''key'' (chain_secret kdf secret n) MESSAGE_KEY_SIZE),
      the (kdf ''nonce'' (chain_secret kdf secret n) AEAD_NONCE_SIZE))"

definition chain_state :: "kdf \<Rightarrow> bytes \<Rightarrow> nat \<Rightarrow> ratchet_secret_state" where
  "chain_state kdf secret n = \<lparr>rs_secret = chain_secret kdf secret n, rs_generation = of_nat n\<rparr>"

definition past_window :: "kdf \<Rightarrow> bytes \<Rightarrow> nat \<Rightarrow> nat \<Rightarrow> nat set \<Rightarrow> ratchet_key_material option list" where
  "past_window kdf secret n head used =
     map (\<lambda>i. let g = head - Suc i in if g \<in> used then None else Some (chain_key kdf secret g)) [0..<n]"

definition ratchet_rel :: "kdf \<Rightarrow> bytes \<Rightarrow> nat \<Rightarrow> nat \<Rightarrow> nat set \<Rightarrow> decryption_ratchet_state \<Rightarrow> bool" where
  "ratchet_rel kdf secret ooo head used y \<longleftrightarrow>
     dr_head y = chain_state kdf secret head \<and> head < 2 ^ 32 \<and> used \<subseteq> {..<head} \<and>
     dr_past_secrets y = past_window kdf secret (min head ooo) head used"

lemma length_past_window [simp]: "length (past_window kdf secret n head used) = n"
  by (simp add: past_window_def)

lemma hkdf_bytes_ok: "hkdf_ok kdf \<Longrightarrow> n \<le> 255 * 32 \<Longrightarrow> hkdf_bytes kdf label ikm n = Inr (the (kdf label ikm n))"
  unfolding hkdf_ok_def hkdf_bytes_def by (metis option.case(2) option.sel)

lemma ratchet_forward_chain:
  "hkdf_ok kdf \<Longrightarrow> ratchet_forward kdf (chain_state kdf secret n) =
     Inr (chain_state kdf secret (Suc n), of_nat n, chain_key kdf secret n)"
  by (simp add: ratchet_forward_def chain_state_def chain_key_def hkdf_bytes_ok MESSAGE_KEY_SIZE_def AEAD_NONCE_SIZE_def Let_def)

lemma encryption_keys_chain:
  "hkdf_ok kdf \<Longrightarrow> encryption_keys kdf n (chain_state kdf secret m) =
     Inr (map (\<lambda>i. (of_nat i, chain_key kdf secret i)) [m..<m + n])"
proof (induction n arbitrary: m)
  case (Suc n)
  then show ?case
    by (simp add: ratchet_forward_chain upt_conv_Cons del: upt_Suc)
qed simp

lemma skip_generations_chain:
  assumes "hkdf_ok kdf"
  shows "skip_generations kdf n \<lparr>dr_past_secrets = past, dr_head = chain_state kdf secret m\<rparr> =
    Inr \<lparr>dr_past_secrets = rev (map (\<lambda>g. Some (chain_key kdf secret g)) [m..<m + n]) @ past,
         dr_head = chain_state kdf secret (m + n)\<rparr>"
proof (induction n arbitrary: m past)
  case (Suc n)
  then show ?case
    using assms by (simp add: ratchet_forward_chain upt_conv_Cons del: upt_Suc)
qed simp

lemma past_window_forward:
  assumes "used \<subseteq> {..<head}" "head \<le> g"
  shows "take ooo (None # rev (map (\<lambda>g. Some (chain_key kdf secret g)) [head..<g]) @
      past_window kdf secret (min head ooo) head used) =
    past_window kdf secret (min (Suc g) ooo) (Suc g) (insert g used)"
proof (rule nth_equalityI)
  show "length (take ooo (None # rev (map (\<lambda>g. Some (chain_key kdf secret g)) [head..<g]) @
        past_window kdf secret (min head ooo) head used)) =
      length (past_window kdf secret (min (Suc g) ooo) (Suc g) (insert g used))"
    using assms(2) by (auto simp: past_window_def)
next
  fix i
  assume i: "i < length (take ooo (None # rev (map (\<lambda>g. Some (chain_key kdf secret g)) [head..<g]) @
      past_window kdf secret (min head ooo) head used))"
  then have len: "i < ooo" "i < Suc (g - head) + min head ooo"
    by (auto simp: past_window_def)
  consider "i = 0" | j where "i = Suc j" "j < g - head" | j where "i = Suc j" "g - head \<le> j"
    by (cases i) (auto simp: not_less[symmetric])
  then show "take ooo (None # rev (map (\<lambda>g. Some (chain_key kdf secret g)) [head..<g]) @
        past_window kdf secret (min head ooo) head used) ! i =
      past_window kdf secret (min (Suc g) ooo) (Suc g) (insert g used) ! i"
  proof cases
    case 1
    then show ?thesis
      using len by (simp add: past_window_def)
  next
    case 2
    then have "head + (g - head - Suc j) = g - i" "g - i \<notin> used" "g - i \<noteq> g"
      using assms by auto
    then show ?thesis
      using 2 len assms(2) by (simp add: past_window_def nth_append rev_nth)
  next
    case 3
    then have "head - Suc (j - (g - head)) = g - i" "g - i \<noteq> g" "j - (g - head) < min head ooo" "i < min (Suc g) ooo"
      using assms(2) len by auto
    then show ?thesis
      using 3 len by (simp add: past_window_def nth_append)
  qed
qed

lemma past_window_take:
  assumes "index < n" "n \<le> head"
  shows "(past_window kdf secret n head used)[index := None] = past_window kdf secret n head (insert (head - Suc index) used)"
proof (rule nth_equalityI)
  fix i
  assume "i < length ((past_window kdf secret n head used)[index := None])"
  then have "i < n" by (simp add: past_window_def)
  moreover have "head - Suc i = head - Suc index \<longleftrightarrow> i = index"
    using calculation assms by auto
  ultimately show "(past_window kdf secret n head used)[index := None] ! i =
      past_window kdf secret n head (insert (head - Suc index) used) ! i"
    by (cases "i = index") (simp_all add: past_window_def nth_list_update)
qed (simp add: past_window_def)

lemma future_secret_rel:
  assumes "hkdf_ok kdf" and rel: "ratchet_rel kdf secret (unat ooo) head used y"
    and "head \<le> unat gen" "gen < - 1"
  shows "\<exists>y'. future_secret kdf y gen ooo = Inr (y', chain_key kdf secret (unat gen)) \<and>
    ratchet_rel kdf secret (unat ooo) (Suc (unat gen)) (insert (unat gen) used) y'"
proof -
  have head: "dr_head y = chain_state kdf secret head" "head < 2 ^ 32"
    and past: "dr_past_secrets y = past_window kdf secret (min head (unat ooo)) head used" and used: "used \<subseteq> {..<head}"
    using rel by (auto simp: ratchet_rel_def)
  have y: "y = \<lparr>dr_past_secrets = dr_past_secrets y, dr_head = chain_state kdf secret head\<rparr>"
    using head(1) by simp
  have u: "unat (of_nat head :: u32) = head"
    using head(2) by (simp add: unat_of_nat)
  have "of_nat head \<le> gen"
    using assms(3) by (simp add: word_le_nat_alt u)
  then have skip: "unat (gen - rs_generation (dr_head y)) = unat gen - head"
    by (simp add: head(1) chain_state_def unat_sub u)
  have "unat gen < unat (- 1 :: u32)"
    using assms(4) by (simp add: word_less_nat_alt)
  then have max: "Suc (unat gen) < 2 ^ 32"
    by (simp add: unsigned_minus_1_eq_mask mask_eq_exp_minus_1)
  let ?y = "\<lparr>dr_past_secrets = past_window kdf secret (min (Suc (unat gen)) (unat ooo)) (Suc (unat gen)) (insert (unat gen) used),
      dr_head = chain_state kdf secret (Suc (unat gen))\<rparr>"
  have "future_secret kdf y gen ooo = Inr (?y, chain_key kdf secret (unat gen))"
    using assms(1,3) past_window_forward[OF used assms(3), of "unat ooo" kdf secret]
    unfolding future_secret_def skip by (subst y) (simp add: skip_generations_chain ratchet_forward_chain past)
  moreover have "ratchet_rel kdf secret (unat ooo) (Suc (unat gen)) (insert (unat gen) used) ?y"
    using used assms(3) max by (auto simp: ratchet_rel_def)
  ultimately show ?thesis by blast
qed

lemma past_secret_rel:
  assumes rel: "ratchet_rel kdf secret (unat ooo) head used y" and "unat ooo < 2 ^ 31"
    and g: "unat gen < head" "head - unat gen \<le> unat ooo"
  shows "if unat gen \<in> used then past_secret y gen = Inl SecretReuse
    else \<exists>y'. past_secret y gen = Inr (y', chain_key kdf secret (unat gen)) \<and>
           ratchet_rel kdf secret (unat ooo) head (insert (unat gen) used) y'"
proof -
  have head: "dr_head y = chain_state kdf secret head" "head < 2 ^ 32"
    and past: "dr_past_secrets y = past_window kdf secret (min head (unat ooo)) head used" and used: "used \<subseteq> {..<head}"
    using rel by (auto simp: ratchet_rel_def)
  define index where "index = head - Suc (unat gen)"
  have bk: "head - Suc index = unat gen" and idx: "index < min head (unat ooo)"
    using g by (auto simp: index_def)
  have w: "rs_generation (dr_head y) - gen - 1 = of_nat index"
    using g by (simp add: index_def head(1) chain_state_def of_nat_diff)
  have small: "index < 2 ^ 31"
    using idx assms(2) by simp
  then have i: "unat (of_nat index :: u32) = index"
    by (simp add: unat_of_nat)
  have "0 \<le> sint (of_nat index :: u32)"
    using small by (simp add: signed_of_nat signed_take_bit_int_eq_self)
  then have step: "past_secret y gen =
      (case past_window kdf secret (min head (unat ooo)) head used ! index of
         None \<Rightarrow> Inl SecretReuse
       | Some secrets \<Rightarrow> Inr (y\<lparr>dr_past_secrets := (past_window kdf secret (min head (unat ooo)) head used)[index := None]\<rparr>, secrets))"
    unfolding past_secret_def w Let_def past i using idx by simp
  have entry: "past_window kdf secret (min head (unat ooo)) head used ! index =
      (if unat gen \<in> used then None else Some (chain_key kdf secret (unat gen)))"
    using idx by (simp add: past_window_def bk Let_def)
  have "ratchet_rel kdf secret (unat ooo) head (insert (unat gen) used)
      (y\<lparr>dr_past_secrets := (past_window kdf secret (min head (unat ooo)) head used)[index := None]\<rparr>)"
    using head used g past_window_take[OF idx, of head] bk by (simp add: ratchet_rel_def)
  then show ?thesis
    unfolding step entry by simp
qed

subsection \<open>The ratchet refines a window of keys\<close>

lemma distance_guard:
  "head < 2 ^ 32 \<Longrightarrow>
   (of_nat head < (- 1 - fwd :: u32) \<and> of_nat head + fwd < gen) \<longleftrightarrow> head + unat fwd < unat gen"
proof -
  assume h: "head < 2 ^ 32"
  then have u: "unat (of_nat head :: u32) = head"
    by (simp add: unat_of_nat)
  have max: "unat (- 1 - fwd :: u32) = 2 ^ 32 - 1 - unat fwd"
    by (subst unat_sub) (simp_all add: unsigned_minus_1_eq_mask mask_eq_exp_minus_1)
  have g: "unat gen < 2 ^ 32"
    using unsigned_less[of gen] by simp
  show ?thesis
  proof (cases "head + unat fwd < 2 ^ 32 - 1")
    case True
    then have "unat (of_nat head + fwd :: u32) = head + unat fwd"
      by (simp add: unat_word_ariths unat_of_nat u)
    then show ?thesis
      using True by (auto simp: word_less_nat_alt max u)
  next
    case False
    then show ?thesis
      using g by (auto simp: word_less_nat_alt max u)
  qed
qed

lemma secret_for_decryption_rel:
  assumes "hkdf_ok kdf" "unat ooo < 2 ^ 31" "gen < - 1" and rel: "ratchet_rel kdf secret (unat ooo) head used y"
  shows "if head + unat fwd < unat gen then secret_for_decryption kdf y gen fwd ooo = Inl TooDistantInTheFuture
    else if unat ooo < head - unat gen then secret_for_decryption kdf y gen fwd ooo = Inl TooDistantInThePast
    else if unat gen \<in> used then secret_for_decryption kdf y gen fwd ooo = Inl SecretReuse
    else \<exists>y'. secret_for_decryption kdf y gen fwd ooo = Inr (y', chain_key kdf secret (unat gen)) \<and>
           ratchet_rel kdf secret (unat ooo) (max head (Suc (unat gen))) (insert (unat gen) used) y'"
proof -
  have gen: "rs_generation (dr_head y) = of_nat head" and head: "head < 2 ^ 32" and used: "used \<subseteq> {..<head}"
    using rel by (auto simp: ratchet_rel_def chain_state_def)
  have u: "unat (of_nat head :: u32) = head"
    using head by (simp add: unat_of_nat)
  have cmp: "gen < of_nat head \<longleftrightarrow> unat gen < head" "of_nat head \<le> gen \<longleftrightarrow> head \<le> unat gen"
    by (simp_all add: word_less_nat_alt word_le_nat_alt u)
  have past: "(gen < of_nat head \<and> ooo < of_nat head - gen) \<longleftrightarrow> unat ooo < head - unat gen"
    by (cases "unat gen < head") (auto simp: word_less_nat_alt cmp u unat_sub word_le_nat_alt)
  have step: "secret_for_decryption kdf y gen fwd ooo =
      (if head + unat fwd < unat gen then Inl TooDistantInTheFuture
       else if unat ooo < head - unat gen then Inl TooDistantInThePast
       else if head \<le> unat gen then future_secret kdf y gen ooo else past_secret y gen)"
    unfolding secret_for_decryption_def Let_def gen distance_guard[OF head] past cmp(2) ..
  show ?thesis
  proof (cases "head \<le> unat gen")
    case True
    then have "unat gen \<notin> used" "max head (Suc (unat gen)) = Suc (unat gen)"
      using used by auto
    then show ?thesis
      using future_secret_rel[OF assms(1) rel True assms(3)] True by (simp add: step)
  next
    case False
    then have "max head (Suc (unat gen)) = head" by simp
    then show ?thesis
      using past_secret_rel[OF rel assms(2), of gen] False by (simp add: step)
  qed
qed

lemma decryption_keys_window:
  assumes "hkdf_ok kdf" "unat ooo < 2 ^ 31" "ratchet_rel kdf secret (unat ooo) head used y" "\<forall>gen \<in> set gens. gen < - 1"
  shows "decryption_keys kdf fwd ooo gens y = window_keys (chain_key kdf secret) (unat fwd) (unat ooo) (map unat gens) head used"
  using assms(3,4)
proof (induction gens arbitrary: head used y)
  case (Cons gen gens)
  show ?case
    using secret_for_decryption_rel[OF assms(1,2) _ Cons.prems(1), of gen fwd] Cons
    by (auto split: if_splits)
qed simp

text \<open>
  C11. The message ratchet hands out every key once, in any order within its window. Let the sender derive
  the keys of generations 0, 1, 2, ... by ratcheting forward. Whatever sequence of generations the receiver
  asks for, it gets exactly the key of the sender for the generation, or an error: when the generation is more
  than the maximum distance ahead of the next expected one, when it is further behind than the tolerance, or
  when its key was handed out before. No key is handed out twice and no key of the window is lost. The tolerance
  is below 2 to the 31 (the index into the window is a signed word) and the last generation, after which the counter
  wraps, is not requested.
\<close>
theorem ratchet_delivers_keys_once:
  assumes "hkdf_ok kdf" "ooo < 2 ^ 31" "\<forall>gen \<in> set gens. gen < - 1"
  shows "\<exists>key_of.
    (\<forall>n. encryption_keys kdf n (ratchet_secret_init secret) = Inr (map (\<lambda>i. (of_nat i, key_of i)) [0..<n])) \<and>
    decryption_keys kdf fwd ooo gens (decryption_ratchet_init secret) =
      window_keys key_of (unat fwd) (unat ooo) (map unat gens) 0 {}"
proof (intro exI[of _ "chain_key kdf secret"] conjI allI)
  have init: "ratchet_secret_init secret = chain_state kdf secret 0"
    by (simp add: ratchet_secret_init_def chain_state_def)
  show "encryption_keys kdf n (ratchet_secret_init secret) = Inr (map (\<lambda>i. (of_nat i, chain_key kdf secret i)) [0..<n])" for n
    unfolding init using encryption_keys_chain[OF assms(1), of n secret 0] by simp
  have "ratchet_rel kdf secret (unat ooo) 0 {} (decryption_ratchet_init secret)"
    by (simp add: ratchet_rel_def decryption_ratchet_init_def init past_window_def)
  moreover have "unat ooo < 2 ^ 31"
    using assms(2) by (simp add: word_less_nat_alt)
  ultimately show "decryption_keys kdf fwd ooo gens (decryption_ratchet_init secret) =
      window_keys (chain_key kdf secret) (unat fwd) (unat ooo) (map unat gens) 0 {}"
    using assms by (intro decryption_keys_window) auto
qed

definition example_kdf :: kdf where
  "example_kdf label ikm n = Some (take n (map (\<lambda>c. of_nat (of_char c)) label @ ikm @ replicate n 0))"

theorem ratchet_delivers_keys_once_witness:
  "\<exists>key_of. encryption_keys example_kdf 5 (ratchet_secret_init (replicate 32 7)) =
       Inr (map (\<lambda>i. (of_nat i, key_of i)) [0..<5]) \<and>
     decryption_keys example_kdf 10 2 [2, 1, 1, 4, 2, 1, 99] (decryption_ratchet_init (replicate 32 7)) =
       [Inr (key_of 2), Inr (key_of 1), Inl SecretReuse, Inr (key_of 4), Inl TooDistantInThePast,
        Inl TooDistantInThePast, Inl TooDistantInTheFuture]"
proof -
  have "hkdf_ok example_kdf"
    by (auto simp: hkdf_ok_def example_kdf_def min_def)
  moreover have "\<forall>gen \<in> set [2, 1, 1, 4, 2, 1, 99 :: u32]. gen < - 1" "(2 :: u32) < 2 ^ 31"
    by (simp_all add: word_less_nat_alt unsigned_minus_1_eq_mask mask_eq_exp_minus_1)
  ultimately obtain key_of where
    "\<forall>n. encryption_keys example_kdf n (ratchet_secret_init (replicate 32 7)) = Inr (map (\<lambda>i. (of_nat i, key_of i)) [0..<n])"
    and d: "decryption_keys example_kdf 10 2 [2, 1, 1, 4, 2, 1, 99] (decryption_ratchet_init (replicate 32 7)) =
      window_keys key_of (unat (10 :: u32)) (unat (2 :: u32)) (map unat [2, 1, 1, 4, 2, 1, 99 :: u32]) 0 {}"
    using ratchet_delivers_keys_once by blast
  then show ?thesis
    unfolding d by (intro exI[of _ key_of]) simp
qed

end
