(* ===== verification/Encryption_Keys.thy ===== *)
theory Encryption_Keys
  imports Prelude
begin

section \<open>Pre-keys, key bundles, key manager and key registry\<close>

text \<open>
  \<open>p2panda-encryption/src/key_bundle\<close>, \<open>key_manager.rs\<close> and \<open>key_registry.rs\<close>. The Curve25519 functions
  are fields of \<open>curve_api\<close>: the clamping of secret keys, the public key of a secret, the agreement, and
  the XEdDSA signature and its check; \<open>curve_ok\<close> states their documented laws. The current time and random
  bytes are arguments. The two kinds of key bundles of the code are one record, in which a long-term
  bundle has no one-time pre-key. Additions of times wrap. A failing assertion is \<open>None\<close>.
\<close>

record curve_api =
  cv_clamp :: "bytes \<Rightarrow> bytes"
  cv_public :: "bytes \<Rightarrow> bytes"
  cv_agree :: "bytes \<Rightarrow> bytes \<Rightarrow> bytes"
  cv_sign :: "bytes \<Rightarrow> bytes \<Rightarrow> bytes \<Rightarrow> bytes"
  cv_verify :: "bytes \<Rightarrow> bytes \<Rightarrow> bytes \<Rightarrow> bool"

definition curve_ok :: "curve_api \<Rightarrow> bool" where
  "curve_ok V \<longleftrightarrow>
     (\<forall>a b. cv_agree V a (cv_public V b) = cv_agree V b (cv_public V a)) \<and>
     (\<forall>bs sk rnd. cv_verify V bs (cv_public V sk) (cv_sign V bs sk rnd))"

subsection \<open>Lifetimes\<close>

definition DEFAULT_LIFETIME :: u64 where
  "DEFAULT_LIFETIME = 60 * 60 * 24 * 28 * 3"

definition DEFAULT_LIFETIME_MARGIN :: u64 where
  "DEFAULT_LIFETIME_MARGIN = 60 * 60"

record lifetime =
  lt_not_before :: u64
  lt_not_after :: u64

definition lifetime_new :: "u64 \<Rightarrow> u64 \<Rightarrow> lifetime" where
  "lifetime_new now t = \<lparr>lt_not_before = now - DEFAULT_LIFETIME_MARGIN, lt_not_after = now + t\<rparr>"

definition lifetime_default :: "u64 \<Rightarrow> lifetime" where
  "lifetime_default now = lifetime_new now DEFAULT_LIFETIME"

definition lifetime_verify :: "u64 \<Rightarrow> lifetime \<Rightarrow> bool" where
  "lifetime_verify now l \<longleftrightarrow> lt_not_before l < now \<and> now < lt_not_after l"

definition lifetime_verify_with_window :: "u64 \<Rightarrow> u64 \<Rightarrow> lifetime \<Rightarrow> bool" where
  "lifetime_verify_with_window now window l \<longleftrightarrow>
     (let elapsed = now + window in lt_not_before l < elapsed \<and> elapsed < lt_not_after l)"

definition lifetime_less :: "lifetime \<Rightarrow> lifetime \<Rightarrow> bool" where
  "lifetime_less l l' \<longleftrightarrow> lt_not_after l < lt_not_after l'"

subsection \<open>Pre-keys and key bundles\<close>

record pre_key =
  pk_key :: bytes
  pk_lifetime :: lifetime

record onetime_pre_key =
  ok_key :: bytes
  ok_id :: u64

definition latest_by :: "('x \<Rightarrow> lifetime) \<Rightarrow> u64 \<Rightarrow> 'x list \<Rightarrow> 'x option" where
  "latest_by life now xs =
     fold (\<lambda>x latest.
        if \<not> lifetime_verify now (life x) then latest
        else (case latest of
                Some current \<Rightarrow> if lifetime_less (life current) (life x) then Some x else latest
              | None \<Rightarrow> Some x)) xs None"

definition latest_prekey :: "u64 \<Rightarrow> pre_key list \<Rightarrow> pre_key option" where
  "latest_prekey now prekeys = latest_by pk_lifetime now prekeys"

record key_bundle =
  kb_identity_key :: bytes
  kb_signed_prekey :: pre_key
  kb_prekey_signature :: bytes
  kb_onetime_prekey :: "onetime_pre_key option"

definition onetime_key_bundle :: "bytes \<Rightarrow> pre_key \<Rightarrow> bytes \<Rightarrow> onetime_pre_key option \<Rightarrow> key_bundle" where
  "onetime_key_bundle identity_key signed_prekey prekey_signature onetime_prekey =
     \<lparr>kb_identity_key = identity_key, kb_signed_prekey = signed_prekey, kb_prekey_signature = prekey_signature,
      kb_onetime_prekey = onetime_prekey\<rparr>"

definition longterm_key_bundle :: "bytes \<Rightarrow> pre_key \<Rightarrow> bytes \<Rightarrow> key_bundle" where
  "longterm_key_bundle identity_key signed_prekey prekey_signature =
     \<lparr>kb_identity_key = identity_key, kb_signed_prekey = signed_prekey, kb_prekey_signature = prekey_signature,
      kb_onetime_prekey = None\<rparr>"

datatype key_bundle_error = XEdDSA | LifetimeError | KeyBundlesNotFound

definition key_bundle_verify :: "curve_api \<Rightarrow> u64 \<Rightarrow> key_bundle \<Rightarrow> key_bundle_error + unit" where
  "key_bundle_verify V now b =
     (if \<not> lifetime_verify now (pk_lifetime (kb_signed_prekey b)) then Inl LifetimeError
      else if \<not> cv_verify V (pk_key (kb_signed_prekey b)) (kb_identity_key b) (kb_prekey_signature b) then Inl XEdDSA
      else Inr ())"

definition latest_key_bundle :: "u64 \<Rightarrow> key_bundle list \<Rightarrow> key_bundle option" where
  "latest_key_bundle now bundles = latest_by (\<lambda>b. pk_lifetime (kb_signed_prekey b)) now bundles"

subsection \<open>The key manager\<close>

record pre_key_bundle =
  pb_prekey :: pre_key
  pb_signature :: bytes
  pb_secret :: bytes

definition pre_key_bundle_new :: "curve_api \<Rightarrow> bytes \<Rightarrow> lifetime \<Rightarrow> bytes \<Rightarrow> bytes \<Rightarrow> pre_key_bundle" where
  "pre_key_bundle_new V identity_secret life random_secret random_sign =
     (let secret = cv_clamp V random_secret;
          prekey = \<lparr>pk_key = cv_public V secret, pk_lifetime = life\<rparr>
      in \<lparr>pb_prekey = prekey, pb_signature = cv_sign V (pk_key prekey) identity_secret random_sign, pb_secret = secret\<rparr>)"

type_synonym pre_key_bundles = "(bytes, pre_key_bundle) amap"

definition bundles_latest :: "u64 \<Rightarrow> pre_key_bundles \<Rightarrow> pre_key_bundle option option" where
  "bundles_latest now bundles =
     (case latest_prekey now (map (pb_prekey \<circ> snd) bundles) of
        None \<Rightarrow> Some None
      | Some prekey \<Rightarrow> (case map_of bundles (pk_key prekey) of None \<Rightarrow> None | Some b \<Rightarrow> Some (Some b)))"

definition bundles_insert :: "pre_key_bundle \<Rightarrow> pre_key_bundles \<Rightarrow> pre_key_bundles" where
  "bundles_insert b bundles = amap_insert (pk_key (pb_prekey b)) b bundles"

definition bundles_remove_expired :: "u64 \<Rightarrow> pre_key_bundles \<Rightarrow> pre_key_bundles" where
  "bundles_remove_expired now bundles = filter (\<lambda>(_, b). lifetime_verify now (pk_lifetime (pb_prekey b))) bundles"

record key_manager =
  km_identity_secret :: bytes
  km_identity_key :: bytes
  km_prekeys :: pre_key_bundles
  km_onetime_secrets :: "(u64, bytes \<times> bytes) amap"
  km_onetime_next_id :: u64

datatype key_manager_error = UnknownOneTimeSecret u64 | UnknownPreKeySecret bytes | NoPreKeysAvailable

definition km_init_from_prekey_bundles :: "curve_api \<Rightarrow> bytes \<Rightarrow> pre_key_bundles \<Rightarrow> key_manager" where
  "km_init_from_prekey_bundles V identity_secret prekeys =
     \<lparr>km_identity_secret = identity_secret, km_identity_key = cv_public V identity_secret, km_prekeys = prekeys,
      km_onetime_secrets = [], km_onetime_next_id = 0\<rparr>"

definition km_init :: "curve_api \<Rightarrow> bytes \<Rightarrow> key_manager" where
  "km_init V identity_secret = km_init_from_prekey_bundles V identity_secret []"

definition km_remove_expired :: "u64 \<Rightarrow> key_manager \<Rightarrow> key_manager" where
  "km_remove_expired now y =
     (let prekeys = bundles_remove_expired now (km_prekeys y)
      in y\<lparr>km_prekeys := prekeys,
           km_onetime_secrets := filter (\<lambda>(_, prekey_id, _). map_of prekeys prekey_id \<noteq> None) (km_onetime_secrets y)\<rparr>)"

definition prekey_secret :: "key_manager \<Rightarrow> bytes \<Rightarrow> key_manager_error + bytes" where
  "prekey_secret y i =
     (case map_of (km_prekeys y) i of None \<Rightarrow> Inl (UnknownPreKeySecret i) | Some b \<Rightarrow> Inr (pb_secret b))"

definition rotate_prekey :: "curve_api \<Rightarrow> key_manager \<Rightarrow> lifetime \<Rightarrow> bytes \<Rightarrow> bytes \<Rightarrow> key_manager" where
  "rotate_prekey V y life random_secret random_sign =
     y\<lparr>km_prekeys := bundles_insert (pre_key_bundle_new V (km_identity_secret y) life random_secret random_sign) (km_prekeys y)\<rparr>"

definition prekey_bundle :: "u64 \<Rightarrow> key_manager \<Rightarrow> (key_manager_error + key_bundle) option" where
  "prekey_bundle now y =
     (case bundles_latest now (km_prekeys y) of
        None \<Rightarrow> None
      | Some None \<Rightarrow> Some (Inl NoPreKeysAvailable)
      | Some (Some latest) \<Rightarrow>
          Some (Inr (longterm_key_bundle (km_identity_key y) (pb_prekey latest) (pb_signature latest))))"

definition generate_onetime_bundle ::
  "curve_api \<Rightarrow> u64 \<Rightarrow> key_manager \<Rightarrow> bytes \<Rightarrow> (key_manager_error + key_manager \<times> key_bundle) option" where
  "generate_onetime_bundle V now y random_secret =
     (case bundles_latest now (km_prekeys y) of
        None \<Rightarrow> None
      | Some None \<Rightarrow> Some (Inl NoPreKeysAvailable)
      | Some (Some latest) \<Rightarrow>
          (let secret = cv_clamp V random_secret;
               onetime_key = \<lparr>ok_key = cv_public V secret, ok_id = km_onetime_next_id y\<rparr>;
               bundle = onetime_key_bundle (km_identity_key y) (pb_prekey latest) (pb_signature latest) (Some onetime_key)
           in if map_of (km_onetime_secrets y) (ok_id onetime_key) \<noteq> None then None
              else Some (Inr (y\<lparr>km_onetime_secrets :=
                                  amap_insert (ok_id onetime_key) (pk_key (pb_prekey latest), secret) (km_onetime_secrets y),
                                km_onetime_next_id := km_onetime_next_id y + 1\<rparr>, bundle))))"

definition use_onetime_secret :: "key_manager \<Rightarrow> u64 \<Rightarrow> key_manager_error + key_manager \<times> bytes option" where
  "use_onetime_secret y i =
     (case map_of (km_onetime_secrets y) i of
        Some (_, secret) \<Rightarrow> Inr (y\<lparr>km_onetime_secrets := amap_remove i (km_onetime_secrets y)\<rparr>, Some secret)
      | None \<Rightarrow> Inl (UnknownOneTimeSecret i))"

subsection \<open>The key registry\<close>

record 'id key_registry =
  kr_identities :: "('id, bytes) amap"
  kr_onetime_bundles :: "('id, key_bundle list) amap"
  kr_longterm_bundles :: "('id, key_bundle list) amap"

datatype key_registry_error = KeyBundleError key_bundle_error | KeyBundlesExpired

definition kr_init :: "'id key_registry" where
  "kr_init = \<lparr>kr_identities = [], kr_onetime_bundles = [], kr_longterm_bundles = []\<rparr>"

definition kr_remove_expired :: "curve_api \<Rightarrow> u64 \<Rightarrow> 'id key_registry \<Rightarrow> 'id key_registry" where
  "kr_remove_expired V now y =
     (let keep = map (\<lambda>(i, bundles). (i, filter (\<lambda>b. key_bundle_verify V now b = Inr ()) bundles))
      in y\<lparr>kr_longterm_bundles := keep (kr_longterm_bundles y), kr_onetime_bundles := keep (kr_onetime_bundles y)\<rparr>)"

definition register_identity :: "'id \<Rightarrow> bytes \<Rightarrow> 'id key_registry \<Rightarrow> 'id key_registry option" where
  "register_identity i identity_key y =
     (case map_of (kr_identities y) i of
        Some existing \<Rightarrow> if existing = identity_key then Some y else None
      | None \<Rightarrow> Some (y\<lparr>kr_identities := amap_insert i identity_key (kr_identities y)\<rparr>))"

definition add_longterm_bundle ::
  "curve_api \<Rightarrow> u64 \<Rightarrow> 'id key_registry \<Rightarrow> 'id \<Rightarrow> key_bundle \<Rightarrow> (key_registry_error + 'id key_registry) option" where
  "add_longterm_bundle V now y i b =
     (case key_bundle_verify V now b of
        Inl e \<Rightarrow> Some (Inl (KeyBundleError e))
      | Inr _ \<Rightarrow>
          (case register_identity i (kb_identity_key b) y of
             None \<Rightarrow> None
           | Some y \<Rightarrow>
               Some (Inr (y\<lparr>kr_longterm_bundles :=
                  amap_insert i (amap_get (kr_longterm_bundles y) i @ [b]) (kr_longterm_bundles y)\<rparr>))))"

definition add_onetime_bundle ::
  "curve_api \<Rightarrow> u64 \<Rightarrow> 'id key_registry \<Rightarrow> 'id \<Rightarrow> key_bundle \<Rightarrow> (key_registry_error + 'id key_registry) option" where
  "add_onetime_bundle V now y i b =
     (case key_bundle_verify V now b of
        Inl e \<Rightarrow> Some (Inl (KeyBundleError e))
      | Inr _ \<Rightarrow>
          (case register_identity i (kb_identity_key b) y of
             None \<Rightarrow> None
           | Some y \<Rightarrow>
               Some (Inr (y\<lparr>kr_onetime_bundles :=
                  amap_insert i (amap_get (kr_onetime_bundles y) i @ [b]) (kr_onetime_bundles y)\<rparr>))))"

definition onetime_bundle_of :: "'id key_registry \<Rightarrow> 'id \<Rightarrow> 'id key_registry \<times> key_bundle option" where
  "onetime_bundle_of y i =
     (case map_of (kr_onetime_bundles y) i of
        None \<Rightarrow> (y, None)
      | Some bundles \<Rightarrow>
          if bundles = [] then (y, None)
          else (y\<lparr>kr_onetime_bundles := amap_insert i (butlast bundles) (kr_onetime_bundles y)\<rparr>, Some (last bundles)))"

definition longterm_bundle_of :: "u64 \<Rightarrow> 'id key_registry \<Rightarrow> 'id \<Rightarrow> key_registry_error + 'id key_registry \<times> key_bundle option" where
  "longterm_bundle_of now y i =
     (case map_of (kr_longterm_bundles y) i of
        None \<Rightarrow> Inr (y, None)
      | Some bundles \<Rightarrow>
          (let valid_bundle = latest_key_bundle now bundles
           in if bundles \<noteq> [] \<and> valid_bundle = None then Inl KeyBundlesExpired else Inr (y, valid_bundle)))"

definition identity_key_of :: "'id key_registry \<Rightarrow> 'id \<Rightarrow> bytes option" where
  "identity_key_of y i = map_of (kr_identities y) i"

subsection \<open>Key indices\<close>

lemma u64_succ: "x \<noteq> - 1 \<Longrightarrow> unat (x + 1) = Suc (unat x)" for x :: u64
  by (metis add.commute eq_neg_iff_add_eq_0 unatSuc)

lemma u64_less_succ': "x \<noteq> - 1 \<Longrightarrow> x < x + 1" for x :: u64
  by (simp add: word_less_nat_alt u64_succ)

lemma u64_succ_le: "x \<noteq> - 1 \<Longrightarrow> x + 1 \<le> y \<longleftrightarrow> x < y" for x :: u64
  by (simp add: word_less_nat_alt word_le_nat_alt u64_succ Suc_le_eq)

lemma map_of_filter_key: "map_of (filter (\<lambda>(i, _). Q i) m) k = (if Q k then map_of m k else None)"
  by (induction m) auto

subsection \<open>Published bundles can be used\<close>

text \<open>
  The owner of a key bundle holds the secrets of every key in it.
\<close>

definition bundle_matches :: "curve_api \<Rightarrow> key_manager \<Rightarrow> key_bundle \<Rightarrow> bool" where
  "bundle_matches V y b \<longleftrightarrow>
     kb_identity_key b = cv_public V (km_identity_secret y) \<and>
     (\<exists>secret. prekey_secret y (pk_key (kb_signed_prekey b)) = Inr secret \<and> pk_key (kb_signed_prekey b) = cv_public V secret) \<and>
     (\<forall>k. kb_onetime_prekey b = Some k \<longrightarrow>
        (\<exists>prekey_id secret. map_of (km_onetime_secrets y) (ok_id k) = Some (prekey_id, secret) \<and> ok_key k = cv_public V secret))"

inductive km_step :: "curve_api \<Rightarrow> key_manager \<Rightarrow> key_manager \<Rightarrow> bool" for V where
  rotate: "km_step V y (rotate_prekey V y life random_secret random_sign)"
| expire: "km_step V y (km_remove_expired now y)"
| onetime: "generate_onetime_bundle V now y random_secret = Some (Inr (y', b)) \<Longrightarrow> km_step V y y'"
| use: "use_onetime_secret y i = Inr (y', secret) \<Longrightarrow> km_step V y y'"

definition prekey_wf :: "curve_api \<Rightarrow> bytes \<Rightarrow> bytes \<Rightarrow> pre_key_bundle \<Rightarrow> bool" where
  "prekey_wf V identity_key k b \<longleftrightarrow>
     k = pk_key (pb_prekey b) \<and> pk_key (pb_prekey b) = cv_public V (pb_secret b) \<and>
     cv_verify V (pk_key (pb_prekey b)) identity_key (pb_signature b)"

definition km_wf :: "curve_api \<Rightarrow> nat \<Rightarrow> key_manager \<Rightarrow> bool" where
  "km_wf V n y \<longleftrightarrow>
     km_identity_key y = cv_public V (km_identity_secret y) \<and> amap_wf (km_prekeys y) \<and>
     (\<forall>k b. map_of (km_prekeys y) k = Some b \<longrightarrow> prekey_wf V (km_identity_key y) k b) \<and>
     (\<forall>i. map_of (km_onetime_secrets y) i \<noteq> None \<longrightarrow> i < km_onetime_next_id y) \<and>
     amap_wf (km_onetime_secrets y) \<and> unat (km_onetime_next_id y) \<le> n"

lemma km_wf_init: "km_wf V 0 (km_init V identity_secret)"
  by (simp add: km_wf_def km_init_def km_init_from_prekey_bundles_def)

lemma map_of_filter_SomeD: "amap_wf m \<Longrightarrow> map_of (filter Q m) k = Some v \<Longrightarrow> map_of m k = Some v \<and> Q (k, v)"
  by (auto simp flip: amap_mem_iff)

lemma km_wf_rotate:
  assumes "curve_ok V" "km_wf V n y"
  shows "km_wf V (Suc n) (rotate_prekey V y life random_secret random_sign)"
proof -
  have "prekey_wf V (km_identity_key y) (pk_key (pb_prekey b)) b"
    if "b = pre_key_bundle_new V (km_identity_secret y) life random_secret random_sign" for b
    using assms by (simp add: that prekey_wf_def pre_key_bundle_new_def Let_def km_wf_def curve_ok_def)
  with assms(2) show ?thesis
    by (auto simp: km_wf_def rotate_prekey_def bundles_insert_def)
qed

lemma km_wf_remove_expired:
  assumes "km_wf V n y"
  shows "km_wf V (Suc n) (km_remove_expired now y)"
  using assms
  by (auto simp: km_wf_def km_remove_expired_def bundles_remove_expired_def Let_def dest: map_of_filter_SomeD)

lemma km_wf_use_onetime:
  assumes "km_wf V n y" "use_onetime_secret y i = Inr (y', secret)"
  shows "km_wf V (Suc n) y'"
  using assms by (auto simp: km_wf_def use_onetime_secret_def split: option.splits if_splits)

lemma km_wf_generate_onetime:
  assumes wf: "km_wf V n y" and n: "n < 2 ^ 64 - 1"
    and gen: "generate_onetime_bundle V now y random_secret = Some (Inr (y', b))"
  shows "km_wf V (Suc n) y'"
proof -
  have bound: "km_onetime_next_id y \<noteq> - 1"
    using wf n by (auto simp: km_wf_def unsigned_minus_1_eq_mask mask_eq_exp_minus_1)
  obtain entry where y': "y' = y\<lparr>km_onetime_secrets := amap_insert (km_onetime_next_id y) entry (km_onetime_secrets y),
      km_onetime_next_id := km_onetime_next_id y + 1\<rparr>"
    using gen by (auto simp: generate_onetime_bundle_def Let_def split: option.splits if_splits)
  moreover have "i < km_onetime_next_id y \<Longrightarrow> i < km_onetime_next_id y + 1" for i
    using u64_less_succ'[OF bound] by (rule less_trans[rotated])
  ultimately show ?thesis
    using wf u64_succ[OF bound] u64_less_succ'[OF bound] by (auto simp: km_wf_def)
qed

lemma km_wf_step:
  assumes "km_step V y y'" "curve_ok V" "km_wf V n y" "n < 2 ^ 64 - 1"
  shows "km_wf V (Suc n) y'"
  using assms(1)
  by cases (use assms in \<open>auto intro: km_wf_rotate km_wf_remove_expired km_wf_use_onetime km_wf_generate_onetime\<close>)

lemma km_wf_steps:
  assumes "curve_ok V" "(km_step V ^^ n) (km_init V identity_secret) y" "n < 2 ^ 64"
  shows "km_wf V n y"
  using assms(2,3)
proof (induction n arbitrary: y)
  case 0
  then show ?case
    using km_wf_init by auto
next
  case (Suc n)
  then obtain z where z: "(km_step V ^^ n) (km_init V identity_secret) z" "km_step V z y"
    by auto
  have "km_wf V n z"
    using Suc.prems(2) by (intro Suc.IH[OF z(1)]) simp
  with Suc.prems(2) show ?case
    by (intro km_wf_step[OF z(2) assms(1)]) auto
qed

lemma latest_by_Some: "latest_by life now xs = Some x \<Longrightarrow> x \<in> set xs \<and> lifetime_verify now (life x)"
proof (induction xs arbitrary: x rule: rev_induct)
  case Nil
  then show ?case
    by (simp add: latest_by_def)
next
  case (snoc z xs)
  then show ?case
    by (auto simp: latest_by_def split: if_splits option.splits)
qed

lemma latest_by_None: "latest_by life now xs = None \<longleftrightarrow> list_all (\<lambda>x. \<not> lifetime_verify now (life x)) xs"
  by (induction xs rule: rev_induct) (auto simp: latest_by_def split: option.splits)

lemma bundles_latest_cases:
  assumes wf: "km_wf V n y"
  obtains b where "bundles_latest now (km_prekeys y) = Some (Some b)" "prekey_wf V (km_identity_key y) (pk_key (pb_prekey b)) b"
      "lifetime_verify now (pk_lifetime (pb_prekey b))" "map_of (km_prekeys y) (pk_key (pb_prekey b)) = Some b"
  | "bundles_latest now (km_prekeys y) = Some None"
      "list_all (\<lambda>(_, b). \<not> lifetime_verify now (pk_lifetime (pb_prekey b))) (km_prekeys y)"
proof (cases "latest_prekey now (map (pb_prekey \<circ> snd) (km_prekeys y))")
  case None
  then have "list_all (\<lambda>(_, b). \<not> lifetime_verify now (pk_lifetime (pb_prekey b))) (km_prekeys y)"
    by (auto simp: latest_prekey_def latest_by_None list_all_iff)
  with None show ?thesis
    by (intro that(2)) (simp_all add: bundles_latest_def)
next
  case (Some prekey)
  then obtain k b where b: "(k, b) \<in> set (km_prekeys y)" "pb_prekey b = prekey" "lifetime_verify now (pk_lifetime prekey)"
    by (auto simp: latest_prekey_def dest!: latest_by_Some)
  then have "map_of (km_prekeys y) k = Some b" "prekey_wf V (km_identity_key y) k b"
    using wf by (auto simp: km_wf_def amap_mem_iff)
  with b Some show ?thesis
    by (intro that(1)[of b]) (auto simp: bundles_latest_def prekey_wf_def)
qed

lemma prekey_wf_matches:
  assumes "prekey_wf V (km_identity_key y) (pk_key (pb_prekey b)) b" "map_of (km_prekeys y) (pk_key (pb_prekey b)) = Some b"
    and "km_identity_key y = cv_public V (km_identity_secret y)"
  shows "bundle_matches V y (longterm_key_bundle (km_identity_key y) (pb_prekey b) (pb_signature b))"
    and "map_of (km_onetime_secrets y) (ok_id k) = Some (i, secret) \<Longrightarrow> ok_key k = cv_public V secret \<Longrightarrow>
      bundle_matches V y (onetime_key_bundle (km_identity_key y) (pb_prekey b) (pb_signature b) (Some k))"
  using assms by (auto simp: bundle_matches_def longterm_key_bundle_def onetime_key_bundle_def prekey_secret_def prekey_wf_def)

lemma prekey_wf_verifies:
  assumes "prekey_wf V identity_key (pk_key (pb_prekey b)) b" "lifetime_verify now (pk_lifetime (pb_prekey b))"
  shows "key_bundle_verify V now (longterm_key_bundle identity_key (pb_prekey b) (pb_signature b)) = Inr ()"
    and "key_bundle_verify V now (onetime_key_bundle identity_key (pb_prekey b) (pb_signature b) k) = Inr ()"
  using assms by (auto simp: key_bundle_verify_def prekey_wf_def longterm_key_bundle_def onetime_key_bundle_def)

text \<open>
  C21: a key manager that starts empty and goes through fewer than \<open>2 ^ 64\<close> rotations, expiries, generations and uses of
  one-time secrets never hits one of its assertions. It refuses to publish a bundle exactly when each of its
  pre-keys is outside its lifetime. Otherwise the long-term and the one-time bundle it publishes are
  accepted by the receiver's verification at that time, and the manager holds the secrets of all keys in them.
\<close>

theorem published_bundles_usable:
  assumes "curve_ok V" and "(km_step V ^^ n) (km_init V identity_secret) y" and "n < 2 ^ 64"
  shows "if list_all (\<lambda>(_, b). \<not> lifetime_verify now (pk_lifetime (pb_prekey b))) (km_prekeys y)
    then prekey_bundle now y = Some (Inl NoPreKeysAvailable) \<and>
      generate_onetime_bundle V now y rnd = Some (Inl NoPreKeysAvailable)
    else (\<exists>b. prekey_bundle now y = Some (Inr b) \<and> key_bundle_verify V now b = Inr () \<and> bundle_matches V y b) \<and>
      (\<exists>y' b. generate_onetime_bundle V now y rnd = Some (Inr (y', b)) \<and> kb_onetime_prekey b \<noteq> None \<and>
         key_bundle_verify V now b = Inr () \<and> bundle_matches V y' b)"
proof -
  have wf: "km_wf V n y"
    using assms by (rule km_wf_steps)
  then have next_id: "map_of (km_onetime_secrets y) (km_onetime_next_id y) = None"
    and identity: "km_identity_key y = cv_public V (km_identity_secret y)"
    using less_irrefl unfolding km_wf_def by blast+
  from wf show ?thesis
  proof (cases rule: bundles_latest_cases[where now = now])
    case (1 b)
    let ?secret = "cv_clamp V rnd"
    let ?k = "\<lparr>ok_key = cv_public V ?secret, ok_id = km_onetime_next_id y\<rparr>"
    let ?y = "y\<lparr>km_onetime_secrets := amap_insert (km_onetime_next_id y) (pk_key (pb_prekey b), ?secret) (km_onetime_secrets y),
        km_onetime_next_id := km_onetime_next_id y + 1\<rparr>"
    have "bundle_matches V ?y (onetime_key_bundle (km_identity_key ?y) (pb_prekey b) (pb_signature b) (Some ?k))"
      using 1 identity by (intro prekey_wf_matches(2)) simp_all
    moreover have "generate_onetime_bundle V now y rnd =
        Some (Inr (?y, onetime_key_bundle (km_identity_key y) (pb_prekey b) (pb_signature b) (Some ?k)))"
      using 1 next_id by (simp add: generate_onetime_bundle_def Let_def)
    moreover have "kb_onetime_prekey (onetime_key_bundle (km_identity_key y) (pb_prekey b) (pb_signature b) (Some ?k)) \<noteq> None"
      by (simp add: onetime_key_bundle_def)
    moreover have "prekey_bundle now y = Some (Inr (longterm_key_bundle (km_identity_key y) (pb_prekey b) (pb_signature b)))"
      using 1 by (simp add: prekey_bundle_def)
    moreover have "(pk_key (pb_prekey b), b) \<in> set (km_prekeys y)"
      using 1 by (simp add: map_of_SomeD)
    ultimately show ?thesis
      using 1(3) prekey_wf_verifies[OF 1(2,3)] prekey_wf_matches(1)[OF 1(2,4) identity] by (auto simp: list_all_iff)
  next
    case 2
    then show ?thesis
      by (simp add: prekey_bundle_def generate_onetime_bundle_def)
  qed
qed

definition sum_curve :: curve_api where
  "sum_curve =
     \<lparr>cv_clamp = (\<lambda>rnd. rnd), cv_public = (\<lambda>sk. sk), cv_agree = map2 (+), cv_sign = (\<lambda>bs sk rnd. bs @ sk),
      cv_verify = (\<lambda>bs pk signature. signature = bs @ pk)\<rparr>"

lemma sum_curve_ok: "curve_ok sum_curve"
proof -
  have "map2 (+) xs ys = map2 (+) ys xs" for xs ys :: bytes
    by (induction xs ys rule: list_induct2') (simp_all add: add.commute)
  then show ?thesis
    by (simp add: curve_ok_def sum_curve_def)
qed

definition example_manager :: key_manager where
  "example_manager = rotate_prekey sum_curve (km_init sum_curve [1]) \<lparr>lt_not_before = 10, lt_not_after = 20\<rparr> [2] []"

theorem published_bundles_usable_witness:
  "\<exists>b. prekey_bundle 15 example_manager = Some (Inr b) \<and> key_bundle_verify sum_curve 15 b = Inr () \<and>
     bundle_matches sum_curve example_manager b"
proof -
  have steps: "(km_step sum_curve ^^ 1) (km_init sum_curve [1]) example_manager"
    unfolding example_manager_def by (auto intro: km_step.rotate)
  have "\<not> list_all (\<lambda>(_, b). \<not> lifetime_verify 15 (pk_lifetime (pb_prekey b))) (km_prekeys example_manager)"
    by code_simp
  then show ?thesis
    using published_bundles_usable[OF sum_curve_ok steps, of 15] by simp
qed

end
