(* ===== verification/Encryption_TwoParty.thy ===== *)
theory Encryption_TwoParty
  imports Encryption_Keys
begin

section \<open>X3DH and two-party secure messaging\<close>

text \<open>
  \<open>p2panda-encryption/src/two_party/x3dh.rs\<close> and \<open>two_party.rs\<close>. HKDF, the AEAD, HPKE and the CBOR encoding
  of the payload are fields of \<open>party_api\<close>, with their documented laws in \<open>party_ok\<close>: what was encrypted is
  decrypted with the matching key, and what was encoded is decoded. The random bytes of a call and the seed of
  HPKE are arguments. Errors of the random-number generator are not modelled. Key indices are 64 bit words.
\<close>

datatype key_used = PreKey | ReceivedKey | OwnKey u64

record two_party_plaintext =
  pt_plaintext :: bytes
  pt_receiver_new_secret :: bytes
  pt_sender_new_verifying_key :: bytes
  pt_sender_next_index :: u64

record party_api =
  pa_curve :: curve_api
  pa_hkdf :: "bytes \<Rightarrow> bytes \<Rightarrow> bytes option \<Rightarrow> nat \<Rightarrow> bytes option"
  pa_aead_encrypt :: "bytes \<Rightarrow> bytes \<Rightarrow> bytes \<Rightarrow> bytes \<Rightarrow> bytes option"
  pa_aead_decrypt :: "bytes \<Rightarrow> bytes \<Rightarrow> bytes \<Rightarrow> bytes \<Rightarrow> bytes option"
  pa_hpke_seal :: "bytes \<Rightarrow> bytes \<Rightarrow> bytes \<Rightarrow> bytes option"
  pa_hpke_open :: "bytes \<Rightarrow> bytes \<Rightarrow> bytes option"
  pa_encode :: "two_party_plaintext \<Rightarrow> bytes option"
  pa_decode :: "bytes \<Rightarrow> two_party_plaintext option"

definition party_ok :: "party_api \<Rightarrow> bool" where
  "party_ok P \<longleftrightarrow>
     curve_ok (pa_curve P) \<and>
     (\<forall>key plain nonce ad c. pa_aead_encrypt P key plain nonce ad = Some c \<longrightarrow> pa_aead_decrypt P key c nonce ad = Some plain) \<and>
     (\<forall>sk plain seed c. pa_hpke_seal P (cv_public (pa_curve P) sk) plain seed = Some c \<longrightarrow> pa_hpke_open P c sk = Some plain) \<and>
     (\<forall>m bs. pa_encode P m = Some bs \<longrightarrow> pa_decode P bs = Some m)"

subsection \<open>X3DH\<close>

definition KDF_INFO :: bytes where
  "KDF_INFO = [112, 50, 112, 97, 110, 100, 97]"

record x3dh_ciphertext =
  xc_identity_key :: bytes
  xc_onetime_prekey_id :: "u64 option"
  xc_prekey_id :: bytes
  xc_ciphertext :: bytes
  xc_ephemeral_key :: bytes

datatype x3dh_error = X3dhAead | X3dhHkdf | X3dhKeyBundle key_bundle_error

definition option_result :: "'e \<Rightarrow> 'a option \<Rightarrow> 'e + 'a" where
  "option_result e x = (case x of None \<Rightarrow> Inl e | Some x \<Rightarrow> Inr x)"

definition x3dh_key :: "party_api \<Rightarrow> bytes list \<Rightarrow> x3dh_error + bytes \<times> bytes" where
  "x3dh_key P agreements =
     (let ikm = replicate 32 255 @ concat agreements
      in bind_result (option_result X3dhHkdf (pa_hkdf P (replicate 32 0) ikm (Some KDF_INFO) 32)) (\<lambda>sk.
         bind_result (option_result X3dhHkdf (pa_hkdf P [] sk None 12)) (\<lambda>nonce. Inr (sk, nonce))))"

definition x3dh_encrypt :: "party_api \<Rightarrow> u64 \<Rightarrow> bytes \<Rightarrow> bytes \<Rightarrow> key_bundle \<Rightarrow> bytes \<Rightarrow> x3dh_error + x3dh_ciphertext" where
  "x3dh_encrypt P now plaintext our_identity_secret their_bundle random_ephemeral =
     (case key_bundle_verify (pa_curve P) now their_bundle of
        Inl e \<Rightarrow> Inl (X3dhKeyBundle e)
      | Inr _ \<Rightarrow>
          (let V = pa_curve P;
               our_identity_key = cv_public V our_identity_secret;
               our_ephemeral_secret = cv_clamp V random_ephemeral;
               signed_prekey = pk_key (kb_signed_prekey their_bundle);
               agreements =
                 [cv_agree V our_identity_secret signed_prekey,
                  cv_agree V our_ephemeral_secret (kb_identity_key their_bundle),
                  cv_agree V our_ephemeral_secret signed_prekey] @
                 (case kb_onetime_prekey their_bundle of
                    None \<Rightarrow> []
                  | Some k \<Rightarrow> [cv_agree V our_ephemeral_secret (ok_key k)])
           in bind_result (x3dh_key P agreements) (\<lambda>(sk, nonce).
              bind_result (option_result X3dhAead
                  (pa_aead_encrypt P sk plaintext nonce (our_identity_key @ kb_identity_key their_bundle))) (\<lambda>c.
                Inr \<lparr>xc_identity_key = our_identity_key,
                     xc_onetime_prekey_id = map_option ok_id (kb_onetime_prekey their_bundle),
                     xc_prekey_id = signed_prekey, xc_ciphertext = c,
                     xc_ephemeral_key = cv_public V our_ephemeral_secret\<rparr>))))"

definition x3dh_decrypt :: "party_api \<Rightarrow> x3dh_ciphertext \<Rightarrow> bytes \<Rightarrow> bytes \<Rightarrow> bytes option \<Rightarrow> x3dh_error + bytes" where
  "x3dh_decrypt P c our_identity_secret our_prekey_secret our_onetime_secret =
     (let V = pa_curve P;
          our_identity_key = cv_public V our_identity_secret;
          agreements =
            [cv_agree V our_prekey_secret (xc_identity_key c),
             cv_agree V our_identity_secret (xc_ephemeral_key c),
             cv_agree V our_prekey_secret (xc_ephemeral_key c)] @
            (case our_onetime_secret of
               None \<Rightarrow> []
             | Some s \<Rightarrow> [cv_agree V s (xc_ephemeral_key c)])
      in bind_result (x3dh_key P agreements) (\<lambda>(sk, nonce).
         option_result X3dhAead
           (pa_aead_decrypt P sk (xc_ciphertext c) nonce (xc_identity_key c @ our_identity_key))))"

subsection \<open>Two-party secure messaging\<close>

record two_party_state =
  tp_our_next_key_index :: u64
  tp_our_min_key_index :: u64
  tp_our_secret_keys :: "(u64, bytes) amap"
  tp_our_received_secret_key :: "bytes option"
  tp_their_next_key_used :: key_used
  tp_their_prekey_bundle :: "key_bundle option"
  tp_their_verifying_key :: "bytes option"

datatype two_party_ciphertext = PreKeyCiphertext x3dh_ciphertext | HpkeCiphertext bytes

record two_party_message =
  tm_ciphertext :: two_party_ciphertext
  tm_key_used :: key_used

datatype two_party_error =
    Hpke
  | X3dh x3dh_error
  | Encode
  | Decode
  | PreKeyReuse
  | UnknownSecretUsed u64
  | UnknownPreKeyUsed bytes
  | InvalidCiphertextType

definition init_to_send :: "key_bundle \<Rightarrow> two_party_state" where
  "init_to_send their_prekey_bundle =
     \<lparr>tp_our_next_key_index = 1, tp_our_min_key_index = 1, tp_our_secret_keys = [], tp_our_received_secret_key = None,
      tp_their_next_key_used = PreKey, tp_their_prekey_bundle = Some their_prekey_bundle, tp_their_verifying_key = None\<rparr>"

definition init_to_receive :: two_party_state where
  "init_to_receive =
     \<lparr>tp_our_next_key_index = 1, tp_our_min_key_index = 1, tp_our_secret_keys = [], tp_our_received_secret_key = None,
      tp_their_next_key_used = PreKey, tp_their_prekey_bundle = None, tp_their_verifying_key = None\<rparr>"

record randomness =
  rd_our_secret :: bytes
  rd_their_secret :: bytes
  rd_ephemeral :: bytes
  rd_seed :: bytes

definition two_party_encrypt ::
  "party_api \<Rightarrow> u64 \<Rightarrow> two_party_state \<Rightarrow> key_manager \<Rightarrow> bytes \<Rightarrow> randomness \<Rightarrow>
   two_party_error + two_party_state \<times> two_party_ciphertext" where
  "two_party_encrypt P now y manager plaintext rnd =
     (case tp_their_verifying_key y of
        None \<Rightarrow>
          (case tp_their_prekey_bundle y of
             None \<Rightarrow> Inl PreKeyReuse
           | Some bundle \<Rightarrow>
               (case x3dh_encrypt P now plaintext (km_identity_secret manager) bundle (rd_ephemeral rnd) of
                  Inl e \<Rightarrow> Inl (X3dh e)
                | Inr c \<Rightarrow> Inr (y\<lparr>tp_their_prekey_bundle := None\<rparr>, PreKeyCiphertext c)))
      | Some their_key \<Rightarrow>
          bind_result (option_result Hpke (pa_hpke_seal P their_key plaintext (rd_seed rnd))) (\<lambda>c.
            Inr (y, HpkeCiphertext c)))"

definition two_party_send ::
  "party_api \<Rightarrow> u64 \<Rightarrow> two_party_state \<Rightarrow> key_manager \<Rightarrow> bytes \<Rightarrow> randomness \<Rightarrow>
   two_party_error + two_party_state \<times> two_party_message" where
  "two_party_send P now y manager plaintext rnd =
     (let V = pa_curve P;
          our_new_secret = cv_clamp V (rd_our_secret rnd);
          their_new_secret = cv_clamp V (rd_their_secret rnd)
      in bind_result (option_result Encode (pa_encode P
             \<lparr>pt_plaintext = plaintext, pt_receiver_new_secret = their_new_secret,
              pt_sender_new_verifying_key = cv_public V our_new_secret,
              pt_sender_next_index = tp_our_next_key_index y\<rparr>)) (\<lambda>plaintext_bytes.
         bind_result (two_party_encrypt P now y manager plaintext_bytes rnd) (\<lambda>(y, c).
           Inr (y\<lparr>tp_our_secret_keys := amap_insert (tp_our_next_key_index y) our_new_secret (tp_our_secret_keys y),
                  tp_our_next_key_index := tp_our_next_key_index y + 1,
                  tp_their_verifying_key := Some (cv_public V their_new_secret),
                  tp_their_next_key_used := ReceivedKey\<rparr>,
                \<lparr>tm_ciphertext = c, tm_key_used = tp_their_next_key_used y\<rparr>))))"

definition decrypt_prekey ::
  "party_api \<Rightarrow> key_manager \<Rightarrow> x3dh_ciphertext \<Rightarrow> two_party_error + key_manager \<times> bytes" where
  "decrypt_prekey P manager c =
     bind_result
       (case xc_onetime_prekey_id c of
          Some i \<Rightarrow>
            (case use_onetime_secret manager i of Inl _ \<Rightarrow> Inl PreKeyReuse | Inr (manager, s) \<Rightarrow> Inr (manager, s))
        | None \<Rightarrow> Inr (manager, None)) (\<lambda>(manager, onetime_secret).
       case prekey_secret manager (xc_prekey_id c) of
         Inl _ \<Rightarrow> Inl (UnknownPreKeyUsed (xc_prekey_id c))
       | Inr secret \<Rightarrow>
           (case x3dh_decrypt P c (km_identity_secret manager) secret onetime_secret of
              Inl e \<Rightarrow> Inl (X3dh e)
            | Inr plaintext \<Rightarrow> Inr (manager, plaintext)))"

definition drop_own_keys :: "u64 \<Rightarrow> two_party_state \<Rightarrow> two_party_state" where
  "drop_own_keys index y =
     y\<lparr>tp_our_secret_keys := filter (\<lambda>(i, _). \<not> (tp_our_min_key_index y \<le> i \<and> i < index + 1)) (tp_our_secret_keys y),
       tp_our_min_key_index := index + 1\<rparr>"

definition two_party_decrypt ::
  "party_api \<Rightarrow> two_party_state \<Rightarrow> key_manager \<Rightarrow> two_party_ciphertext \<Rightarrow> key_used \<Rightarrow>
   two_party_error + two_party_state \<times> key_manager \<times> bytes" where
  "two_party_decrypt P y manager c used =
     (case (used, c) of
        (PreKey, PreKeyCiphertext c) \<Rightarrow>
          bind_result (decrypt_prekey P manager c) (\<lambda>(manager, plaintext). Inr (y, manager, plaintext))
      | (ReceivedKey, HpkeCiphertext c) \<Rightarrow>
          (case tp_our_received_secret_key y of
             None \<Rightarrow> Inl (UnknownSecretUsed 0)
           | Some secret \<Rightarrow>
               bind_result (option_result Hpke (pa_hpke_open P c secret)) (\<lambda>plaintext. Inr (y, manager, plaintext)))
      | (OwnKey index, HpkeCiphertext c) \<Rightarrow>
          (case map_of (tp_our_secret_keys y) index of
             None \<Rightarrow> Inl (UnknownSecretUsed index)
           | Some secret \<Rightarrow>
               bind_result (option_result Hpke (pa_hpke_open P c secret)) (\<lambda>plaintext.
                 Inr (drop_own_keys index y, manager, plaintext)))
      | _ \<Rightarrow> Inl InvalidCiphertextType)"

definition two_party_receive ::
  "party_api \<Rightarrow> two_party_state \<Rightarrow> key_manager \<Rightarrow> two_party_message \<Rightarrow>
   two_party_error + two_party_state \<times> key_manager \<times> bytes" where
  "two_party_receive P y manager message =
     bind_result (two_party_decrypt P y manager (tm_ciphertext message) (tm_key_used message)) (\<lambda>(y, manager, bs).
     bind_result (option_result Decode (pa_decode P bs)) (\<lambda>m.
       Inr (y\<lparr>tp_their_verifying_key := Some (pt_sender_new_verifying_key m),
              tp_their_next_key_used := OwnKey (pt_sender_next_index m),
              tp_our_received_secret_key := Some (pt_receiver_new_secret m)\<rparr>,
            manager, pt_plaintext m)))"

end
