(* ===== verification/Encryption_Session.thy ===== *)
theory Encryption_Session
  imports Encryption_TwoParty
begin

section \<open>Two-party sessions\<close>

text \<open>
  Two members who exchange two-party messages over two ordered streams, sending and receiving in any
  interleaving. The streams hold, next to each message, the plaintext it was made from. The invariant
  \<open>dir_ok\<close> describes one direction of the session: every message under way can be opened with a key the
  receiver still holds when the message arrives.
\<close>

record tp_side =
  sd_state :: two_party_state
  sd_manager :: key_manager

record tp_session =
  sx_a :: tp_side
  sx_b :: tp_side
  sx_ab :: "(two_party_message \<times> bytes) list"
  sx_ba :: "(two_party_message \<times> bytes) list"

inductive two_party_step :: "party_api \<Rightarrow> tp_session \<Rightarrow> tp_session \<Rightarrow> bool" for P where
  send_a: "two_party_send P now (sd_state (sx_a s)) (sd_manager (sx_a s)) plaintext rnd = Inr (y, m) \<Longrightarrow>
     two_party_step P s (s\<lparr>sx_a := (sx_a s)\<lparr>sd_state := y\<rparr>, sx_ab := sx_ab s @ [(m, plaintext)]\<rparr>)"
| send_b: "two_party_send P now (sd_state (sx_b s)) (sd_manager (sx_b s)) plaintext rnd = Inr (y, m) \<Longrightarrow>
     two_party_step P s (s\<lparr>sx_b := (sx_b s)\<lparr>sd_state := y\<rparr>, sx_ba := sx_ba s @ [(m, plaintext)]\<rparr>)"
| receive_b: "sx_ab s = (m, plaintext) # rest \<Longrightarrow>
     two_party_receive P (sd_state (sx_b s)) (sd_manager (sx_b s)) m = Inr (y, manager, received) \<Longrightarrow>
     two_party_step P s (s\<lparr>sx_b := \<lparr>sd_state = y, sd_manager = manager\<rparr>, sx_ab := rest\<rparr>)"
| receive_a: "sx_ba s = (m, plaintext) # rest \<Longrightarrow>
     two_party_receive P (sd_state (sx_a s)) (sd_manager (sx_a s)) m = Inr (y, manager, received) \<Longrightarrow>
     two_party_step P s (s\<lparr>sx_a := \<lparr>sd_state = y, sd_manager = manager\<rparr>, sx_ba := rest\<rparr>)"

subsection \<open>X3DH decrypts what was encrypted\<close>

lemma option_result_eq_Inr [simp]: "option_result e x = Inr y \<longleftrightarrow> x = Some y"
  by (cases x) (simp_all add: option_result_def)

lemma option_result_Some [simp]: "option_result e (Some x) = Inr x"
  by (simp add: option_result_def)

lemma party_okD:
  assumes "party_ok P"
  shows "cv_agree (pa_curve P) a (cv_public (pa_curve P) b) = cv_agree (pa_curve P) b (cv_public (pa_curve P) a)"
    "pa_aead_encrypt P key plain nonce ad = Some c \<Longrightarrow> pa_aead_decrypt P key c nonce ad = Some plain"
    "pa_hpke_seal P (cv_public (pa_curve P) sk) plain seed = Some c \<Longrightarrow> pa_hpke_open P c sk = Some plain"
    "pa_encode P m = Some bs \<Longrightarrow> pa_decode P bs = Some m"
  using assms unfolding party_ok_def curve_ok_def by blast+

lemma x3dh_decrypt_encrypt:
  assumes P: "party_ok P" and enc: "x3dh_encrypt P now plaintext identity_secret b rnd = Inr c"
    and keys: "kb_identity_key b = cv_public (pa_curve P) our_identity" "pk_key (kb_signed_prekey b) = cv_public (pa_curve P) our_prekey"
    and onetime: "map_option ok_key (kb_onetime_prekey b) = map_option (cv_public (pa_curve P)) our_onetime"
  shows "x3dh_decrypt P c our_identity our_prekey our_onetime = Inr plaintext"
    "xc_prekey_id c = pk_key (kb_signed_prekey b)" "xc_onetime_prekey_id c = map_option ok_id (kb_onetime_prekey b)"
proof -
  let ?V = "pa_curve P" and ?e = "cv_clamp (pa_curve P) rnd"
  define ag where "ag = [cv_agree ?V identity_secret (cv_public ?V our_prekey), cv_agree ?V ?e (cv_public ?V our_identity),
      cv_agree ?V ?e (cv_public ?V our_prekey)] @
    (case kb_onetime_prekey b of None \<Rightarrow> [] | Some k \<Rightarrow> [cv_agree ?V ?e (ok_key k)])"
  obtain sk nonce ct where k: "x3dh_key P ag = Inr (sk, nonce)"
    and ct: "pa_aead_encrypt P sk plaintext nonce (cv_public ?V identity_secret @ cv_public ?V our_identity) = Some ct"
    and c: "c = \<lparr>xc_identity_key = cv_public ?V identity_secret, xc_onetime_prekey_id = map_option ok_id (kb_onetime_prekey b),
      xc_prekey_id = pk_key (kb_signed_prekey b), xc_ciphertext = ct, xc_ephemeral_key = cv_public ?V ?e\<rparr>"
    using enc by (auto simp: x3dh_encrypt_def keys Let_def ag_def bind_result_eq_Inr split: sum.splits)
  have "ag = [cv_agree ?V our_prekey (cv_public ?V identity_secret), cv_agree ?V our_identity (cv_public ?V ?e),
      cv_agree ?V our_prekey (cv_public ?V ?e)] @
    (case our_onetime of None \<Rightarrow> [] | Some s \<Rightarrow> [cv_agree ?V s (cv_public ?V ?e)])"
    using onetime party_okD(1)[OF P] by (cases "kb_onetime_prekey b"; cases our_onetime) (simp_all add: ag_def)
  with k ct show "x3dh_decrypt P c our_identity our_prekey our_onetime = Inr plaintext"
    using party_okD(2)[OF P] by (cases our_onetime) (simp_all add: x3dh_decrypt_def c Let_def)
  show "xc_prekey_id c = pk_key (kb_signed_prekey b)" "xc_onetime_prekey_id c = map_option ok_id (kb_onetime_prekey b)"
    by (simp_all add: c)
qed

lemma decrypt_prekey_encrypt:
  assumes P: "party_ok P" and enc: "x3dh_encrypt P now plaintext identity_secret b rnd = Inr c"
    and b: "bundle_matches (pa_curve P) my b"
  shows "\<exists>my'. decrypt_prekey P my c = Inr (my', plaintext)"
proof -
  obtain secret where secret: "prekey_secret my (pk_key (kb_signed_prekey b)) = Inr secret"
      "pk_key (kb_signed_prekey b) = cv_public (pa_curve P) secret"
      and identity: "kb_identity_key b = cv_public (pa_curve P) (km_identity_secret my)"
    using b by (auto simp: bundle_matches_def)
  show ?thesis
  proof (cases "kb_onetime_prekey b")
    case None
    note x = x3dh_decrypt_encrypt[OF P enc identity secret(2), of None]
    show ?thesis
      using x None secret(1) by (simp add: decrypt_prekey_def)
  next
    case (Some k)
    then obtain prekey_id s where s: "map_of (km_onetime_secrets my) (ok_id k) = Some (prekey_id, s)"
        "ok_key k = cv_public (pa_curve P) s"
      using b by (auto simp: bundle_matches_def)
    note x = x3dh_decrypt_encrypt[OF P enc identity secret(2), of "Some s"]
    have "prekey_secret (my\<lparr>km_onetime_secrets := amap_remove (ok_id k) (km_onetime_secrets my)\<rparr>) (xc_prekey_id c) = Inr secret"
      using secret(1) x(2) Some s(2) by (simp add: prekey_secret_def)
    then show ?thesis
      using x Some s by (simp add: decrypt_prekey_def use_onetime_secret_def)
  qed
qed

subsection \<open>The invariant of one direction\<close>

record tp_entry =
  te_message :: two_party_message
  te_plain :: two_party_plaintext
  te_key :: bytes

abbreviation te_used :: "tp_entry \<Rightarrow> key_used" where
  "te_used e \<equiv> tm_key_used (te_message e)"

definition sealed :: "party_api \<Rightarrow> tp_entry \<Rightarrow> bool" where
  "sealed P e \<longleftrightarrow>
     (\<exists>bs seed c. pa_encode P (te_plain e) = Some bs \<and> pa_hpke_seal P (te_key e) bs seed = Some c \<and>
        tm_ciphertext (te_message e) = HpkeCiphertext c)"

definition opens_prekey :: "party_api \<Rightarrow> key_manager \<Rightarrow> tp_entry \<Rightarrow> bool" where
  "opens_prekey P my e \<longleftrightarrow>
     (\<exists>bs c my'. pa_encode P (te_plain e) = Some bs \<and> tm_ciphertext (te_message e) = PreKeyCiphertext c \<and>
        decrypt_prekey P my c = Inr (my', bs))"

definition opens :: "party_api \<Rightarrow> key_manager \<Rightarrow> bytes option \<Rightarrow> tp_entry \<Rightarrow> bool" where
  "opens P my r e \<longleftrightarrow>
     (case te_used e of
        PreKey \<Rightarrow> opens_prekey P my e
      | ReceivedKey \<Rightarrow> sealed P e \<and> Some (te_key e) = map_option (cv_public (pa_curve P)) r
      | OwnKey _ \<Rightarrow> sealed P e)"

fun last_secret :: "bytes option \<Rightarrow> tp_entry list \<Rightarrow> bytes option" where
  "last_secret r [] = r"
| "last_secret r (e # es) = last_secret (Some (pt_receiver_new_secret (te_plain e))) es"

fun keys_ok :: "party_api \<Rightarrow> key_manager \<Rightarrow> bytes option \<Rightarrow> tp_entry list \<Rightarrow> bool" where
  "keys_ok P my r [] = True"
| "keys_ok P my r (e # es) =
     (opens P my r e \<and> list_all (\<lambda>e. te_used e \<noteq> PreKey) es \<and> keys_ok P my (Some (pt_receiver_new_secret (te_plain e))) es)"

definition own_refs :: "tp_entry list \<Rightarrow> (u64 \<times> bytes) list" where
  "own_refs es = concat (map (\<lambda>e. case te_used e of OwnKey i \<Rightarrow> [(i, te_key e)] | _ \<Rightarrow> []) es)"

definition next_ref :: "two_party_state \<Rightarrow> (u64 \<times> bytes) list" where
  "next_ref x = (case tp_their_next_key_used x of OwnKey i \<Rightarrow> [(i, the (tp_their_verifying_key x))] | _ \<Rightarrow> [])"

definition offers :: "tp_entry list \<Rightarrow> (u64 \<times> bytes) list" where
  "offers fs = map (\<lambda>f. (pt_sender_next_index (te_plain f), pt_sender_new_verifying_key (te_plain f))) fs"

definition ref_ok :: "party_api \<Rightarrow> two_party_state \<Rightarrow> u64 \<times> bytes \<Rightarrow> bool" where
  "ref_ok P y ref \<longleftrightarrow>
     tp_our_min_key_index y \<le> fst ref \<and> fst ref < tp_our_next_key_index y \<and>
     map_option (cv_public (pa_curve P)) (map_of (tp_our_secret_keys y) (fst ref)) = Some (snd ref)"

definition refs_ok :: "party_api \<Rightarrow> two_party_state \<Rightarrow> (u64 \<times> bytes) list \<Rightarrow> bool" where
  "refs_ok P y refs \<longleftrightarrow>
     tp_our_min_key_index y \<le> tp_our_next_key_index y \<and> sorted_wrt (<) (map fst refs) \<and>
     list_all (ref_ok P y) refs"

definition next_ok :: "party_api \<Rightarrow> two_party_state \<Rightarrow> bytes option \<Rightarrow> key_manager \<Rightarrow> tp_entry list \<Rightarrow> bool" where
  "next_ok P x r my es \<longleftrightarrow>
     (case tp_their_next_key_used x of
        PreKey \<Rightarrow> tp_their_verifying_key x = None \<and> es = [] \<and>
          (\<forall>b. tp_their_prekey_bundle x = Some b \<longrightarrow> bundle_matches (pa_curve P) my b)
      | ReceivedKey \<Rightarrow> tp_their_verifying_key x \<noteq> None \<and>
          tp_their_verifying_key x = map_option (cv_public (pa_curve P)) (last_secret r es)
      | OwnKey _ \<Rightarrow> tp_their_verifying_key x \<noteq> None)"

definition dir_ok ::
  "party_api \<Rightarrow> two_party_state \<Rightarrow> two_party_state \<Rightarrow> key_manager \<Rightarrow> tp_entry list \<Rightarrow> tp_entry list \<Rightarrow> bool" where
  "dir_ok P x y my es fs \<longleftrightarrow>
     keys_ok P my (tp_our_received_secret_key y) es \<and> next_ok P x (tp_our_received_secret_key y) my es \<and>
     refs_ok P y (own_refs es @ next_ref x @ offers fs)"

lemma own_refs_simps [simp]:
  "own_refs [] = []"
  "own_refs (e # es) = (case te_used e of OwnKey i \<Rightarrow> [(i, te_key e)] | _ \<Rightarrow> []) @ own_refs es"
  "own_refs (es @ fs) = own_refs es @ own_refs fs"
  by (simp_all add: own_refs_def)

lemma offers_simps [simp]:
  "offers [] = []"
  "offers (f # fs) = (pt_sender_next_index (te_plain f), pt_sender_new_verifying_key (te_plain f)) # offers fs"
  "offers (es @ fs) = offers es @ offers fs"
  by (simp_all add: offers_def)

lemma last_secret_snoc [simp]: "last_secret r (es @ [e]) = Some (pt_receiver_new_secret (te_plain e))"
  by (induction es arbitrary: r) simp_all

lemma keys_ok_snoc:
  "keys_ok P my r (es @ [e]) \<longleftrightarrow>
     keys_ok P my r es \<and> opens P my (last_secret r es) e \<and> (es \<noteq> [] \<longrightarrow> te_used e \<noteq> PreKey)"
  by (induction es arbitrary: r) auto

lemma keys_ok_no_prekey:
  "list_all (\<lambda>e. te_used e \<noteq> PreKey) es \<Longrightarrow> keys_ok P my r es \<longleftrightarrow> keys_ok P my' r es"
  by (induction es arbitrary: r) (auto simp: opens_def split: key_used.splits)

lemma refs_ok_subseq:
  assumes "refs_ok P y (xs @ zs @ ys)"
  shows "refs_ok P y (xs @ ys)"
  using assms by (auto simp: refs_ok_def sorted_wrt_append)

subsection \<open>Sending\<close>

lemma two_party_sendE:
  assumes "two_party_send P now x mx plaintext rnd = Inr (x', m)"
  obtains p bs where
    "p = \<lparr>pt_plaintext = plaintext, pt_receiver_new_secret = cv_clamp (pa_curve P) (rd_their_secret rnd),
          pt_sender_new_verifying_key = cv_public (pa_curve P) (cv_clamp (pa_curve P) (rd_our_secret rnd)),
          pt_sender_next_index = tp_our_next_key_index x\<rparr>"
    "pa_encode P p = Some bs" "tm_key_used m = tp_their_next_key_used x"
    "tp_our_secret_keys x' =
       amap_insert (tp_our_next_key_index x) (cv_clamp (pa_curve P) (rd_our_secret rnd)) (tp_our_secret_keys x)"
    "tp_our_next_key_index x' = tp_our_next_key_index x + 1" "tp_our_min_key_index x' = tp_our_min_key_index x"
    "tp_our_received_secret_key x' = tp_our_received_secret_key x"
    "tp_their_verifying_key x' = Some (cv_public (pa_curve P) (pt_receiver_new_secret p))"
    "tp_their_next_key_used x' = ReceivedKey"
    "(\<exists>b c. tp_their_verifying_key x = None \<and> tp_their_prekey_bundle x = Some b \<and> tm_ciphertext m = PreKeyCiphertext c \<and>
        x3dh_encrypt P now bs (km_identity_secret mx) b (rd_ephemeral rnd) = Inr c) \<or>
     (\<exists>k c. tp_their_verifying_key x = Some k \<and> tm_ciphertext m = HpkeCiphertext c \<and>
        pa_hpke_seal P k bs (rd_seed rnd) = Some c)"
  using assms
  by (auto simp: two_party_send_def two_party_encrypt_def Let_def bind_result_eq_Inr split: option.splits sum.splits)

lemma send_forward:
  assumes ok: "party_ok P" and dir: "dir_ok P x y my es fs" and send: "two_party_send P now x mx plaintext rnd = Inr (x', m)"
    and e: "te_message e = m" "te_key e = the (tp_their_verifying_key x)"
    and plain: "te_plain e =
      \<lparr>pt_plaintext = plaintext, pt_receiver_new_secret = cv_clamp (pa_curve P) (rd_their_secret rnd),
       pt_sender_new_verifying_key = cv_public (pa_curve P) (cv_clamp (pa_curve P) (rd_our_secret rnd)),
       pt_sender_next_index = tp_our_next_key_index x\<rparr>"
  shows "dir_ok P x' y my (es @ [e]) fs"
  using send
proof (cases rule: two_party_sendE)
  case (1 p bs)
  have used: "te_used e = tp_their_next_key_used x"
    using 1(3) e(1) by simp
  have next_x: "next_ok P x (tp_our_received_secret_key y) my es"
    using dir by (simp add: dir_ok_def)
  have "opens P my (last_secret (tp_our_received_secret_key y) es) e \<and> (es \<noteq> [] \<longrightarrow> te_used e \<noteq> PreKey)"
  proof (cases "tp_their_next_key_used x")
    case PreKey
    with next_x 1(10) obtain b c where b: "bundle_matches (pa_curve P) my b" "tm_ciphertext m = PreKeyCiphertext c"
      "x3dh_encrypt P now bs (km_identity_secret mx) b (rd_ephemeral rnd) = Inr c" "es = []"
      by (auto simp: next_ok_def)
    then show ?thesis
      using decrypt_prekey_encrypt[OF ok b(3,1)] 1(1,2) e plain used PreKey by (auto simp: opens_def opens_prekey_def)
  next
    case ReceivedKey
    with next_x 1 e plain used show ?thesis
      by (auto simp: opens_def sealed_def next_ok_def)
  next
    case (OwnKey i)
    with next_x 1 e plain used show ?thesis
      by (auto simp: opens_def sealed_def next_ok_def)
  qed
  then have "keys_ok P my (tp_our_received_secret_key y) (es @ [e])"
    using dir by (simp add: dir_ok_def keys_ok_snoc)
  moreover have "next_ok P x' (tp_our_received_secret_key y) my (es @ [e])"
    using 1 plain by (simp add: next_ok_def)
  moreover have "own_refs (es @ [e]) @ next_ref x' @ offers fs = own_refs es @ next_ref x @ offers fs"
    using 1(9) used e(2) by (simp add: next_ref_def split: key_used.splits)
  ultimately show ?thesis
    using dir by (simp only: dir_ok_def)
qed

lemma refs_ok_insert:
  assumes "refs_ok P x refs" "tp_our_next_key_index x \<noteq> - 1"
    and "tp_our_secret_keys x' = amap_insert (tp_our_next_key_index x) secret (tp_our_secret_keys x)"
    "tp_our_next_key_index x' = tp_our_next_key_index x + 1" "tp_our_min_key_index x' = tp_our_min_key_index x"
  shows "refs_ok P x' (refs @ [(tp_our_next_key_index x, cv_public (pa_curve P) secret)])"
proof -
  have succ: "tp_our_next_key_index x < tp_our_next_key_index x + 1"
    using assms(2) by (rule u64_less_succ')
  have "ref_ok P x' ref" if "ref_ok P x ref" for ref
    using that succ assms(3-5) by (auto simp: ref_ok_def)
  then have "list_all (ref_ok P x') refs"
    using assms(1) by (auto simp: refs_ok_def list_all_iff)
  moreover have "ref_ok P x' (tp_our_next_key_index x, cv_public (pa_curve P) secret)"
    using assms succ by (simp add: ref_ok_def refs_ok_def)
  moreover have "fst ref < tp_our_next_key_index x" if "ref \<in> set refs" for ref
    using assms(1) that by (auto simp: refs_ok_def list_all_iff ref_ok_def)
  ultimately show ?thesis
    using assms succ by (auto simp: refs_ok_def sorted_wrt_append)
qed

lemma send_backward:
  assumes dir: "dir_ok P y x mx fs es" and send: "two_party_send P now x mx plaintext rnd = Inr (x', m)"
    and bound: "tp_our_next_key_index x \<noteq> - 1"
    and plain: "pt_sender_new_verifying_key (te_plain e) = cv_public (pa_curve P) (cv_clamp (pa_curve P) (rd_our_secret rnd))"
      "pt_sender_next_index (te_plain e) = tp_our_next_key_index x"
  shows "dir_ok P y x' mx fs (es @ [e])"
  using send
proof (cases rule: two_party_sendE)
  case (1 p bs)
  have "refs_ok P x' ((own_refs fs @ next_ref y @ offers es) @
      [(tp_our_next_key_index x, cv_public (pa_curve P) (cv_clamp (pa_curve P) (rd_our_secret rnd)))])"
    using dir 1 by (intro refs_ok_insert[OF _ bound]) (auto simp: dir_ok_def)
  with dir 1 plain show ?thesis
    by (simp add: dir_ok_def)
qed

lemma send_pair:
  assumes ok: "party_ok P" and dir: "dir_ok P x y my es fs" and rev: "dir_ok P y x mx fs es"
    and send: "two_party_send P now x mx plaintext rnd = Inr (x', m)" and bound: "tp_our_next_key_index x \<noteq> - 1"
  obtains e where "te_message e = m" "pt_plaintext (te_plain e) = plaintext"
    "dir_ok P x' y my (es @ [e]) fs" "dir_ok P y x' mx fs (es @ [e])"
    "tp_our_next_key_index x' = tp_our_next_key_index x + 1"
proof -
  define e where "e = \<lparr>te_message = m, te_plain =
      \<lparr>pt_plaintext = plaintext, pt_receiver_new_secret = cv_clamp (pa_curve P) (rd_their_secret rnd),
       pt_sender_new_verifying_key = cv_public (pa_curve P) (cv_clamp (pa_curve P) (rd_our_secret rnd)),
       pt_sender_next_index = tp_our_next_key_index x\<rparr>, te_key = the (tp_their_verifying_key x)\<rparr>"
  have "dir_ok P x' y my (es @ [e]) fs"
    by (rule send_forward[OF ok dir send]) (simp_all add: e_def)
  moreover have "dir_ok P y x' mx fs (es @ [e])"
    by (rule send_backward[OF rev send bound]) (simp_all add: e_def)
  moreover have "tp_our_next_key_index x' = tp_our_next_key_index x + 1"
    using send by (auto elim!: two_party_sendE)
  ultimately show ?thesis
    by (intro that[of e]) (simp_all add: e_def)
qed

subsection \<open>Receiving\<close>

lemma refs_ok_cong:
  assumes "tp_our_secret_keys y' = tp_our_secret_keys y" "tp_our_min_key_index y' = tp_our_min_key_index y"
    "tp_our_next_key_index y' = tp_our_next_key_index y"
  shows "refs_ok P y' refs = refs_ok P y refs"
proof -
  have "ref_ok P y' = ref_ok P y"
    using assms by (auto simp: ref_ok_def fun_eq_iff)
  with assms show ?thesis
    by (simp add: refs_ok_def)
qed

lemma refs_ok_drop:
  assumes "refs_ok P y ((i, pk) # refs)"
  shows "refs_ok P (drop_own_keys i y) refs"
proof -
  have i: "i < tp_our_next_key_index y"
    using assms by (simp add: refs_ok_def ref_ok_def)
  then have "i \<noteq> - 1"
    using word_order.extremum[of "tp_our_next_key_index y"] by auto
  then have succ: "i + 1 \<le> j \<longleftrightarrow> i < j" for j
    using u64_succ_le by blast
  have "ref_ok P (drop_own_keys i y) ref" if "ref_ok P y ref" "i < fst ref" for ref
    using that succ[of "fst ref"]
    by (auto simp: ref_ok_def drop_own_keys_def map_of_filter_key)
  moreover have "i < fst ref" if "ref \<in> set refs" for ref
    using assms that by (auto simp: refs_ok_def)
  ultimately show ?thesis
    using assms i succ by (auto simp: refs_ok_def list_all_iff drop_own_keys_def)
qed

lemma decrypt_head:
  assumes ok: "party_ok P" and dir: "dir_ok P x y my (e # es) fs"
  obtains y0 my' bs where
    "two_party_decrypt P y my (tm_ciphertext (te_message e)) (te_used e) = Inr (y0, my', bs)"
    "pa_decode P bs = Some (te_plain e)" "refs_ok P y0 (own_refs es @ next_ref x @ offers fs)"
    "tp_our_next_key_index y0 = tp_our_next_key_index y"
proof (cases "te_used e")
  case PreKey
  with dir obtain bs c my' where "pa_encode P (te_plain e) = Some bs" "tm_ciphertext (te_message e) = PreKeyCiphertext c"
      "decrypt_prekey P my c = Inr (my', bs)"
    by (auto simp: dir_ok_def opens_def opens_prekey_def)
  with dir PreKey show ?thesis
    by (intro that[of y my' bs]) (auto simp: two_party_decrypt_def dir_ok_def dest: party_okD(4)[OF ok])
next
  case ReceivedKey
  with dir obtain bs seed c secret where "pa_encode P (te_plain e) = Some bs" "tm_ciphertext (te_message e) = HpkeCiphertext c"
      "pa_hpke_seal P (cv_public (pa_curve P) secret) bs seed = Some c" "tp_our_received_secret_key y = Some secret"
    by (cases "tp_our_received_secret_key y") (auto simp: dir_ok_def opens_def sealed_def)
  with dir ReceivedKey show ?thesis
    by (intro that[of y my bs])
      (auto simp: two_party_decrypt_def dir_ok_def party_okD(3)[OF ok] dest: party_okD(4)[OF ok])
next
  case (OwnKey i)
  with dir have refs: "refs_ok P y ((i, te_key e) # own_refs es @ next_ref x @ offers fs)"
    by (simp add: dir_ok_def)
  then obtain secret where "map_of (tp_our_secret_keys y) i = Some secret" "te_key e = cv_public (pa_curve P) secret"
    by (auto simp: refs_ok_def ref_ok_def)
  moreover obtain bs seed c where "pa_encode P (te_plain e) = Some bs" "tm_ciphertext (te_message e) = HpkeCiphertext c"
      "pa_hpke_seal P (te_key e) bs seed = Some c"
    using dir OwnKey by (auto simp: dir_ok_def opens_def sealed_def)
  ultimately show ?thesis
    using refs_ok_drop[OF refs] OwnKey
    by (intro that[of "drop_own_keys i y" my bs])
      (auto simp: two_party_decrypt_def party_okD(3)[OF ok] drop_own_keys_def dest: party_okD(4)[OF ok])
qed

lemma receive_head:
  assumes ok: "party_ok P" and dir: "dir_ok P x y my (e # es) fs" and rev: "dir_ok P y x mx fs (e # es)"
  obtains y' my' where
    "two_party_receive P y my (te_message e) = Inr (y', my', pt_plaintext (te_plain e))"
    "dir_ok P x y' my' es fs" "dir_ok P y' x mx fs es" "tp_our_next_key_index y' = tp_our_next_key_index y"
proof -
  obtain y0 my' bs where d: "two_party_decrypt P y my (tm_ciphertext (te_message e)) (te_used e) = Inr (y0, my', bs)"
      "pa_decode P bs = Some (te_plain e)" and refs: "refs_ok P y0 (own_refs es @ next_ref x @ offers fs)"
      and index: "tp_our_next_key_index y0 = tp_our_next_key_index y"
    using decrypt_head[OF ok dir] by blast
  define y' where "y' = y0\<lparr>tp_their_verifying_key := Some (pt_sender_new_verifying_key (te_plain e)),
      tp_their_next_key_used := OwnKey (pt_sender_next_index (te_plain e)),
      tp_our_received_secret_key := Some (pt_receiver_new_secret (te_plain e))\<rparr>"
  have "refs_ok P y' (own_refs es @ next_ref x @ offers fs)"
    using refs by (subst refs_ok_cong[of _ y0]) (simp_all add: y'_def)
  moreover have "keys_ok P my' (tp_our_received_secret_key y') es"
    using dir keys_ok_no_prekey[of es P my _ my'] by (simp add: dir_ok_def y'_def)
  moreover have "next_ok P x (tp_our_received_secret_key y') my' es"
    using dir by (auto simp: dir_ok_def next_ok_def y'_def split: key_used.splits)
  ultimately have "dir_ok P x y' my' es fs"
    by (simp add: dir_ok_def)
  moreover have "dir_ok P y' x mx fs es"
    using rev refs_ok_subseq[of P x "own_refs fs" "next_ref y"]
    by (auto simp: dir_ok_def y'_def next_ok_def next_ref_def)
  ultimately show ?thesis
    using d index by (intro that[of y' my']) (simp_all add: two_party_receive_def y'_def)
qed

subsection \<open>The session\<close>

definition session_ok :: "party_api \<Rightarrow> nat \<Rightarrow> tp_session \<Rightarrow> bool" where
  "session_ok P n s \<longleftrightarrow>
     (\<exists>es fs. sx_ab s = map (\<lambda>e. (te_message e, pt_plaintext (te_plain e))) es \<and>
        sx_ba s = map (\<lambda>e. (te_message e, pt_plaintext (te_plain e))) fs \<and>
        dir_ok P (sd_state (sx_a s)) (sd_state (sx_b s)) (sd_manager (sx_b s)) es fs \<and>
        dir_ok P (sd_state (sx_b s)) (sd_state (sx_a s)) (sd_manager (sx_a s)) fs es) \<and>
     unat (tp_our_next_key_index (sd_state (sx_a s))) \<le> Suc n \<and>
     unat (tp_our_next_key_index (sd_state (sx_b s))) \<le> Suc n"

definition flip :: "tp_session \<Rightarrow> tp_session" where
  "flip s = \<lparr>sx_a = sx_b s, sx_b = sx_a s, sx_ab = sx_ba s, sx_ba = sx_ab s\<rparr>"

lemma session_ok_flip: "session_ok P n (flip s) \<longleftrightarrow> session_ok P n s"
  by (auto simp: session_ok_def flip_def)

lemma session_ok_send:
  assumes ok: "party_ok P" and inv: "session_ok P n s" and n: "Suc n < 2 ^ 64 - 1"
    and send: "two_party_send P now (sd_state (sx_a s)) (sd_manager (sx_a s)) plaintext rnd = Inr (x', m)"
  shows "session_ok P (Suc n) (s\<lparr>sx_a := (sx_a s)\<lparr>sd_state := x'\<rparr>, sx_ab := sx_ab s @ [(m, plaintext)]\<rparr>)"
proof -
  let ?x = "sd_state (sx_a s)" and ?y = "sd_state (sx_b s)"
  obtain es fs where q: "sx_ab s = map (\<lambda>e. (te_message e, pt_plaintext (te_plain e))) es"
      "sx_ba s = map (\<lambda>e. (te_message e, pt_plaintext (te_plain e))) fs"
      and dir: "dir_ok P ?x ?y (sd_manager (sx_b s)) es fs" and rev: "dir_ok P ?y ?x (sd_manager (sx_a s)) fs es"
      and index: "unat (tp_our_next_key_index ?x) \<le> Suc n" "unat (tp_our_next_key_index ?y) \<le> Suc n"
    using inv by (auto simp: session_ok_def)
  have bound: "tp_our_next_key_index ?x \<noteq> - 1"
    using index n by (auto simp: unsigned_minus_1_eq_mask mask_eq_exp_minus_1)
  obtain e where e: "te_message e = m" "pt_plaintext (te_plain e) = plaintext"
      "dir_ok P x' ?y (sd_manager (sx_b s)) (es @ [e]) fs" "dir_ok P ?y x' (sd_manager (sx_a s)) fs (es @ [e])"
      "tp_our_next_key_index x' = tp_our_next_key_index ?x + 1"
    using send_pair[OF ok dir rev send bound] by metis
  then show ?thesis
    using q index u64_succ[OF bound] unfolding session_ok_def
    by (intro conjI exI[of _ "es @ [e]"] exI[of _ fs]) simp_all
qed

lemma session_ok_receive:
  assumes ok: "party_ok P" and inv: "session_ok P n s" and q: "sx_ab s = (m, plaintext) # rest"
  obtains y my where "two_party_receive P (sd_state (sx_b s)) (sd_manager (sx_b s)) m = Inr (y, my, plaintext)"
    "session_ok P n (s\<lparr>sx_b := \<lparr>sd_state = y, sd_manager = my\<rparr>, sx_ab := rest\<rparr>)"
proof -
  let ?x = "sd_state (sx_a s)" and ?y = "sd_state (sx_b s)"
  obtain e es fs where e: "te_message e = m" "pt_plaintext (te_plain e) = plaintext"
      "rest = map (\<lambda>e. (te_message e, pt_plaintext (te_plain e))) es"
      "sx_ba s = map (\<lambda>e. (te_message e, pt_plaintext (te_plain e))) fs"
      and dir: "dir_ok P ?x ?y (sd_manager (sx_b s)) (e # es) fs" and rev: "dir_ok P ?y ?x (sd_manager (sx_a s)) fs (e # es)"
      and index: "unat (tp_our_next_key_index ?x) \<le> Suc n" "unat (tp_our_next_key_index ?y) \<le> Suc n"
    using inv q by (auto simp: session_ok_def Cons_eq_map_conv)
  obtain y' my' where r: "two_party_receive P ?y (sd_manager (sx_b s)) (te_message e) = Inr (y', my', pt_plaintext (te_plain e))"
    "dir_ok P ?x y' my' es fs" "dir_ok P y' ?x (sd_manager (sx_a s)) fs es"
    "tp_our_next_key_index y' = tp_our_next_key_index ?y"
    using receive_head[OF ok dir rev] by metis
  show ?thesis
  proof (rule that)
    show "two_party_receive P ?y (sd_manager (sx_b s)) m = Inr (y', my', plaintext)"
      using r e by simp
    show "session_ok P n (s\<lparr>sx_b := \<lparr>sd_state = y', sd_manager = my'\<rparr>, sx_ab := rest\<rparr>)"
      using r e index unfolding session_ok_def
      by (intro conjI exI[of _ es] exI[of _ fs]) simp_all
  qed
qed

lemma session_ok_mono: "session_ok P n s \<Longrightarrow> session_ok P (Suc n) s"
  by (auto simp: session_ok_def)

lemma session_ok_step:
  assumes ok: "party_ok P" and n: "Suc n < 2 ^ 64 - 1" and inv: "session_ok P n s" and step: "two_party_step P s s'"
  shows "session_ok P (Suc n) s'"
  using step
proof cases
  case (send_a now plaintext rnd y m)
  then show ?thesis
    using session_ok_send[OF ok inv n] by simp
next
  case (send_b now plaintext rnd y m)
  then show ?thesis
    using session_ok_send[OF ok _ n, of "flip s" now plaintext rnd y m] inv
      session_ok_flip[of P n s] session_ok_flip[of P "Suc n" s'] by (simp add: flip_def)
next
  case (receive_b m plaintext rest y manager received)
  then show ?thesis
    using session_ok_receive[OF ok inv, of m plaintext rest] session_ok_mono by fastforce
next
  case (receive_a m plaintext rest y manager received)
  have "session_ok P n (flip s)" "sx_ab (flip s) = (m, plaintext) # rest"
    using receive_a inv by (simp_all add: session_ok_flip) (simp add: flip_def)
  from session_ok_receive[OF ok this] have "session_ok P n (flip s')"
    using receive_a by (auto simp: flip_def)
  then show ?thesis
    by (simp add: session_ok_flip session_ok_mono)
qed

lemma session_ok_steps:
  assumes ok: "party_ok P" and inv: "session_ok P 0 s" and steps: "(two_party_step P ^^ n) s s'" and n: "n < 2 ^ 64 - 2"
  shows "session_ok P n s'"
  using steps n
proof (induction n arbitrary: s')
  case 0
  with inv show ?case
    by simp
next
  case (Suc n)
  then obtain t where t: "(two_party_step P ^^ n) s t" "two_party_step P t s'"
    by auto
  have "session_ok P n t"
    using Suc.prems(2) by (intro Suc.IH[OF t(1)]) simp
  moreover have "Suc n < 2 ^ 64 - 1"
    using Suc.prems(2) by simp
  ultimately show ?case
    using session_ok_step[OF ok _ _ t(2)] by blast
qed

definition session_start :: "party_api \<Rightarrow> tp_session \<Rightarrow> bool" where
  "session_start P s \<longleftrightarrow>
     sx_ab s = [] \<and> sx_ba s = [] \<and>
     (\<exists>b. sd_state (sx_a s) = init_to_send b \<and> bundle_matches (pa_curve P) (sd_manager (sx_b s)) b) \<and>
     (sd_state (sx_b s) = init_to_receive \<or>
      (\<exists>b. sd_state (sx_b s) = init_to_send b \<and> bundle_matches (pa_curve P) (sd_manager (sx_a s)) b))"

lemma session_start_ok: "session_start P s \<Longrightarrow> session_ok P 0 s"
  by (auto simp: session_start_def session_ok_def dir_ok_def next_ok_def refs_ok_def next_ref_def init_to_send_def
      init_to_receive_def)

text \<open>
  C6: two members exchange two-party messages, in any interleaving of sends and receives on two ordered streams. One of them
  was initialised with a key bundle of the other, who was initialised to receive or likewise with a bundle of the first.
  Then in every session reached in fewer than \<open>2 ^ 64 - 2\<close> steps the next message of either stream is
  decrypted without an error, and to the plaintext it was made from: the key index it carries still names a secret
  the receiver kept, although each receiver drops its own secrets up to the used index.
\<close>

theorem two_party_messages_decrypt:
  assumes "party_ok P" and "session_start P s0" and "(two_party_step P ^^ n) s0 s" and "n < 2 ^ 64 - 2"
  shows "(\<forall>m plaintext rest. sx_ab s = (m, plaintext) # rest \<longrightarrow>
      (\<exists>y manager. two_party_receive P (sd_state (sx_b s)) (sd_manager (sx_b s)) m = Inr (y, manager, plaintext))) \<and>
    (\<forall>m plaintext rest. sx_ba s = (m, plaintext) # rest \<longrightarrow>
      (\<exists>y manager. two_party_receive P (sd_state (sx_a s)) (sd_manager (sx_a s)) m = Inr (y, manager, plaintext)))"
proof -
  have inv: "session_ok P n s"
    using session_ok_steps[OF assms(1) session_start_ok[OF assms(2)] assms(3,4)] .
  then have inv': "session_ok P n (flip s)"
    by (simp add: session_ok_flip)
  show ?thesis
  proof (intro conjI allI impI)
    fix m plaintext rest
    assume "sx_ab s = (m, plaintext) # rest"
    then show "\<exists>y manager. two_party_receive P (sd_state (sx_b s)) (sd_manager (sx_b s)) m = Inr (y, manager, plaintext)"
      using session_ok_receive[OF assms(1) inv] by metis
  next
    fix m plaintext rest
    assume "sx_ba s = (m, plaintext) # rest"
    then have "sx_ab (flip s) = (m, plaintext) # rest"
      by (simp add: flip_def)
    from session_ok_receive[OF assms(1) inv' this]
    show "\<exists>y manager. two_party_receive P (sd_state (sx_a s)) (sd_manager (sx_a s)) m = Inr (y, manager, plaintext)"
      unfolding flip_def by simp metis
  qed
qed

subsection \<open>A concrete session\<close>

text \<open>
  Encryption that puts the key in front of the plaintext, and fields encoded with their lengths.
\<close>

definition seal_prefix :: "bytes \<Rightarrow> bytes \<Rightarrow> bytes option" where
  "seal_prefix key plain = Some (key @ plain)"

definition open_prefix :: "bytes \<Rightarrow> bytes \<Rightarrow> bytes option" where
  "open_prefix key c = (if take (length key) c = key then Some (drop (length key) c) else None)"

definition encode_plain :: "two_party_plaintext \<Rightarrow> bytes option" where
  "encode_plain m =
     (if length (pt_receiver_new_secret m) < 256 \<and> length (pt_sender_new_verifying_key m) < 256 \<and>
         unat (pt_sender_next_index m) < 256
      then Some (of_nat (length (pt_receiver_new_secret m)) # of_nat (length (pt_sender_new_verifying_key m)) #
        of_nat (unat (pt_sender_next_index m)) #
        pt_receiver_new_secret m @ pt_sender_new_verifying_key m @ pt_plaintext m)
      else None)"

fun decode_plain :: "bytes \<Rightarrow> two_party_plaintext option" where
  "decode_plain (a # b # i # bs) =
     Some \<lparr>pt_plaintext = drop (unat a + unat b) bs, pt_receiver_new_secret = take (unat a) bs,
           pt_sender_new_verifying_key = take (unat b) (drop (unat a) bs), pt_sender_next_index = of_nat (unat i)\<rparr>"
| "decode_plain _ = None"

definition prefix_party :: party_api where
  "prefix_party =
     \<lparr>pa_curve = sum_curve, pa_hkdf = (\<lambda>salt ikm info n. Some (take n ikm)),
      pa_aead_encrypt = (\<lambda>key plain nonce ad. seal_prefix key plain),
      pa_aead_decrypt = (\<lambda>key c nonce ad. open_prefix key c),
      pa_hpke_seal = (\<lambda>pk plain seed. seal_prefix pk plain), pa_hpke_open = (\<lambda>c sk. open_prefix sk c),
      pa_encode = encode_plain, pa_decode = decode_plain\<rparr>"

lemma prefix_party_ok: "party_ok prefix_party"
proof -
  have index: "ucast (ucast i :: u8) = i" if "unat i < 256" for i :: u64
    using that by (simp add: word_unat_eq_iff unsigned_ucast_eq unsigned_take_bit_eq take_bit_nat_eq_self)
  have "decode_plain bs = Some m" if "encode_plain m = Some bs" for m bs
    using that by (auto simp: encode_plain_def unat_of_nat index split: if_splits)
  then show ?thesis
    by (auto simp: party_ok_def prefix_party_def sum_curve_ok seal_prefix_def open_prefix_def)
      (simp_all add: sum_curve_def)
qed

definition example_randomness :: randomness where
  "example_randomness = \<lparr>rd_our_secret = [3], rd_their_secret = [4], rd_ephemeral = [5], rd_seed = []\<rparr>"

definition example_send :: "tp_side \<Rightarrow> bytes \<Rightarrow> tp_side \<times> (two_party_message \<times> bytes)" where
  "example_send side plaintext =
     (case two_party_send prefix_party 15 (sd_state side) (sd_manager side) plaintext example_randomness of
        Inr (y, m) \<Rightarrow> (side\<lparr>sd_state := y\<rparr>, (m, plaintext)))"

definition example_start :: tp_session where
  "example_start =
     (case generate_onetime_bundle sum_curve 15 example_manager [6] of
        Some (Inr (manager, b)) \<Rightarrow>
          \<lparr>sx_a = \<lparr>sd_state = init_to_send b, sd_manager = km_init sum_curve [7]\<rparr>,
           sx_b = \<lparr>sd_state = init_to_receive, sd_manager = manager\<rparr>, sx_ab = [], sx_ba = []\<rparr>)"

definition example_sent :: tp_session where
  "example_sent =
     (let (side, entry) = example_send (sx_a example_start) [8] in example_start\<lparr>sx_a := side, sx_ab := [entry]\<rparr>)"

definition example_received :: tp_session where
  "example_received =
     (case two_party_receive prefix_party (sd_state (sx_b example_sent)) (sd_manager (sx_b example_sent))
         (fst (hd (sx_ab example_sent))) of
        Inr (y, manager, _) \<Rightarrow> example_sent\<lparr>sx_b := \<lparr>sd_state = y, sd_manager = manager\<rparr>, sx_ab := []\<rparr>)"

definition example_replied :: tp_session where
  "example_replied =
     (let (side, entry) = example_send (sx_b example_received) [9] in example_received\<lparr>sx_b := side, sx_ba := [entry]\<rparr>)"

lemma example_start_ok: "session_start prefix_party example_start"
proof -
  let ?b = "the (tp_their_prekey_bundle (sd_state (sx_a example_start)))" and ?my = "sd_manager (sx_b example_start)"
  have "kb_identity_key ?b = cv_public sum_curve (km_identity_secret ?my)"
    "prekey_secret ?my (pk_key (kb_signed_prekey ?b)) = Inr [2]" "pk_key (kb_signed_prekey ?b) = cv_public sum_curve [2]"
    "kb_onetime_prekey ?b = Some \<lparr>ok_key = cv_public sum_curve [6], ok_id = 0\<rparr>"
    "map_of (km_onetime_secrets ?my) 0 = Some ([2], [6])"
    by code_simp+
  then have "bundle_matches sum_curve ?my ?b"
    by (simp add: bundle_matches_def)
  moreover have "sd_state (sx_a example_start) = init_to_send ?b" "sd_state (sx_b example_start) = init_to_receive"
    "sx_ab example_start = []" "sx_ba example_start = []"
    by code_simp+
  ultimately show ?thesis
    unfolding session_start_def by (auto simp: prefix_party_def)
qed

lemma example_steps: "(two_party_step prefix_party ^^ 3) example_start example_replied"
proof -
  have "two_party_step prefix_party example_start
      (example_start\<lparr>sx_a := (sx_a example_start)\<lparr>sd_state := sd_state (sx_a example_sent)\<rparr>,
        sx_ab := sx_ab example_start @ [(fst (hd (sx_ab example_sent)), [8])]\<rparr>)"
    by (rule two_party_step.send_a[where now = 15 and rnd = example_randomness]) code_simp
  moreover have "example_start\<lparr>sx_a := (sx_a example_start)\<lparr>sd_state := sd_state (sx_a example_sent)\<rparr>,
        sx_ab := sx_ab example_start @ [(fst (hd (sx_ab example_sent)), [8])]\<rparr> = example_sent"
    by code_simp
  moreover have "two_party_step prefix_party example_sent
      (example_sent\<lparr>sx_b := \<lparr>sd_state = sd_state (sx_b example_received), sd_manager = sd_manager (sx_b example_received)\<rparr>, sx_ab := []\<rparr>)"
    by (rule two_party_step.receive_b[where m = "fst (hd (sx_ab example_sent))" and plaintext = "[8]" and received = "[8]"]; code_simp)
  moreover have "example_sent\<lparr>sx_b := \<lparr>sd_state = sd_state (sx_b example_received), sd_manager = sd_manager (sx_b example_received)\<rparr>, sx_ab := []\<rparr> =
      example_received"
    by code_simp
  moreover have "two_party_step prefix_party example_received
      (example_received\<lparr>sx_b := (sx_b example_received)\<lparr>sd_state := sd_state (sx_b example_replied)\<rparr>,
        sx_ba := sx_ba example_received @ [(fst (hd (sx_ba example_replied)), [9])]\<rparr>)"
    by (rule two_party_step.send_b[where now = 15 and rnd = example_randomness]) code_simp
  moreover have "example_received\<lparr>sx_b := (sx_b example_received)\<lparr>sd_state := sd_state (sx_b example_replied)\<rparr>,
        sx_ba := sx_ba example_received @ [(fst (hd (sx_ba example_replied)), [9])]\<rparr> = example_replied"
    by code_simp
  ultimately show ?thesis
    by (auto simp: numeral_3_eq_3)
qed

theorem two_party_messages_decrypt_witness:
  "\<exists>m y manager. sx_ba example_replied = [(m, [9])] \<and>
     two_party_receive prefix_party (sd_state (sx_a example_replied)) (sd_manager (sx_a example_replied)) m =
       Inr (y, manager, [9])"
proof -
  have queue: "sx_ba example_replied = [(fst (hd (sx_ba example_replied)), [9])]"
    by code_simp
  show ?thesis
    using two_party_messages_decrypt[OF prefix_party_ok example_start_ok example_steps] queue by fastforce
qed

end
