(* ===== verification/Encryption_Secrets.thy ===== *)
theory Encryption_Secrets
  imports Prelude
begin

section \<open>Group secrets of the data scheme\<close>

text \<open>
  \<open>p2panda-encryption/src/data_scheme/group_secret.rs\<close>: the secrets a group has used to encrypt its data,
  with the latest of them. SHA-256 is the argument \<open>sha\<close>; random bytes and the current time are arguments of
  the operations that draw them. The iteration order of the hash map is the order of the list, over which
  the lemmas quantify. A bundle is serialized as the list of its secrets; the bytes of the encoding
  are not modelled.
\<close>

definition SHA256_DIGEST_SIZE :: nat where
  "SHA256_DIGEST_SIZE = 32"

type_synonym group_secret_id = bytes

record group_secret =
  gs_secret :: bytes
  gs_timestamp :: u64

definition secret_id :: "(bytes \<Rightarrow> bytes) \<Rightarrow> group_secret \<Rightarrow> group_secret_id" where
  "secret_id sha s = sha (gs_secret s)"

definition set_timestamp :: "group_secret \<Rightarrow> u64 \<Rightarrow> group_secret" where
  "set_timestamp s timestamp = s\<lparr>gs_timestamp := timestamp\<rparr>"

definition secret_from_bytes :: "bytes \<Rightarrow> u64 \<Rightarrow> group_secret" where
  "secret_from_bytes bytes now = \<lparr>gs_secret = bytes, gs_timestamp = now\<rparr>"

record secret_bundle =
  sb_secrets :: "(group_secret_id, group_secret) amap"
  sb_latest :: "group_secret_id option"

definition bundle_latest :: "secret_bundle \<Rightarrow> group_secret option" where
  "bundle_latest y = (case sb_latest y of None \<Rightarrow> None | Some i \<Rightarrow> map_of (sb_secrets y) i)"

definition bundle_get :: "secret_bundle \<Rightarrow> group_secret_id \<Rightarrow> group_secret option" where
  "bundle_get y i = map_of (sb_secrets y) i"

definition bundle_contains :: "secret_bundle \<Rightarrow> group_secret_id \<Rightarrow> bool" where
  "bundle_contains y i \<longleftrightarrow> map_of (sb_secrets y) i \<noteq> None"

definition bundle_len :: "secret_bundle \<Rightarrow> nat" where
  "bundle_len y = length (sb_secrets y)"

definition bundle_is_empty :: "secret_bundle \<Rightarrow> bool" where
  "bundle_is_empty y \<longleftrightarrow> sb_secrets y = []"

definition latest_step :: "group_secret_id \<times> group_secret \<Rightarrow> u64 \<times> group_secret_id option \<Rightarrow> u64 \<times> group_secret_id option" where
  "latest_step entry acc =
     (case (entry, acc) of ((i, secret), (latest_timestamp, latest_secret_id)) \<Rightarrow>
        let timestamp = gs_timestamp secret
        in if latest_timestamp < timestamp \<or>
              latest_timestamp = timestamp \<and>
              ord_class.lexordp (case latest_secret_id of None \<Rightarrow> replicate SHA256_DIGEST_SIZE 0 | Some l \<Rightarrow> l) i
           then (timestamp, Some i) else (latest_timestamp, latest_secret_id))"

definition find_latest :: "(group_secret_id, group_secret) amap \<Rightarrow> group_secret_id option" where
  "find_latest secrets = snd (fold latest_step secrets (0, None))"

definition bundle_of :: "(group_secret_id, group_secret) amap \<Rightarrow> secret_bundle" where
  "bundle_of secrets = \<lparr>sb_secrets = secrets, sb_latest = find_latest secrets\<rparr>"

definition bundle_init :: secret_bundle where
  "bundle_init = \<lparr>sb_secrets = [], sb_latest = None\<rparr>"

definition from_secrets :: "(bytes \<Rightarrow> bytes) \<Rightarrow> group_secret list \<Rightarrow> secret_bundle" where
  "from_secrets sha secrets = bundle_of (fold (\<lambda>s. amap_insert (secret_id sha s) s) secrets [])"

definition bundle_serialize :: "secret_bundle \<Rightarrow> group_secret list" where
  "bundle_serialize y = map snd (sb_secrets y)"

definition bundle_generate :: "secret_bundle \<Rightarrow> bytes \<Rightarrow> u64 \<Rightarrow> group_secret" where
  "bundle_generate y random_bytes now =
     (let secret = secret_from_bytes random_bytes now;
          latest_timestamp = (case bundle_latest y of None \<Rightarrow> 0 | Some latest \<Rightarrow> gs_timestamp latest)
      in if gs_timestamp secret \<le> latest_timestamp then set_timestamp secret (latest_timestamp + 1) else secret)"

definition bundle_insert :: "(bytes \<Rightarrow> bytes) \<Rightarrow> secret_bundle \<Rightarrow> group_secret \<Rightarrow> secret_bundle" where
  "bundle_insert sha y secret = bundle_of (amap_insert (secret_id sha secret) secret (sb_secrets y))"

definition bundle_remove :: "secret_bundle \<Rightarrow> group_secret_id \<Rightarrow> secret_bundle \<times> group_secret option" where
  "bundle_remove y i = (bundle_of (amap_remove i (sb_secrets y)), map_of (sb_secrets y) i)"

definition bundle_extend :: "secret_bundle \<Rightarrow> secret_bundle \<Rightarrow> secret_bundle" where
  "bundle_extend y other = bundle_of (fold (\<lambda>(i, s). amap_insert i s) (sb_secrets other) (sb_secrets y))"

subsection \<open>The latest secret\<close>

definition newer_secret :: "u64 \<Rightarrow> group_secret_id \<Rightarrow> u64 \<Rightarrow> group_secret_id \<Rightarrow> bool" where
  "newer_secret t i t' i' \<longleftrightarrow> t' < t \<or> t' = t \<and> ord_class.lexordp i' i"

definition is_latest :: "(group_secret_id, group_secret) amap \<Rightarrow> group_secret_id option \<Rightarrow> bool" where
  "is_latest secrets latest \<longleftrightarrow>
     (case latest of
        None \<Rightarrow> (\<forall>(i, s) \<in> set secrets. gs_timestamp s = 0 \<and> i = replicate SHA256_DIGEST_SIZE 0)
      | Some i \<Rightarrow>
          (\<exists>s. (i, s) \<in> set secrets \<and>
             (\<forall>(j, t) \<in> set secrets. j = i \<or> newer_secret (gs_timestamp s) i (gs_timestamp t) j)))"

definition bundle_wf :: "(bytes \<Rightarrow> bytes) \<Rightarrow> secret_bundle \<Rightarrow> bool" where
  "bundle_wf sha y \<longleftrightarrow>
     amap_wf (sb_secrets y) \<and> list_all (\<lambda>(i, s). i = secret_id sha s) (sb_secrets y) \<and>
     sb_latest y = find_latest (sb_secrets y) \<and> is_latest (sb_secrets y) (sb_latest y)"

lemma newer_secret_trans: "newer_secret t i t' i' \<Longrightarrow> newer_secret t' i' t'' i'' \<Longrightarrow> newer_secret t i t'' i''"
  by (auto simp: newer_secret_def intro: lexordp_trans)

lemma newer_secret_linear: "newer_secret t i t' i' \<or> (t = t' \<and> i = i') \<or> newer_secret t' i' t i"
  using lexordp_linear[of i i'] by (auto simp: newer_secret_def)

lemma replicate_zero_least: "length i = n \<Longrightarrow> ord_class.lexordp (replicate n (0 :: u8)) i \<or> i = replicate n 0"
proof (induction n arbitrary: i)
  case (Suc n)
  then show ?case
    by (cases i) (auto simp: word_gt_0)
qed simp

lemma is_latest_SomeI:
  assumes "(i, s) \<in> set secrets" "\<And>j t. (j, t) \<in> set secrets \<Longrightarrow> j = i \<or> newer_secret (gs_timestamp s) i (gs_timestamp t) j"
  shows "is_latest secrets (Some i)"
  using assms unfolding is_latest_def option.case by blast

lemma find_latest_step:
  assumes "length i = SHA256_DIGEST_SIZE"
    and "\<forall>(j, t) \<in> set seen. length j = SHA256_DIGEST_SIZE" "i \<notin> fst ` set seen"
    and "case acc of (ts, None) \<Rightarrow> ts = 0 \<and> is_latest seen None
      | (ts, Some l) \<Rightarrow> is_latest seen (Some l) \<and> (\<forall>s. (l, s) \<in> set seen \<longrightarrow> gs_timestamp s = ts)"
    and "amap_wf seen"
  shows "case latest_step (i, s) acc of (ts, None) \<Rightarrow> ts = 0 \<and> is_latest (seen @ [(i, s)]) None
      | (ts, Some l) \<Rightarrow> is_latest (seen @ [(i, s)]) (Some l) \<and>
          (\<forall>s'. (l, s') \<in> set (seen @ [(i, s)]) \<longrightarrow> gs_timestamp s' = ts)"
proof -
  obtain ts latest where acc: "acc = (ts, latest)" by (cases acc)
  show ?thesis
  proof (cases latest)
    case None
    then have seen: "ts = 0" "is_latest seen None"
      using assms(4) by (auto simp: acc)
    show ?thesis
    proof (cases "0 < gs_timestamp s \<or> ord_class.lexordp (replicate SHA256_DIGEST_SIZE 0) i")
      case True
      have "newer_secret (gs_timestamp s) i (gs_timestamp t) j" if "(j, t) \<in> set seen" for j t
        using seen(2) that True by (auto simp: is_latest_def newer_secret_def word_gt_0)
      then have "is_latest (seen @ [(i, s)]) (Some i)"
        by (intro is_latest_SomeI[of _ s]) auto
      moreover have "latest_step (i, s) acc = (gs_timestamp s, Some i)"
        using True seen(1) by (auto simp: acc None latest_step_def Let_def word_gt_0)
      ultimately show ?thesis
        using assms(3) by (auto simp: image_iff)
    next
      case False
      then have "gs_timestamp s = 0" "i = replicate SHA256_DIGEST_SIZE 0"
        using replicate_zero_least[OF assms(1)] by (auto simp: word_gt_0)
      with False seen show ?thesis
        by (auto simp: acc None latest_step_def Let_def is_latest_def)
    qed
  next
    case (Some l)
    then obtain sl where sl: "(l, sl) \<in> set seen" "gs_timestamp sl = ts"
      "\<And>j t. (j, t) \<in> set seen \<Longrightarrow> j = l \<or> newer_secret ts l (gs_timestamp t) j"
      using assms(4) by (fastforce simp: acc is_latest_def)
    have same: "t = sl" if "(l, t) \<in> set seen" for t
      using assms(5) that sl(1) by (simp add: amap_mem_iff)
    show ?thesis
    proof (cases "newer_secret (gs_timestamp s) i ts l")
      case True
      have "newer_secret (gs_timestamp s) i (gs_timestamp t) j" if "(j, t) \<in> set seen" for j t
        using sl(2) sl(3)[OF that] same that True newer_secret_trans by blast
      then have "is_latest (seen @ [(i, s)]) (Some i)"
        by (intro is_latest_SomeI[of _ s]) auto
      moreover have "latest_step (i, s) acc = (gs_timestamp s, Some i)"
        using True by (auto simp: acc Some latest_step_def Let_def newer_secret_def)
      ultimately show ?thesis
        using assms(3) by (auto simp: image_iff)
    next
      case False
      have "l \<noteq> i"
        using sl(1) assms(3) by force
      with False have "newer_secret ts l (gs_timestamp s) i"
        using newer_secret_linear[of ts l "gs_timestamp s" i] by blast
      then have "is_latest (seen @ [(i, s)]) (Some l)"
        using sl by (intro is_latest_SomeI[of _ sl]) auto
      moreover have "latest_step (i, s) acc = (ts, Some l)"
        using False by (auto simp: acc Some latest_step_def Let_def newer_secret_def)
      ultimately show ?thesis
        using \<open>l \<noteq> i\<close> same sl(2) by auto
    qed
  qed
qed

lemma find_latest_correct:
  assumes "amap_wf secrets" "\<And>i s. (i, s) \<in> set secrets \<Longrightarrow> length i = SHA256_DIGEST_SIZE"
  shows "is_latest secrets (find_latest secrets)"
proof -
  have "case fold latest_step secrets (0, None) of (ts, None) \<Rightarrow> ts = 0 \<and> is_latest secrets None
      | (ts, Some l) \<Rightarrow> is_latest secrets (Some l) \<and> (\<forall>s. (l, s) \<in> set secrets \<longrightarrow> gs_timestamp s = ts)"
    using assms
  proof (induction secrets rule: rev_induct)
    case Nil
    then show ?case by (simp add: is_latest_def)
  next
    case (snoc e secrets)
    obtain i s where e: "e = (i, s)" by (cases e)
    have wf: "amap_wf secrets" "i \<notin> fst ` set secrets"
      using snoc.prems(1) by (auto simp: e amap_wf_def)
    have len: "length i = SHA256_DIGEST_SIZE" "\<forall>(j, t) \<in> set secrets. length j = SHA256_DIGEST_SIZE"
      using snoc.prems(2) by (auto simp: e)
    have "case fold latest_step secrets (0, None) of (ts, None) \<Rightarrow> ts = 0 \<and> is_latest secrets None
        | (ts, Some l) \<Rightarrow> is_latest secrets (Some l) \<and> (\<forall>s. (l, s) \<in> set secrets \<longrightarrow> gs_timestamp s = ts)"
      by (rule snoc.IH[OF wf(1)]) (use snoc.prems(2) in auto)
    from find_latest_step[OF len wf(2) this wf(1), of s] show ?case
      unfolding e by simp
  qed
  then show ?thesis
    by (auto simp: find_latest_def split: prod.splits option.splits)
qed

subsection \<open>Every operation keeps bundles well-formed\<close>

definition sha_ok :: "(bytes \<Rightarrow> bytes) \<Rightarrow> bool" where
  "sha_ok sha \<longleftrightarrow> (\<forall>bs. length (sha bs) = SHA256_DIGEST_SIZE)"

definition ids_ok :: "(bytes \<Rightarrow> bytes) \<Rightarrow> (group_secret_id, group_secret) amap \<Rightarrow> bool" where
  "ids_ok sha secrets \<longleftrightarrow> amap_wf secrets \<and> (\<forall>i s. map_of secrets i = Some s \<longrightarrow> i = secret_id sha s)"

lemma ids_ok_insert: "ids_ok sha secrets \<Longrightarrow> i = secret_id sha s \<Longrightarrow> ids_ok sha (amap_insert i s secrets)"
  by (simp add: ids_ok_def)

lemma ids_ok_remove: "ids_ok sha secrets \<Longrightarrow> ids_ok sha (amap_remove i secrets)"
  by (simp add: ids_ok_def)

lemma ids_ok_mem: "ids_ok sha secrets \<Longrightarrow> (i, s) \<in> set secrets \<Longrightarrow> i = secret_id sha s"
  by (auto simp: ids_ok_def amap_mem_iff)

lemma bundle_of_wf:
  assumes "sha_ok sha" "ids_ok sha secrets"
  shows "bundle_wf sha (bundle_of secrets)"
proof -
  have "list_all (\<lambda>(i, s). i = secret_id sha s) secrets"
    using ids_ok_mem[OF assms(2)] by (auto simp: list_all_iff)
  moreover have "is_latest secrets (find_latest secrets)"
    using assms ids_ok_mem[OF assms(2)]
    by (intro find_latest_correct) (auto simp: ids_ok_def sha_ok_def secret_id_def)
  ultimately show ?thesis
    using assms(2) by (simp add: bundle_wf_def bundle_of_def ids_ok_def)
qed

lemma bundle_wf_ids: "bundle_wf sha y \<Longrightarrow> ids_ok sha (sb_secrets y)"
  by (auto simp: bundle_wf_def ids_ok_def list_all_iff amap_mem_iff dest: map_of_SomeD)

lemma ids_ok_from_secrets: "ids_ok sha acc \<Longrightarrow> ids_ok sha (fold (\<lambda>s. amap_insert (secret_id sha s) s) secrets acc)"
  by (induction secrets arbitrary: acc) (simp_all add: ids_ok_insert)

lemma ids_ok_extend:
  assumes "list_all (\<lambda>(i, s). i = secret_id sha s) others" "ids_ok sha acc"
  shows "ids_ok sha (fold (\<lambda>(i, s). amap_insert i s) others acc)"
  using assms by (induction others arbitrary: acc) (auto simp: ids_ok_insert)

lemma from_secrets_serialize:
  assumes "amap_wf (acc @ secrets)" "list_all (\<lambda>(i, s). i = secret_id sha s) secrets"
  shows "fold (\<lambda>s. amap_insert (secret_id sha s) s) (map snd secrets) acc = acc @ secrets"
  using assms
proof (induction secrets arbitrary: acc)
  case (Cons e secrets)
  obtain i s where e: "e = (i, s)" by (cases e)
  have i: "i = secret_id sha s" "i \<notin> fst ` set acc"
    using Cons.prems by (auto simp: e amap_wf_def)
  have "amap_insert i s acc = acc @ [(i, s)]"
    using i(2) by (induction acc) (auto simp: amap_insert_def)
  with i Cons show ?case
    by (simp add: e)
qed simp

text \<open>
  C39. Secret bundles stay well-formed: the ids are distinct and each is the digest of its secret, and the
  latest secret is the one with the greatest pair of timestamp and id, whatever the iteration order of the map. This
  holds for the empty bundle, for a bundle made from any list of secrets, and after inserting, removing and
  merging. Deserializing the serialized bundle gives the bundle back.
\<close>
theorem secret_bundle_wf:
  assumes "sha_ok sha" "bundle_wf sha y" "bundle_wf sha z"
  shows "bundle_wf sha bundle_init \<and> bundle_wf sha (from_secrets sha secrets) \<and> bundle_wf sha (bundle_insert sha y s) \<and>
    bundle_wf sha (fst (bundle_remove y i)) \<and> bundle_wf sha (bundle_extend y z) \<and>
    from_secrets sha (bundle_serialize y) = y"
proof (intro conjI)
  note ids = bundle_wf_ids[OF assms(2)] bundle_wf_ids[OF assms(3)]
  have nil: "ids_ok sha []"
    by (simp add: ids_ok_def)
  show "bundle_wf sha bundle_init"
    by (simp add: bundle_wf_def bundle_init_def find_latest_def is_latest_def)
  show "bundle_wf sha (from_secrets sha secrets)"
    unfolding from_secrets_def using assms(1) nil by (intro bundle_of_wf ids_ok_from_secrets)
  show "bundle_wf sha (bundle_insert sha y s)"
    unfolding bundle_insert_def using assms(1) ids(1) by (intro bundle_of_wf ids_ok_insert refl)
  show "bundle_wf sha (fst (bundle_remove y i))"
    unfolding bundle_remove_def fst_conv using assms(1) ids(1) by (intro bundle_of_wf ids_ok_remove)
  have "list_all (\<lambda>(i, s). i = secret_id sha s) (sb_secrets z)"
    using assms(3) by (simp add: bundle_wf_def)
  then show "bundle_wf sha (bundle_extend y z)"
    unfolding bundle_extend_def using assms(1) ids(1) by (intro bundle_of_wf ids_ok_extend)
  show "from_secrets sha (bundle_serialize y) = y"
    using assms(2) from_secrets_serialize[of "[]" "sb_secrets y" sha]
    by (simp add: from_secrets_def bundle_serialize_def bundle_wf_def bundle_of_def)
qed

definition pad_digest :: "bytes \<Rightarrow> bytes" where
  "pad_digest bs = take SHA256_DIGEST_SIZE (bs @ replicate SHA256_DIGEST_SIZE 1)"

lemma sha_ok_pad_digest: "sha_ok pad_digest"
  by (auto simp: sha_ok_def pad_digest_def min_def)

lemma pad_digest_neq: "pad_digest [1] \<noteq> pad_digest [2]"
proof
  assume "pad_digest [1] = pad_digest [2]"
  then have "hd (pad_digest [1]) = hd (pad_digest [2])" by simp
  then show False
    by (simp add: pad_digest_def SHA256_DIGEST_SIZE_def)
qed

lemma bundle_wf_init: "bundle_wf sha bundle_init"
  by (simp add: bundle_wf_def bundle_init_def find_latest_def is_latest_def)

theorem secret_bundle_wf_witness:
  "bundle_wf pad_digest (from_secrets pad_digest [secret_from_bytes [1] 5, secret_from_bytes [2] 4]) \<and>
   sb_latest (from_secrets pad_digest [secret_from_bytes [1] 5, secret_from_bytes [2] 4]) = Some (pad_digest [1])"
proof -
  have "bundle_wf pad_digest (from_secrets pad_digest [secret_from_bytes [1] 5, secret_from_bytes [2] 4])"
    using secret_bundle_wf[OF sha_ok_pad_digest bundle_wf_init bundle_wf_init] by blast
  moreover have "sb_latest (from_secrets pad_digest [secret_from_bytes [1] 5, secret_from_bytes [2] 4]) = Some (pad_digest [1])"
    using pad_digest_neq
    by (simp add: from_secrets_def bundle_of_def find_latest_def latest_step_def secret_id_def secret_from_bytes_def
        amap_insert_def)
  ultimately show ?thesis by blast
qed

subsection \<open>A generated secret is the latest\<close>

lemma u64_less_succ: "x \<noteq> - 1 \<Longrightarrow> x < x + 1" for x :: u64
proof -
  assume "x \<noteq> - 1"
  then have "1 + x \<noteq> 0"
    by (metis add.commute eq_neg_iff_add_eq_0)
  then show ?thesis
    by (simp add: word_less_nat_alt unatSuc add.commute)
qed

lemma bundle_wf_mem: "bundle_wf sha y \<Longrightarrow> (i, s) \<in> set (sb_secrets y) \<longleftrightarrow> map_of (sb_secrets y) i = Some s"
  by (simp add: bundle_wf_def amap_mem_iff)

lemma latest_timestamp_bound:
  assumes "bundle_wf sha y" "map_of (sb_secrets y) i = Some s"
  shows "gs_timestamp s \<le> (case bundle_latest y of None \<Rightarrow> 0 | Some latest \<Rightarrow> gs_timestamp latest)"
proof -
  have latest: "is_latest (sb_secrets y) (sb_latest y)"
    using assms(1) unfolding bundle_wf_def by blast
  have mem: "(i, s) \<in> set (sb_secrets y)"
    using assms(2) bundle_wf_mem[OF assms(1)] by simp
  show ?thesis
  proof (cases "sb_latest y")
    case None
    with latest mem show ?thesis
      by (auto simp: is_latest_def bundle_latest_def)
  next
    case (Some l)
    then obtain sl where sl: "(l, sl) \<in> set (sb_secrets y)" "i = l \<or> newer_secret (gs_timestamp sl) l (gs_timestamp s) i"
      using latest mem by (fastforce simp: is_latest_def)
    then have "map_of (sb_secrets y) l = Some sl"
      using bundle_wf_mem[OF assms(1)] by simp
    with sl(2) assms(2) Some show ?thesis
      by (auto simp: bundle_latest_def newer_secret_def)
  qed
qed

lemma bundle_latest_insert_newest:
  assumes "sha_ok sha" "bundle_wf sha y" "0 < gs_timestamp s"
    and "\<And>i t. map_of (sb_secrets y) i = Some t \<Longrightarrow> gs_timestamp t < gs_timestamp s"
  shows "bundle_latest (bundle_insert sha y s) = Some s"
proof -
  let ?y = "bundle_insert sha y s"
  have wf: "bundle_wf sha ?y"
    unfolding bundle_insert_def using assms(1) bundle_wf_ids[OF assms(2)] by (intro bundle_of_wf ids_ok_insert refl)
  have get: "map_of (sb_secrets ?y) = (map_of (sb_secrets y))(secret_id sha s \<mapsto> s)"
    by (simp add: bundle_insert_def bundle_of_def)
  have bound: "gs_timestamp s \<le> (case bundle_latest ?y of None \<Rightarrow> 0 | Some latest \<Rightarrow> gs_timestamp latest)"
    by (rule latest_timestamp_bound[OF wf, of "secret_id sha s"]) (simp add: get)
  then obtain l t where "sb_latest ?y = Some l" "map_of (sb_secrets ?y) l = Some t" "gs_timestamp s \<le> gs_timestamp t"
    using assms(3) by (auto simp: bundle_latest_def split: option.splits)
  then show ?thesis
    using assms(4)[of l t] by (auto simp: bundle_latest_def get split: if_splits)
qed

text \<open>
  A newly generated secret becomes the latest one, even when the clock is behind, unless the timestamp of the
  latest known secret is the greatest 64 bit number. In that case the increment wraps: the new secret gets timestamp 0
  and is not the latest after it is inserted.
\<close>
lemma generated_secret_latest:
  assumes "sha_ok sha" "bundle_wf sha y"
  shows "let secret = bundle_generate y random_bytes now; z = bundle_insert sha y secret
    in case bundle_latest y of
         None \<Rightarrow> bundle_latest z = Some secret
       | Some latest \<Rightarrow>
           if gs_timestamp latest \<noteq> - 1 then bundle_latest z = Some secret
           else gs_timestamp secret = 0 \<and> (sb_latest y \<noteq> Some (secret_id sha secret) \<longrightarrow> bundle_latest z \<noteq> Some secret)"
proof -
  define secret where "secret = bundle_generate y random_bytes now"
  define z where "z = bundle_insert sha y secret"
  define ts where "ts = (case bundle_latest y of None \<Rightarrow> 0 | Some latest \<Rightarrow> gs_timestamp latest)"
  have stamp: "gs_timestamp secret = (if now \<le> ts then ts + 1 else now)"
    by (simp add: secret_def bundle_generate_def ts_def[symmetric] Let_def secret_from_bytes_def set_timestamp_def)
  have new: "bundle_latest z = Some secret" if "ts \<noteq> - 1"
  proof -
    have "ts < gs_timestamp secret"
      using u64_less_succ[OF that] by (auto simp: stamp)
    then show ?thesis
      unfolding z_def using latest_timestamp_bound[OF assms(2)]
      by (intro bundle_latest_insert_newest[OF assms]) (auto simp: ts_def[symmetric] intro: le_less_trans word_coorder.not_eq_extremum[THEN iffD1])
  qed
  have old: "gs_timestamp secret = 0 \<and> (sb_latest y \<noteq> Some (secret_id sha secret) \<longrightarrow> bundle_latest z \<noteq> Some secret)"
    if latest: "bundle_latest y = Some latest" "gs_timestamp latest = - 1" for latest
  proof -
    have zero: "gs_timestamp secret = 0"
      using latest by (simp add: stamp ts_def)
    have "bundle_wf sha z"
      unfolding z_def bundle_insert_def using assms(1) bundle_wf_ids[OF assms(2)] by (intro bundle_of_wf ids_ok_insert refl)
    moreover obtain l where l: "sb_latest y = Some l" "map_of (sb_secrets y) l = Some latest"
      using latest(1) by (auto simp: bundle_latest_def split: option.splits)
    moreover have "map_of (sb_secrets z) l = Some latest" if "sb_latest y \<noteq> Some (secret_id sha secret)"
      using that l by (auto simp: z_def bundle_insert_def bundle_of_def)
    ultimately show ?thesis
      using latest_timestamp_bound[of sha z l latest] zero latest(2) by auto
  qed
  have none: "ts \<noteq> - 1" if "bundle_latest y = None"
    using that by (simp add: ts_def)
  show ?thesis
    unfolding Let_def secret_def[symmetric] z_def[symmetric] using new old none by (auto simp: ts_def split: option.splits)
qed

lemma generated_secret_latest_example:
  "bundle_latest (bundle_insert pad_digest bundle_init (bundle_generate bundle_init [7] 0)) =
     Some \<lparr>gs_secret = [7], gs_timestamp = 1\<rparr>"
proof -
  have none: "bundle_latest bundle_init = None"
    by (simp add: bundle_latest_def bundle_init_def)
  then have "bundle_generate bundle_init [7] 0 = \<lparr>gs_secret = [7], gs_timestamp = 1\<rparr>"
    by (simp add: bundle_generate_def secret_from_bytes_def set_timestamp_def)
  then show ?thesis
    using generated_secret_latest[OF sha_ok_pad_digest bundle_wf_init, of "[7]" 0] by (simp add: none Let_def)
qed

end
