(* ===== verification/Encryption_Dcgka.thy ===== *)
theory Encryption_Dcgka
  imports Encryption_Session Encryption_Secrets
begin

section \<open>Group key agreement of the data scheme\<close>

text \<open>
  \<open>p2panda-encryption/src/data_scheme/dcgka.rs\<close>: control messages with one encrypted direct message per recipient. The
  group membership algorithm is a trait; its methods are the fields of \<open>dgm_api\<close>. The registry and the
  key manager are those of \<open>key_registry.rs\<close> and \<open>key_manager.rs\<close>. The CBOR encodings of a secret and of a bundle of
  secrets are fields of \<open>secret_codec\<close>. The clock and the random bytes of each message, one value per recipient, are
  arguments.
\<close>

record ('id, 'op, 'd, 'e) dgm_api =
  gm_create :: "'id \<Rightarrow> 'id list \<Rightarrow> 'e + 'd"
  gm_from_welcome :: "'id \<Rightarrow> 'd \<Rightarrow> 'e + 'd"
  gm_add :: "'d \<Rightarrow> 'id \<Rightarrow> 'id \<Rightarrow> 'op \<Rightarrow> 'e + 'd"
  gm_remove :: "'d \<Rightarrow> 'id \<Rightarrow> 'id \<Rightarrow> 'op \<Rightarrow> 'e + 'd"
  gm_members :: "'d \<Rightarrow> 'e + 'id list"

record secret_codec =
  sc_encode_secret :: "group_secret \<Rightarrow> bytes option"
  sc_decode_secret :: "bytes \<Rightarrow> group_secret option"
  sc_encode_secrets :: "group_secret list \<Rightarrow> bytes option"
  sc_decode_secrets :: "bytes \<Rightarrow> group_secret list option"
  sc_sha :: "bytes \<Rightarrow> bytes"

record ('id, 'd) dcgka_state =
  dk_pki :: "'id key_registry"
  dk_my_keys :: key_manager
  dk_my_id :: 'id
  dk_two_party :: "('id, two_party_state) amap"
  dk_dgm :: 'd

datatype 'id control_message = Create "'id list" | Update | Remove 'id | Add 'id

datatype 'd direct_content = Welcome two_party_message 'd | TwoPartyContent two_party_message

record ('id, 'd) direct_message =
  dm_recipient :: 'id
  dm_content :: "'d direct_content"

datatype direct_type = WelcomeType | TwoPartyType

definition message_type :: "('id, 'd) direct_message \<Rightarrow> direct_type" where
  "message_type dm = (case dm_content dm of Welcome _ _ \<Rightarrow> WelcomeType | TwoPartyContent _ \<Rightarrow> TwoPartyType)"

record ('id, 'op, 'd) process_input =
  pi_seq :: 'op
  pi_sender :: 'id
  pi_control :: "'id control_message"
  pi_direct :: "('id, 'd) direct_message option"

datatype secret_output = NoSecret | NewSecret group_secret | NewBundle secret_bundle

record ('id, 'd) operation_output =
  oo_control :: "'id control_message"
  oo_directs :: "('id, 'd) direct_message list"

datatype ('id, 'e) dcgka_error =
    MissingDirectMessage direct_type
  | UnexpectedDirectMessageType direct_type direct_type
  | NotOurDirectMessage 'id 'id
  | GroupMembership 'e
  | DgmOperation 'e
  | PreKeyRegistry key_registry_error
  | MissingPreKeys 'id
  | GroupSecretCoding
  | TwoPartyError two_party_error

definition map_error :: "('e \<Rightarrow> 'f) \<Rightarrow> 'e + 'a \<Rightarrow> 'f + 'a" where
  "map_error f r = (case r of Inl e \<Rightarrow> Inl (f e) | Inr x \<Rightarrow> Inr x)"

definition dcgka_init :: "'id \<Rightarrow> key_manager \<Rightarrow> 'id key_registry \<Rightarrow> 'd \<Rightarrow> ('id, 'd) dcgka_state" where
  "dcgka_init my_id my_keys pki dgm =
     \<lparr>dk_pki = pki, dk_my_keys = my_keys, dk_my_id = my_id, dk_two_party = [], dk_dgm = dgm\<rparr>"

subsection \<open>Direct messages\<close>

definition session_to_send ::
  "u64 \<Rightarrow> ('id, 'd) dcgka_state \<Rightarrow> 'id \<Rightarrow> ('id, 'e) dcgka_error + ('id, 'd) dcgka_state \<times> two_party_state" where
  "session_to_send now y recipient =
     (case map_of (dk_two_party y) recipient of
        Some y_2sm \<Rightarrow> Inr (y\<lparr>dk_two_party := amap_remove recipient (dk_two_party y)\<rparr>, y_2sm)
      | None \<Rightarrow>
          bind_result (map_error PreKeyRegistry (longterm_bundle_of now (dk_pki y) recipient)) (\<lambda>(pki, prekey_bundle).
          bind_result (option_result (MissingPreKeys recipient) prekey_bundle) (\<lambda>prekey_bundle.
            Inr (y\<lparr>dk_pki := pki\<rparr>, init_to_send prekey_bundle))))"

definition encrypt_to ::
  "party_api \<Rightarrow> u64 \<Rightarrow> ('id, 'd) dcgka_state \<Rightarrow> 'id \<Rightarrow> bytes \<Rightarrow> randomness \<Rightarrow>
   ('id, 'e) dcgka_error + ('id, 'd) dcgka_state \<times> two_party_message" where
  "encrypt_to P now y recipient plaintext rnd =
     bind_result (session_to_send now y recipient) (\<lambda>(y, y_2sm).
     bind_result (map_error TwoPartyError (two_party_send P now y_2sm (dk_my_keys y) plaintext rnd)) (\<lambda>(y_2sm, ciphertext).
       Inr (y\<lparr>dk_two_party := amap_insert recipient y_2sm (dk_two_party y)\<rparr>, ciphertext)))"

definition decrypt_from ::
  "party_api \<Rightarrow> ('id, 'd) dcgka_state \<Rightarrow> 'id \<Rightarrow> two_party_message \<Rightarrow> ('id, 'e) dcgka_error + ('id, 'd) dcgka_state \<times> bytes" where
  "decrypt_from P y sender ciphertext =
     (let y_2sm = (case map_of (dk_two_party y) sender of Some y_2sm \<Rightarrow> y_2sm | None \<Rightarrow> init_to_receive);
          y = y\<lparr>dk_two_party := amap_remove sender (dk_two_party y)\<rparr>
      in bind_result (map_error TwoPartyError (two_party_receive P y_2sm (dk_my_keys y) ciphertext)) (\<lambda>(y_2sm, my_keys, plaintext).
           Inr (y\<lparr>dk_my_keys := my_keys, dk_two_party := amap_insert sender y_2sm (dk_two_party y)\<rparr>, plaintext)))"

fun send_group_secret ::
  "party_api \<Rightarrow> secret_codec \<Rightarrow> u64 \<Rightarrow> ('id, 'd) dcgka_state \<Rightarrow> 'id list \<Rightarrow> group_secret \<Rightarrow> ('id \<Rightarrow> randomness) \<Rightarrow>
   ('id, 'e) dcgka_error + ('id, 'd) dcgka_state \<times> ('id, 'd) direct_message list" where
  "send_group_secret P C now y [] group_secret rnd = Inr (y, [])"
| "send_group_secret P C now y (recipient # recipients) group_secret rnd =
     (if recipient = dk_my_id y then send_group_secret P C now y recipients group_secret rnd
      else bind_result (option_result GroupSecretCoding (sc_encode_secret C group_secret)) (\<lambda>bs.
           bind_result (encrypt_to P now y recipient bs (rnd recipient)) (\<lambda>(y, ciphertext).
           bind_result (send_group_secret P C now y recipients group_secret rnd) (\<lambda>(y, direct_messages).
             Inr (y, \<lparr>dm_recipient = recipient, dm_content = TwoPartyContent ciphertext\<rparr> # direct_messages)))))"

definition process_secret ::
  "party_api \<Rightarrow> secret_codec \<Rightarrow> ('id, 'd) dcgka_state \<Rightarrow> 'id \<Rightarrow> ('id, 'd) direct_message option \<Rightarrow>
   ('id, 'e) dcgka_error + ('id, 'd) dcgka_state \<times> secret_output" where
  "process_secret P C y sender direct_message =
     (case direct_message of
        None \<Rightarrow> Inr (y, NoSecret)
      | Some dm \<Rightarrow>
          (case dm_content dm of
             TwoPartyContent ciphertext \<Rightarrow>
               if dm_recipient dm \<noteq> dk_my_id y then Inl (NotOurDirectMessage (dk_my_id y) (dm_recipient dm))
               else bind_result (decrypt_from P y sender ciphertext) (\<lambda>(y, plaintext).
                    bind_result (option_result GroupSecretCoding (sc_decode_secret C plaintext)) (\<lambda>group_secret.
                      Inr (y, NewSecret group_secret)))
           | _ \<Rightarrow> Inl (UnexpectedDirectMessageType TwoPartyType (message_type dm))))"

definition dcgka_members :: "('id, 'op, 'd, 'e) dgm_api \<Rightarrow> ('id, 'd) dcgka_state \<Rightarrow> ('id, 'e) dcgka_error + 'id list" where
  "dcgka_members G y = map_error GroupMembership (gm_members G (dk_dgm y))"

subsection \<open>Operations\<close>

definition dcgka_create ::
  "party_api \<Rightarrow> secret_codec \<Rightarrow> u64 \<Rightarrow> ('id, 'd) dcgka_state \<Rightarrow> 'id list \<Rightarrow> group_secret \<Rightarrow> ('id \<Rightarrow> randomness) \<Rightarrow>
   ('id, 'e) dcgka_error + ('id, 'd) dcgka_state \<times> ('id, 'd) operation_output" where
  "dcgka_create P C now y initial_members group_secret rnd =
     (let initial_members = foldl (\<lambda>acc i. if i \<in> set acc then acc else acc @ [i]) [] initial_members;
          initial_members = (if dk_my_id y \<in> set initial_members then initial_members else initial_members @ [dk_my_id y])
      in bind_result (send_group_secret P C now y initial_members group_secret rnd) (\<lambda>(y, direct_messages).
           Inr (y, \<lparr>oo_control = Create initial_members, oo_directs = direct_messages\<rparr>)))"

definition dcgka_update ::
  "party_api \<Rightarrow> secret_codec \<Rightarrow> ('id, 'op, 'd, 'e) dgm_api \<Rightarrow> u64 \<Rightarrow> ('id, 'd) dcgka_state \<Rightarrow> group_secret \<Rightarrow> ('id \<Rightarrow> randomness) \<Rightarrow>
   ('id, 'e) dcgka_error + ('id, 'd) dcgka_state \<times> ('id, 'd) operation_output" where
  "dcgka_update P C G now y group_secret rnd =
     bind_result (dcgka_members G y) (\<lambda>members.
     bind_result (send_group_secret P C now y (filter (\<lambda>i. i \<noteq> dk_my_id y) members) group_secret rnd) (\<lambda>(y, direct_messages).
       Inr (y, \<lparr>oo_control = Update, oo_directs = direct_messages\<rparr>)))"

definition dcgka_remove ::
  "party_api \<Rightarrow> secret_codec \<Rightarrow> ('id, 'op, 'd, 'e) dgm_api \<Rightarrow> u64 \<Rightarrow> ('id, 'd) dcgka_state \<Rightarrow> 'id \<Rightarrow> group_secret \<Rightarrow>
   ('id \<Rightarrow> randomness) \<Rightarrow> ('id, 'e) dcgka_error + ('id, 'd) dcgka_state \<times> ('id, 'd) operation_output" where
  "dcgka_remove P C G now y removed group_secret rnd =
     bind_result (dcgka_members G y) (\<lambda>members.
     bind_result (send_group_secret P C now y (filter (\<lambda>i. i \<noteq> dk_my_id y \<and> i \<noteq> removed) members) group_secret rnd)
       (\<lambda>(y, direct_messages). Inr (y, \<lparr>oo_control = Remove removed, oo_directs = direct_messages\<rparr>)))"

definition dcgka_add ::
  "party_api \<Rightarrow> secret_codec \<Rightarrow> u64 \<Rightarrow> ('id, 'd) dcgka_state \<Rightarrow> 'id \<Rightarrow> secret_bundle \<Rightarrow> randomness \<Rightarrow>
   ('id, 'e) dcgka_error + ('id, 'd) dcgka_state \<times> ('id, 'd) operation_output" where
  "dcgka_add P C now y added bundle rnd =
     bind_result (option_result GroupSecretCoding (sc_encode_secrets C (bundle_serialize bundle))) (\<lambda>bundle_bytes.
     bind_result (encrypt_to P now y added bundle_bytes rnd) (\<lambda>(y, ciphertext).
       Inr (y, \<lparr>oo_control = Add added,
                oo_directs = [\<lparr>dm_recipient = added, dm_content = Welcome ciphertext (dk_dgm y)\<rparr>]\<rparr>)))"

subsection \<open>Processing\<close>

definition process_welcome ::
  "party_api \<Rightarrow> secret_codec \<Rightarrow> ('id, 'op, 'd, 'e) dgm_api \<Rightarrow> ('id, 'd) dcgka_state \<Rightarrow> 'id \<Rightarrow> two_party_message \<Rightarrow> 'd \<Rightarrow>
   ('id, 'e) dcgka_error + ('id, 'd) dcgka_state \<times> secret_output" where
  "process_welcome P C G y sender ciphertext history =
     bind_result (map_error DgmOperation (gm_from_welcome G (dk_my_id y) history)) (\<lambda>dgm.
     bind_result (decrypt_from P (y\<lparr>dk_dgm := dgm\<rparr>) sender ciphertext) (\<lambda>(y, plaintext).
     bind_result (option_result GroupSecretCoding (sc_decode_secrets C plaintext)) (\<lambda>secrets.
       Inr (y, NewBundle (from_secrets (sc_sha C) secrets)))))"

definition process_create ::
  "party_api \<Rightarrow> secret_codec \<Rightarrow> ('id, 'op, 'd, 'e) dgm_api \<Rightarrow> ('id, 'd) dcgka_state \<Rightarrow> 'id \<Rightarrow> 'id list \<Rightarrow>
   ('id, 'd) direct_message option \<Rightarrow> ('id, 'e) dcgka_error + ('id, 'd) dcgka_state \<times> secret_output" where
  "process_create P C G y sender initial_members direct_message =
     bind_result (map_error DgmOperation (gm_create G (dk_my_id y) initial_members)) (\<lambda>dgm.
       process_secret P C (y\<lparr>dk_dgm := dgm\<rparr>) sender direct_message)"

definition process_remove ::
  "party_api \<Rightarrow> secret_codec \<Rightarrow> ('id, 'op, 'd, 'e) dgm_api \<Rightarrow> ('id, 'd) dcgka_state \<Rightarrow> 'id \<Rightarrow> 'op \<Rightarrow> 'id \<Rightarrow>
   ('id, 'd) direct_message option \<Rightarrow> ('id, 'e) dcgka_error + ('id, 'd) dcgka_state \<times> secret_output" where
  "process_remove P C G y sender seq removed direct_message =
     bind_result (map_error DgmOperation (gm_remove G (dk_dgm y) sender removed seq)) (\<lambda>dgm.
       process_secret P C (y\<lparr>dk_dgm := dgm\<rparr>) sender direct_message)"

definition process_add ::
  "party_api \<Rightarrow> secret_codec \<Rightarrow> ('id, 'op, 'd, 'e) dgm_api \<Rightarrow> ('id, 'd) dcgka_state \<Rightarrow> 'id \<Rightarrow> 'op \<Rightarrow> 'id \<Rightarrow>
   ('id, 'd) direct_message option \<Rightarrow> ('id, 'e) dcgka_error + ('id, 'd) dcgka_state \<times> secret_output" where
  "process_add P C G y sender seq added direct_message =
     bind_result (map_error DgmOperation (gm_add G (dk_dgm y) sender added seq)) (\<lambda>dgm.
       let y = y\<lparr>dk_dgm := dgm\<rparr>
       in if added = dk_my_id y then
            (case direct_message of
               None \<Rightarrow> Inl (MissingDirectMessage WelcomeType)
             | Some dm \<Rightarrow>
                 (case dm_content dm of
                    Welcome ciphertext history \<Rightarrow>
                      if dm_recipient dm \<noteq> dk_my_id y then Inl (NotOurDirectMessage (dk_my_id y) (dm_recipient dm))
                      else process_welcome P C G y sender ciphertext history
                  | _ \<Rightarrow> Inl (UnexpectedDirectMessageType WelcomeType (message_type dm))))
          else Inr (y, NoSecret))"

definition dcgka_process ::
  "party_api \<Rightarrow> secret_codec \<Rightarrow> ('id, 'op, 'd, 'e) dgm_api \<Rightarrow> ('id, 'd) dcgka_state \<Rightarrow> ('id, 'op, 'd) process_input \<Rightarrow>
   ('id, 'e) dcgka_error + ('id, 'd) dcgka_state \<times> secret_output" where
  "dcgka_process P C G y input =
     (case pi_control input of
        Create initial_members \<Rightarrow> process_create P C G y (pi_sender input) initial_members (pi_direct input)
      | Update \<Rightarrow> process_secret P C y (pi_sender input) (pi_direct input)
      | Remove removed \<Rightarrow> process_remove P C G y (pi_sender input) (pi_seq input) removed (pi_direct input)
      | Add added \<Rightarrow> process_add P C G y (pi_sender input) (pi_seq input) added (pi_direct input))"

end
