(* ===== verification/Encryption_Network.thy ===== *)
theory Encryption_Network
  imports Encryption_Dcgka
begin

section \<open>Groups that exchange secrets\<close>

text \<open>
  Any number of members run the key agreement of the data scheme over ordered streams between each pair of them. A stream
  holds, next to each input for the receiver, the output its direct message was made for. The invariant keeps one
  two-party session per pair: \<open>pair_ok\<close> is \<open>dir_ok\<close> in both directions. Long-term bundles have no one-time pre-key, so the
  key managers do not change.
\<close>

subsection \<open>Sending one direct message\<close>

definition tp_of :: "('id, 'd) dcgka_state \<Rightarrow> 'id \<Rightarrow> two_party_state" where
  "tp_of y i = (case map_of (dk_two_party y) i of Some s \<Rightarrow> s | None \<Rightarrow> init_to_receive)"

definition without_onetime :: "two_party_message \<Rightarrow> bool" where
  "without_onetime m = (case tm_ciphertext m of PreKeyCiphertext c \<Rightarrow> xc_onetime_prekey_id c = None | _ \<Rightarrow> True)"

definition registry_ok :: "curve_api \<Rightarrow> 'id key_registry \<Rightarrow> 'id \<Rightarrow> key_manager \<Rightarrow> bool" where
  "registry_ok V pki i my \<longleftrightarrow>
     (\<forall>bs b. map_of (kr_longterm_bundles pki) i = Some bs \<longrightarrow> b \<in> set bs \<longrightarrow> kb_onetime_prekey b = None \<and> bundle_matches V my b)"

definition stored_ok :: "('id, 'd) dcgka_state \<Rightarrow> 'id \<Rightarrow> bool" where
  "stored_ok y i \<longleftrightarrow> (\<forall>s. map_of (dk_two_party y) i = Some s \<longrightarrow> tp_their_verifying_key s \<noteq> None)"

definition same_except :: "('id, 'd) dcgka_state \<Rightarrow> ('id, 'd) dcgka_state \<Rightarrow> 'id set \<Rightarrow> bool" where
  "same_except y y' Z \<longleftrightarrow>
     dk_my_id y' = dk_my_id y \<and> dk_my_keys y' = dk_my_keys y \<and> dk_pki y' = dk_pki y \<and>
     (\<forall>i. i \<notin> Z \<longrightarrow> map_of (dk_two_party y') i = map_of (dk_two_party y) i)"

definition session_for :: "u64 \<Rightarrow> ('id, 'd) dcgka_state \<Rightarrow> 'id \<Rightarrow> two_party_state option" where
  "session_for now y i =
     (case map_of (dk_two_party y) i of
        Some s \<Rightarrow> Some s
      | None \<Rightarrow> (case longterm_bundle_of now (dk_pki y) i of Inr (_, Some b) \<Rightarrow> Some (init_to_send b) | _ \<Rightarrow> None))"

definition sent_to ::
  "party_api \<Rightarrow> u64 \<Rightarrow> ('id, 'd) dcgka_state \<Rightarrow> ('id, 'd) dcgka_state \<Rightarrow> 'id \<Rightarrow> bytes \<Rightarrow> randomness \<Rightarrow> two_party_message \<Rightarrow> bool" where
  "sent_to P now y y' i bs rnd m \<longleftrightarrow>
     (\<exists>s s'. session_for now y i = Some s \<and> two_party_send P now s (dk_my_keys y) bs rnd = Inr (s', m) \<and>
        map_of (dk_two_party y') i = Some s')"

lemma map_error_simps [simp]: "map_error f (Inr x) = Inr x" "map_error f (Inl e) = Inl (f e)"
  by (simp_all add: map_error_def)

lemma map_error_eq_Inr [simp]: "map_error f r = Inr x \<longleftrightarrow> r = Inr x"
  by (cases r) (simp_all add: map_error_def)

lemma longterm_bundle_of_Inr:
  assumes "longterm_bundle_of now pki i = Inr (pki', Some b)"
  shows "pki' = pki" "\<exists>bs. map_of (kr_longterm_bundles pki) i = Some bs \<and> b \<in> set bs"
  using assms unfolding longterm_bundle_of_def latest_key_bundle_def
  by (auto simp: Let_def split: option.splits if_splits dest: latest_by_Some)

lemma encrypt_to_sent:
  fixes y :: "('id, 'd) dcgka_state"
  assumes "encrypt_to P now y i bs rnd = (Inr (y', m) :: ('id, 'e) dcgka_error + _)"
  shows "sent_to P now y y' i bs rnd m" "same_except y y' {i}" "dk_dgm y' = dk_dgm y"
proof -
  obtain y0 s s' where s: "session_to_send now y i = (Inr (y0, s) :: ('id, 'e) dcgka_error + _)"
      "two_party_send P now s (dk_my_keys y0) bs rnd = Inr (s', m)"
      "y' = y0\<lparr>dk_two_party := amap_insert i s' (dk_two_party y0)\<rparr>"
    using assms by (auto simp: encrypt_to_def bind_result_eq_Inr)
  have y0: "dk_my_keys y0 = dk_my_keys y" "dk_my_id y0 = dk_my_id y" "dk_pki y0 = dk_pki y" "dk_dgm y0 = dk_dgm y"
    "\<And>j. j \<noteq> i \<Longrightarrow> map_of (dk_two_party y0) j = map_of (dk_two_party y) j" "session_for now y i = Some s"
    using s(1) longterm_bundle_of_Inr(1)[of now "dk_pki y" i]
    by (auto simp: session_to_send_def session_for_def bind_result_eq_Inr split: option.splits)
  show "sent_to P now y y' i bs rnd m" "same_except y y' {i}" "dk_dgm y' = dk_dgm y"
    using s y0 by (auto simp: sent_to_def same_except_def)
qed

lemma two_party_send_without_onetime:
  assumes "two_party_send P now s mx bs rnd = Inr (s', m)"
    and "tp_their_verifying_key s = None \<Longrightarrow> \<exists>b. tp_their_prekey_bundle s = Some b \<and> kb_onetime_prekey b = None"
  shows "without_onetime m" "tp_their_verifying_key s' \<noteq> None"
  using assms
  by (auto simp: without_onetime_def x3dh_encrypt_def Let_def bind_result_eq_Inr split: sum.splits elim!: two_party_sendE)

lemma dir_ok_init_to_send:
  assumes "bundle_matches (pa_curve P) my b"
  shows "dir_ok P init_to_receive y my es fs \<Longrightarrow> dir_ok P (init_to_send b) y my es fs"
    "dir_ok P y init_to_receive mx fs es \<Longrightarrow> dir_ok P y (init_to_send b) mx fs es"
proof -
  have refs: "refs_ok P (init_to_send b) = refs_ok P init_to_receive"
    by (intro ext refs_ok_cong) (simp_all add: init_to_send_def init_to_receive_def)
  show "dir_ok P init_to_receive y my es fs \<Longrightarrow> dir_ok P (init_to_send b) y my es fs"
    using assms by (auto simp: dir_ok_def next_ok_def next_ref_def init_to_send_def init_to_receive_def)
  show "dir_ok P y init_to_receive mx fs es \<Longrightarrow> dir_ok P y (init_to_send b) mx fs es"
    by (simp add: dir_ok_def refs) (simp add: init_to_send_def init_to_receive_def)
qed

lemma sent_to_pair:
  assumes ok: "party_ok P" and dir: "dir_ok P (tp_of y i) s kz es fs" and rev: "dir_ok P s (tp_of y i) (dk_my_keys y) fs es"
    and reg: "registry_ok (pa_curve P) (dk_pki y) i kz" and stored: "stored_ok y i"
    and bound: "tp_our_next_key_index (tp_of y i) \<noteq> - 1" and sent: "sent_to P now y y' i bs rnd m"
  obtains e where "te_message e = m" "pt_plaintext (te_plain e) = bs" "without_onetime m"
    "dir_ok P (tp_of y' i) s kz (es @ [e]) fs" "dir_ok P s (tp_of y' i) (dk_my_keys y) fs (es @ [e])"
    "stored_ok y' i" "tp_our_next_key_index (tp_of y' i) = tp_our_next_key_index (tp_of y i) + 1"
proof -
  obtain x x' where x: "session_for now y i = Some x" "two_party_send P now x (dk_my_keys y) bs rnd = Inr (x', m)"
      "map_of (dk_two_party y') i = Some x'"
    using sent by (auto simp: sent_to_def)
  have "dir_ok P x s kz es fs \<and> dir_ok P s x (dk_my_keys y) fs es \<and>
      tp_our_next_key_index x = tp_our_next_key_index (tp_of y i) \<and>
      (tp_their_verifying_key x = None \<longrightarrow> (\<exists>b. tp_their_prekey_bundle x = Some b \<and> kb_onetime_prekey b = None))"
  proof (cases "map_of (dk_two_party y) i")
    case None
    then obtain b where b: "longterm_bundle_of now (dk_pki y) i = Inr (dk_pki y, Some b)" "x = init_to_send b"
      using x(1) longterm_bundle_of_Inr(1) by (fastforce simp: session_for_def split: sum.splits option.splits)
    then have "kb_onetime_prekey b = None" "bundle_matches (pa_curve P) kz b"
      using longterm_bundle_of_Inr(2)[OF b(1)] reg by (auto simp: registry_ok_def)
    with None b(2) dir rev show ?thesis
      using dir_ok_init_to_send[of P kz b] by (auto simp: tp_of_def init_to_send_def init_to_receive_def)
  next
    case (Some t)
    with x(1) dir rev stored show ?thesis
      by (auto simp: session_for_def tp_of_def stored_ok_def)
  qed
  then have x_ok: "dir_ok P x s kz es fs" "dir_ok P s x (dk_my_keys y) fs es" "tp_our_next_key_index x \<noteq> - 1"
      "tp_our_next_key_index x = tp_our_next_key_index (tp_of y i)"
      and vk: "tp_their_verifying_key x = None \<Longrightarrow> \<exists>b. tp_their_prekey_bundle x = Some b \<and> kb_onetime_prekey b = None"
    using bound by auto
  have x': "tp_of y' i = x'"
    using x(3) by (simp add: tp_of_def)
  obtain e where "te_message e = m" "pt_plaintext (te_plain e) = bs" "dir_ok P x' s kz (es @ [e]) fs"
      "dir_ok P s x' (dk_my_keys y) fs (es @ [e])" "tp_our_next_key_index x' = tp_our_next_key_index x + 1"
    using send_pair[OF ok x_ok(1,2) x(2) x_ok(3)] by metis
  then show ?thesis
    using two_party_send_without_onetime[OF x(2) vk] x(3) x_ok(4)
    by (intro that[of e]) (auto simp: x' stored_ok_def)
qed

subsection \<open>Receiving one direct message\<close>

lemma two_party_receive_same_keys:
  assumes "two_party_receive P s my m = Inr (s', my', bs)" "without_onetime m"
  shows "my' = my" "tp_their_verifying_key s' \<noteq> None"
  using assms
  by (auto simp: two_party_receive_def two_party_decrypt_def decrypt_prekey_def without_onetime_def bind_result_eq_Inr
      split: key_used.splits two_party_ciphertext.splits option.splits sum.splits)

lemma decrypt_from_pair:
  assumes ok: "party_ok P" and dir: "dir_ok P s (tp_of y i) (dk_my_keys y) (e # es) fs"
    and rev: "dir_ok P (tp_of y i) s kz fs (e # es)" and m: "without_onetime (te_message e)"
  obtains y' where "decrypt_from P y i (te_message e) = Inr (y', pt_plaintext (te_plain e))"
    "dir_ok P s (tp_of y' i) (dk_my_keys y) es fs" "dir_ok P (tp_of y' i) s kz fs es"
    "same_except y y' {i}" "dk_dgm y' = dk_dgm y" "stored_ok y' i"
    "tp_our_next_key_index (tp_of y' i) = tp_our_next_key_index (tp_of y i)"
proof -
  obtain x' my' where r: "two_party_receive P (tp_of y i) (dk_my_keys y) (te_message e) = Inr (x', my', pt_plaintext (te_plain e))"
      "dir_ok P s x' my' es fs" "dir_ok P x' s kz fs es" "tp_our_next_key_index x' = tp_our_next_key_index (tp_of y i)"
    using receive_head[OF ok dir rev] by metis
  have keys: "my' = dk_my_keys y" "tp_their_verifying_key x' \<noteq> None"
    using two_party_receive_same_keys[OF r(1) m] by auto
  define y' where "y' = y\<lparr>dk_my_keys := my', dk_two_party := amap_insert i x' (amap_remove i (dk_two_party y))\<rparr>"
  have "tp_of y' i = x'"
    by (simp add: y'_def tp_of_def)
  then show ?thesis
    using r keys
    by (intro that[of y']) (auto simp: decrypt_from_def Let_def tp_of_def y'_def same_except_def stored_ok_def split: option.splits)
qed

subsection \<open>Operations send one message per recipient\<close>

datatype 'id dcgka_operation =
    OpCreate "'id list" group_secret
  | OpUpdate group_secret
  | OpRemove 'id group_secret
  | OpAdd 'id secret_bundle

definition perform ::
  "party_api \<Rightarrow> secret_codec \<Rightarrow> ('id, 'op, 'd, 'e) dgm_api \<Rightarrow> u64 \<Rightarrow> ('id, 'd) dcgka_state \<Rightarrow> 'id dcgka_operation \<Rightarrow>
   ('id \<Rightarrow> randomness) \<Rightarrow> ('id, 'e) dcgka_error + ('id, 'd) dcgka_state \<times> ('id, 'd) operation_output" where
  "perform P C G now y p rnd =
     (case p of
        OpCreate initial_members secret \<Rightarrow> dcgka_create P C now y initial_members secret rnd
      | OpUpdate secret \<Rightarrow> dcgka_update P C G now y secret rnd
      | OpRemove removed secret \<Rightarrow> dcgka_remove P C G now y removed secret rnd
      | OpAdd added bundle \<Rightarrow> dcgka_add P C now y added bundle (rnd added))"

definition op_output :: "secret_codec \<Rightarrow> 'id dcgka_operation \<Rightarrow> secret_output" where
  "op_output C p =
     (case p of
        OpCreate _ secret \<Rightarrow> NewSecret secret
      | OpUpdate secret \<Rightarrow> NewSecret secret
      | OpRemove _ secret \<Rightarrow> NewSecret secret
      | OpAdd _ bundle \<Rightarrow> NewBundle (from_secrets (sc_sha C) (bundle_serialize bundle)))"

definition direct_for :: "'id \<Rightarrow> ('id, 'd) operation_output \<Rightarrow> ('id, 'd) direct_message option" where
  "direct_for i out = List.find (\<lambda>dm. dm_recipient dm = i) (oo_directs out)"

text \<open>What a direct message holds: the encoding of the output, in a message of the kind the control message asks for.\<close>

definition holds :: "secret_codec \<Rightarrow> 'id \<Rightarrow> 'id control_message \<Rightarrow> 'd direct_content \<Rightarrow> secret_output \<Rightarrow> two_party_message \<Rightarrow> bytes \<Rightarrow> bool" where
  "holds C i control content out m bs \<longleftrightarrow>
     (case out of
        NoSecret \<Rightarrow> False
      | NewSecret secret \<Rightarrow> content = TwoPartyContent m \<and> (\<forall>a. control \<noteq> Add a) \<and> sc_decode_secret C bs = Some secret
      | NewBundle bundle \<Rightarrow> (\<exists>history. content = Welcome m history) \<and> control = Add i \<and>
          (\<exists>secrets. sc_decode_secrets C bs = Some secrets \<and> bundle = from_secrets (sc_sha C) secrets))"

definition codec_ok :: "secret_codec \<Rightarrow> bool" where
  "codec_ok C \<longleftrightarrow>
     (\<forall>secret bs. sc_encode_secret C secret = Some bs \<longrightarrow> sc_decode_secret C bs = Some secret) \<and>
     (\<forall>secrets bs. sc_encode_secrets C secrets = Some bs \<longrightarrow> sc_decode_secrets C bs = Some secrets)"

definition dgm_ok :: "('id, 'op, 'd, 'e) dgm_api \<Rightarrow> bool" where
  "dgm_ok G \<longleftrightarrow> (\<forall>y ms. gm_members G y = Inr ms \<longrightarrow> distinct ms)"

lemma send_group_secret_sent:
  fixes y :: "('id, 'd) dcgka_state"
  assumes "send_group_secret P C now y rs secret rnd = (Inr (y', dms) :: ('id, 'e) dcgka_error + _)" "distinct rs"
  shows "same_except y y' (set rs - {dk_my_id y}) \<and>
    (\<forall>i \<in> set rs - {dk_my_id y}. \<exists>m bs. sc_encode_secret C secret = Some bs \<and> sent_to P now y y' i bs (rnd i) m \<and>
       List.find (\<lambda>dm. dm_recipient dm = i) dms = Some \<lparr>dm_recipient = i, dm_content = TwoPartyContent m\<rparr>) \<and>
    (\<forall>i. i \<notin> set rs - {dk_my_id y} \<longrightarrow> List.find (\<lambda>dm. dm_recipient dm = i) dms = None)"
  using assms
proof (induction rs arbitrary: y dms)
  case Nil
  then show ?case
    by (simp add: same_except_def)
next
  case (Cons r rs)
  show ?case
  proof (cases "r = dk_my_id y")
    case True
    then have eq: "set (r # rs) - {dk_my_id y} = set rs - {dk_my_id y}"
      by auto
    from True Cons.prems have "send_group_secret P C now y rs secret rnd = (Inr (y', dms) :: ('id, 'e) dcgka_error + _)" "distinct rs"
      by simp_all
    from Cons.IH[OF this] show ?thesis
      unfolding eq .
  next
    case False
    then obtain bs y1 m dms' where s: "sc_encode_secret C secret = Some bs"
        "encrypt_to P now y r bs (rnd r) = (Inr (y1, m) :: ('id, 'e) dcgka_error + _)"
        "send_group_secret P C now y1 rs secret rnd = (Inr (y', dms') :: ('id, 'e) dcgka_error + _)"
        "dms = \<lparr>dm_recipient = r, dm_content = TwoPartyContent m\<rparr> # dms'"
      using Cons.prems(1) by (auto simp: bind_result_eq_Inr)
    note r = encrypt_to_sent(1,2)[OF s(2)]
    have id: "dk_my_id y1 = dk_my_id y"
      using r(2) by (simp add: same_except_def)
    note ih = Cons.IH[OF s(3), unfolded id]
    have sent: "sent_to P now y y' i bs' rnd' m'" if "i \<noteq> r" "sent_to P now y1 y' i bs' rnd' m'" for i bs' rnd' m'
    proof -
      have eqs: "dk_pki y1 = dk_pki y" "dk_my_keys y1 = dk_my_keys y" "map_of (dk_two_party y1) i = map_of (dk_two_party y) i"
        using that(1) r(2) by (auto simp: same_except_def)
      show ?thesis
        using that(2) unfolding sent_to_def session_for_def eqs .
    qed
    have "map_of (dk_two_party y') r = map_of (dk_two_party y1) r"
      using ih Cons.prems(2) by (auto simp: same_except_def)
    then have "sent_to P now y y' r bs (rnd r) m"
      using r(1) by (auto simp: sent_to_def)
    moreover have "same_except y y' (set (r # rs) - {dk_my_id y})"
      using ih r(2) Cons.prems(2) False by (auto simp: same_except_def)
    moreover have "\<exists>m bs. sc_encode_secret C secret = Some bs \<and> sent_to P now y y' i bs (rnd i) m \<and>
        List.find (\<lambda>dm. dm_recipient dm = i) dms' = Some \<lparr>dm_recipient = i, dm_content = TwoPartyContent m\<rparr>"
      if "i \<in> set rs - {dk_my_id y}" "i \<noteq> r" for i
      using ih Cons.prems(2) sent[OF that(2)] that(1) by (simp del: List.find.simps) blast
    moreover have "List.find (\<lambda>dm. dm_recipient dm = i) dms' = None" if "i \<notin> set rs - {dk_my_id y}" for i
      using ih Cons.prems(2) that by (simp del: List.find.simps)
    ultimately show ?thesis
      using s(1) False by (auto simp: s(4))
  qed
qed

lemma dedup_foldl:
  "distinct acc \<Longrightarrow> distinct (foldl (\<lambda>acc i. if i \<in> set acc then acc else acc @ [i]) acc is)"
  by (induction "is" arbitrary: acc) auto

lemma perform_sent:
  fixes y :: "('id, 'd) dcgka_state" and G :: "('id, 'op, 'd, 'e) dgm_api"
  assumes "perform P C G now y p rnd = Inr (y', out)" and "codec_ok C" "dgm_ok G" "\<And>b. p \<noteq> OpAdd (dk_my_id y) b"
  obtains Z where "dk_my_id y \<notin> Z" "same_except y y' Z"
    "\<And>i. i \<in> Z \<Longrightarrow> \<exists>m bs content. sent_to P now y y' i bs (rnd i) m \<and>
       direct_for i out = Some \<lparr>dm_recipient = i, dm_content = content\<rparr> \<and> holds C i (oo_control out) content (op_output C p) m bs"
    "\<And>i. i \<notin> Z \<Longrightarrow> direct_for i out = None \<and> oo_control out \<noteq> Add i"
proof -
  note recipients = that
  have secret: ?thesis
    if send: "send_group_secret P C now y rs secret rnd = (Inr (y', dms) :: ('id, 'e) dcgka_error + _)" "distinct rs"
      and out: "out = \<lparr>oo_control = control, oo_directs = dms\<rparr>" "\<And>a. control \<noteq> Add a" "op_output C p = NewSecret secret"
    for rs secret dms control
  proof (rule recipients[of "set rs - {dk_my_id y}"])
    note s = send_group_secret_sent[OF send]
    show "dk_my_id y \<notin> set rs - {dk_my_id y}" "same_except y y' (set rs - {dk_my_id y})"
      using s by auto
    show "\<exists>m bs content. sent_to P now y y' i bs (rnd i) m \<and>
       direct_for i out = Some \<lparr>dm_recipient = i, dm_content = content\<rparr> \<and> holds C i (oo_control out) content (op_output C p) m bs"
      if i: "i \<in> set rs - {dk_my_id y}" for i
    proof -
      obtain m bs where m: "sc_encode_secret C secret = Some bs" "sent_to P now y y' i bs (rnd i) m"
          "List.find (\<lambda>dm. dm_recipient dm = i) dms = Some \<lparr>dm_recipient = i, dm_content = TwoPartyContent m\<rparr>"
        using s i by blast
      then have "holds C i control (TwoPartyContent m :: 'd direct_content) (op_output C p) m bs"
        using assms(2) out(2,3) by (simp add: holds_def codec_ok_def)
      with m show ?thesis
        unfolding direct_for_def out(1) by auto
    qed
    show "direct_for i out = None \<and> oo_control out \<noteq> Add i" if "i \<notin> set rs - {dk_my_id y}" for i
      using s that out by (simp add: direct_for_def)
  qed
  show ?thesis
  proof (cases p)
    case (OpCreate initial_members group_secret)
    then show ?thesis
      using assms(1) dedup_foldl[of "[]" initial_members]
      by (auto simp: perform_def dcgka_create_def Let_def bind_result_eq_Inr op_output_def intro!: secret)
  next
    case (OpUpdate group_secret)
    then show ?thesis
      using assms(1,3)
      by (auto simp: perform_def dcgka_update_def dcgka_members_def bind_result_eq_Inr op_output_def dgm_ok_def intro!: secret)
  next
    case (OpRemove removed group_secret)
    then show ?thesis
      using assms(1,3)
      by (auto simp: perform_def dcgka_remove_def dcgka_members_def bind_result_eq_Inr op_output_def dgm_ok_def intro!: secret)
  next
    case (OpAdd added sb)
    then obtain bs m where s: "sc_encode_secrets C (bundle_serialize sb) = Some bs"
        "encrypt_to P now y added bs (rnd added) = (Inr (y', m) :: ('id, 'e) dcgka_error + _)"
        "out = \<lparr>oo_control = Add added, oo_directs = [\<lparr>dm_recipient = added, dm_content = Welcome m (dk_dgm y')\<rparr>]\<rparr>"
      using assms(1) by (auto simp: perform_def dcgka_add_def bind_result_eq_Inr)
    then show ?thesis
      using encrypt_to_sent(1,2)[OF s(2)] assms(2,4) OpAdd
      by (intro that[of "{added}"]) (auto simp: direct_for_def holds_def op_output_def codec_ok_def)
  qed
qed

subsection \<open>The network\<close>

record ('id, 'op, 'd) network =
  nw_states :: "'id \<Rightarrow> ('id, 'd) dcgka_state"
  nw_queue :: "'id \<Rightarrow> 'id \<Rightarrow> (('id, 'op, 'd) process_input \<times> secret_output) list"

definition delivery ::
  "secret_codec \<Rightarrow> 'op \<Rightarrow> 'id \<Rightarrow> 'id dcgka_operation \<Rightarrow> ('id, 'd) operation_output \<Rightarrow> 'id \<Rightarrow>
   ('id, 'op, 'd) process_input \<times> secret_output" where
  "delivery C seq x p out i =
     (\<lparr>pi_seq = seq, pi_sender = x, pi_control = oo_control out, pi_direct = direct_for i out\<rparr>,
      if direct_for i out = None then NoSecret else op_output C p)"

text \<open>
  A member performs an operation, whose control message goes to all others, each with its direct message; it processes its
  own control message; it processes the next input from another member; or the application replaces its membership
  state, as \<open>p2panda-spaces\<close> does. A member does not add itself, which the group interface refuses.
\<close>

inductive network_step ::
  "party_api \<Rightarrow> secret_codec \<Rightarrow> ('id, 'op, 'd, 'e) dgm_api \<Rightarrow> ('id, 'op, 'd) network \<Rightarrow> ('id, 'op, 'd) network \<Rightarrow> bool" for P C G where
  operate: "perform P C G now (nw_states s x) p rnd = Inr (y, out) \<Longrightarrow> (\<And>b. p \<noteq> OpAdd x b) \<Longrightarrow>
     network_step P C G s (s\<lparr>nw_states := (nw_states s)(x := y),
       nw_queue := \<lambda>a i. if a = x \<and> i \<noteq> x then nw_queue s a i @ [delivery C seq x p out i] else nw_queue s a i\<rparr>)"
| local: "dcgka_process P C G (nw_states s x) \<lparr>pi_seq = seq, pi_sender = x, pi_control = control, pi_direct = None\<rparr> = Inr (y, out) \<Longrightarrow>
     network_step P C G s (s\<lparr>nw_states := (nw_states s)(x := y)\<rparr>)"
| deliver: "x \<noteq> i \<Longrightarrow> nw_queue s x i = (inp, promised) # rest \<Longrightarrow> dcgka_process P C G (nw_states s i) inp = Inr (y, out) \<Longrightarrow>
     network_step P C G s (s\<lparr>nw_states := (nw_states s)(i := y),
       nw_queue := \<lambda>a b. if a = x \<and> b = i then rest else nw_queue s a b\<rparr>)"
| replace: "network_step P C G s (s\<lparr>nw_states := (nw_states s)(x := (nw_states s x)\<lparr>dk_dgm := d\<rparr>)\<rparr>)"

definition carries :: "secret_codec \<Rightarrow> 'id \<Rightarrow> 'id \<Rightarrow> ('id, 'op, 'd) process_input \<times> secret_output \<Rightarrow> tp_entry option \<Rightarrow> bool" where
  "carries C x i q entry \<longleftrightarrow>
     pi_sender (fst q) = x \<and>
     (case entry of
        None \<Rightarrow> pi_direct (fst q) = None \<and> snd q = NoSecret \<and> pi_control (fst q) \<noteq> Add i
      | Some e \<Rightarrow> (\<exists>content. pi_direct (fst q) = Some \<lparr>dm_recipient = i, dm_content = content\<rparr> \<and>
          holds C i (pi_control (fst q)) content (snd q) (te_message e) (pt_plaintext (te_plain e)) \<and>
          without_onetime (te_message e)))"

definition entries :: "tp_entry option list \<Rightarrow> tp_entry list" where
  "entries es = concat (map (\<lambda>entry. case entry of None \<Rightarrow> [] | Some e \<Rightarrow> [e]) es)"

lemma entries_simps [simp]:
  "entries [] = []" "entries (None # es) = entries es" "entries (Some e # es) = e # entries es"
  "entries (es @ fs) = entries es @ entries fs"
  by (simp_all add: entries_def)

definition member_ok :: "party_api \<Rightarrow> nat \<Rightarrow> ('id \<Rightarrow> ('id, 'd) dcgka_state) \<Rightarrow> 'id \<Rightarrow> 'id \<Rightarrow> bool" where
  "member_ok P n S x i \<longleftrightarrow>
     registry_ok (pa_curve P) (dk_pki (S x)) i (dk_my_keys (S i)) \<and> stored_ok (S x) i \<and>
     unat (tp_our_next_key_index (tp_of (S x) i)) \<le> Suc n"

definition pair_ok ::
  "party_api \<Rightarrow> ('id \<Rightarrow> ('id, 'd) dcgka_state) \<Rightarrow> ('id \<Rightarrow> 'id \<Rightarrow> tp_entry option list) \<Rightarrow> 'id \<Rightarrow> 'id \<Rightarrow> bool" where
  "pair_ok P S E x i \<longleftrightarrow>
     dir_ok P (tp_of (S x) i) (tp_of (S i) x) (dk_my_keys (S i)) (entries (E x i)) (entries (E i x))"

definition network_inv ::
  "party_api \<Rightarrow> secret_codec \<Rightarrow> nat \<Rightarrow> ('id, 'op, 'd) network \<Rightarrow> ('id \<Rightarrow> 'id \<Rightarrow> tp_entry option list) \<Rightarrow> bool" where
  "network_inv P C n s E \<longleftrightarrow>
     (\<forall>x. dk_my_id (nw_states s x) = x) \<and>
     (\<forall>x i. x \<noteq> i \<longrightarrow> member_ok P n (nw_states s) x i \<and> pair_ok P (nw_states s) E x i \<and>
        list_all2 (carries C x i) (nw_queue s x i) (E x i))"

lemma network_invI:
  assumes "\<And>x. dk_my_id (nw_states s x) = x"
    and "\<And>x i. x \<noteq> i \<Longrightarrow> member_ok P n (nw_states s) x i" "\<And>x i. x \<noteq> i \<Longrightarrow> pair_ok P (nw_states s) E x i"
    and "\<And>x i. x \<noteq> i \<Longrightarrow> list_all2 (carries C x i) (nw_queue s x i) (E x i)"
  shows "network_inv P C n s E"
  using assms unfolding network_inv_def by blast

lemma network_invD:
  assumes "network_inv P C n s E"
  shows "dk_my_id (nw_states s x) = x" "x \<noteq> i \<Longrightarrow> member_ok P n (nw_states s) x i"
    "x \<noteq> i \<Longrightarrow> pair_ok P (nw_states s) E x i" "x \<noteq> i \<Longrightarrow> list_all2 (carries C x i) (nw_queue s x i) (E x i)"
  using assms unfolding network_inv_def by blast+

lemma member_ok_mono: "member_ok P n S x i \<Longrightarrow> member_ok P (Suc n) S x i"
  by (auto simp: member_ok_def)

text \<open>A changed state leaves the pairs alone whose session it does not touch.\<close>

lemma unchanged_pairs:
  assumes same: "same_except (S x) y Z" and "a \<noteq> b" "a = x \<Longrightarrow> b \<notin> Z" "b = x \<Longrightarrow> a \<notin> Z"
  shows "member_ok P n (S(x := y)) a b \<longleftrightarrow> member_ok P n S a b" "pair_ok P (S(x := y)) E a b \<longleftrightarrow> pair_ok P S E a b"
proof -
  have "tp_of ((S(x := y)) a) b = tp_of (S a) b" "tp_of ((S(x := y)) b) a = tp_of (S b) a"
    "stored_ok ((S(x := y)) a) b = stored_ok (S a) b"
    using assms by (auto simp: same_except_def tp_of_def stored_ok_def)
  moreover have "dk_my_keys ((S(x := y)) b) = dk_my_keys (S b)" "dk_pki ((S(x := y)) a) = dk_pki (S a)"
    using same by (auto simp: same_except_def)
  ultimately show "member_ok P n (S(x := y)) a b \<longleftrightarrow> member_ok P n S a b" "pair_ok P (S(x := y)) E a b \<longleftrightarrow> pair_ok P S E a b"
    unfolding member_ok_def pair_ok_def by simp_all
qed

definition extends ::
  "party_api \<Rightarrow> nat \<Rightarrow> ('id \<Rightarrow> ('id, 'd) dcgka_state) \<Rightarrow> ('id \<Rightarrow> 'id \<Rightarrow> tp_entry option list) \<Rightarrow> 'id \<Rightarrow> ('id, 'd) dcgka_state \<Rightarrow> 'id \<Rightarrow> tp_entry \<Rightarrow> bool" where
  "extends P n S E x y i e \<longleftrightarrow>
     dir_ok P (tp_of y i) (tp_of (S i) x) (dk_my_keys (S i)) (entries (E x i) @ [e]) (entries (E i x)) \<and>
     dir_ok P (tp_of (S i) x) (tp_of y i) (dk_my_keys (S x)) (entries (E i x)) (entries (E x i) @ [e]) \<and>
     stored_ok y i \<and> unat (tp_our_next_key_index (tp_of y i)) \<le> Suc (Suc n)"

lemma sent_to_extends:
  assumes ok: "party_ok P" and n: "Suc n < 2 ^ 64 - 1" and "x \<noteq> i"
    and pairs: "pair_ok P S E x i" "pair_ok P S E i x" and member: "member_ok P n S x i"
    and sent: "sent_to P now (S x) y i bs rnd m"
  obtains e where "te_message e = m" "pt_plaintext (te_plain e) = bs" "without_onetime m" "extends P n S E x y i e"
proof -
  have index: "unat (tp_our_next_key_index (tp_of (S x) i)) \<le> Suc n"
    using member by (simp add: member_ok_def)
  have bound: "tp_our_next_key_index (tp_of (S x) i) \<noteq> - 1"
    using index n by (auto simp: unsigned_minus_1_eq_mask mask_eq_exp_minus_1)
  have reg: "registry_ok (pa_curve P) (dk_pki (S x)) i (dk_my_keys (S i))" "stored_ok (S x) i"
    using member by (simp_all add: member_ok_def)
  obtain e where "te_message e = m" "pt_plaintext (te_plain e) = bs" "without_onetime m"
    "dir_ok P (tp_of y i) (tp_of (S i) x) (dk_my_keys (S i)) (entries (E x i) @ [e]) (entries (E i x))"
    "dir_ok P (tp_of (S i) x) (tp_of y i) (dk_my_keys (S x)) (entries (E i x)) (entries (E x i) @ [e])"
    "stored_ok y i" "tp_our_next_key_index (tp_of y i) = tp_our_next_key_index (tp_of (S x) i) + 1"
    using sent_to_pair[OF ok pairs[unfolded pair_ok_def] reg bound sent] by metis
  then show ?thesis
    using index u64_succ[OF bound] by (intro that[of e]) (simp_all add: extends_def)
qed

lemma extends_pair:
  assumes "extends P n S E x y i e" "x \<noteq> i" "same_except (S x) y Z" "member_ok P n S x i" "member_ok P n S i x"
    and "entries (E' x i) = entries (E x i) @ [e]" "E' i x = E i x"
  shows "pair_ok P (S(x := y)) E' x i" "pair_ok P (S(x := y)) E' i x"
    "member_ok P (Suc n) (S(x := y)) x i" "member_ok P (Suc n) (S(x := y)) i x"
  using assms by (auto simp: extends_def pair_ok_def member_ok_def same_except_def)

lemma network_inv_operate:
  fixes G :: "('id, 'op, 'd, 'e) dgm_api"
  assumes ok: "party_ok P" "codec_ok C" "dgm_ok G" and inv: "network_inv P C n s E" and n: "Suc n < 2 ^ 64 - 1"
    and step: "perform P C G now (nw_states s x) p rnd = Inr (y, out)" "\<And>b. p \<noteq> OpAdd x b"
  shows "\<exists>E'. network_inv P C (Suc n) (s\<lparr>nw_states := (nw_states s)(x := y),
    nw_queue := \<lambda>a i. if a = x \<and> i \<noteq> x then nw_queue s a i @ [delivery C seq x p out i] else nw_queue s a i\<rparr>) E'"
proof -
  let ?S = "nw_states s"
  note inv = network_invD[OF inv]
  obtain Z where Z: "x \<notin> Z" "same_except (?S x) y Z"
    "\<And>i. i \<in> Z \<Longrightarrow> \<exists>m bs content. sent_to P now (?S x) y i bs (rnd i) m \<and>
       direct_for i out = Some \<lparr>dm_recipient = i, dm_content = content\<rparr> \<and> holds C i (oo_control out) content (op_output C p) m bs"
    "\<And>i. i \<notin> Z \<Longrightarrow> direct_for i out = None \<and> oo_control out \<noteq> Add i"
    using perform_sent[OF step(1) ok(2,3)] step(2) inv(1) by metis
  have "\<exists>e. extends P n ?S E x y i e \<and> carries C x i (delivery C seq x p out i) (Some e)" if i: "i \<in> Z" for i
  proof -
    obtain m bs content where m: "sent_to P now (?S x) y i bs (rnd i) m"
        "direct_for i out = Some \<lparr>dm_recipient = i, dm_content = content\<rparr>" "holds C i (oo_control out) content (op_output C p) m bs"
      using Z(3)[OF i] by blast
    have "x \<noteq> i"
      using Z(1) i by blast
    then obtain e where "te_message e = m" "pt_plaintext (te_plain e) = bs" "without_onetime m" "extends P n ?S E x y i e"
      using sent_to_extends[OF ok(1) n _ inv(3) inv(3) inv(2) m(1)] by metis
    with m(2,3) show ?thesis
      by (intro exI[of _ e]) (simp add: carries_def delivery_def)
  qed
  then obtain f where f: "\<And>i. i \<in> Z \<Longrightarrow> extends P n ?S E x y i (f i) \<and> carries C x i (delivery C seq x p out i) (Some (f i))"
    by metis
  define E' where "E' = (\<lambda>a b. if a = x \<and> b \<noteq> x then E a b @ [if b \<in> Z then Some (f b) else None] else E a b)"
  have pairs: "pair_ok P (?S(x := y)) E' a b \<and> member_ok P (Suc n) (?S(x := y)) a b" if "a \<noteq> b" for a b
  proof -
    consider "a = x" "b \<in> Z" | "b = x" "a \<in> Z" | "a = x \<longrightarrow> b \<notin> Z" "b = x \<longrightarrow> a \<notin> Z"
      by blast
    then show ?thesis
    proof cases
      case 1
      then show ?thesis
        using extends_pair(1,3)[OF f[THEN conjunct1] _ Z(2) inv(2) inv(2), of b E'] that by (simp add: E'_def)
    next
      case 2
      then show ?thesis
        using extends_pair(2,4)[OF f[THEN conjunct1] _ Z(2) inv(2) inv(2), of a E'] that by (simp add: E'_def)
    next
      case 3
      then have "entries (E' a b) = entries (E a b)" "entries (E' b a) = entries (E b a)"
        by (auto simp: E'_def)
      then have "pair_ok P (?S(x := y)) E' a b = pair_ok P (?S(x := y)) E a b"
        by (simp add: pair_ok_def)
      then show ?thesis
        using unchanged_pairs[where S = ?S and x = x, OF Z(2) that] 3 inv(2,3)[OF that] member_ok_mono by metis
    qed
  qed
  have queue: "list_all2 (carries C x i) (nw_queue s x i @ [delivery C seq x p out i]) (E' x i)" if "i \<noteq> x" for i
  proof -
    have "carries C x i (delivery C seq x p out i) (if i \<in> Z then Some (f i) else None)"
      using f Z(4)[of i] by (auto simp: carries_def delivery_def)
    then show ?thesis
      using inv(4)[of x i] that by (auto simp: E'_def intro!: list_all2_appendI)
  qed
  have id: "dk_my_id y = x"
    using Z(2) inv(1) by (simp add: same_except_def)
  show ?thesis
    using pairs queue inv(1,4) id
    by (intro exI[of _ E'] network_invI) (auto simp: E'_def)
qed

subsection \<open>Processing keeps the invariant\<close>

text \<open>
  What remains true after an input was processed, for the stream that held it and the reverse one.
\<close>

definition processed ::
  "party_api \<Rightarrow> ('id, 'd) dcgka_state \<Rightarrow> ('id, 'd) dcgka_state \<Rightarrow> 'id \<Rightarrow> two_party_state \<Rightarrow> key_manager \<Rightarrow>
   tp_entry list \<Rightarrow> tp_entry list \<Rightarrow> bool" where
  "processed P y y' x s kx es fs \<longleftrightarrow>
     same_except y y' {x} \<and> dir_ok P s (tp_of y' x) (dk_my_keys y) es fs \<and> dir_ok P (tp_of y' x) s kx fs es \<and>
     (stored_ok y x \<longrightarrow> stored_ok y' x) \<and> tp_our_next_key_index (tp_of y' x) = tp_our_next_key_index (tp_of y x)"

lemma processed_dgm:
  assumes "dir_ok P s (tp_of y x) (dk_my_keys y) es fs" "dir_ok P (tp_of y x) s kx fs es"
  shows "processed P y (y\<lparr>dk_dgm := d\<rparr>) x s kx es fs"
proof -
  have "tp_of (y\<lparr>dk_dgm := d\<rparr>) x = tp_of y x"
    by (simp add: tp_of_def)
  with assms show ?thesis
    by (simp add: processed_def same_except_def stored_ok_def)
qed

lemma decrypt_from_processed:
  fixes y :: "('id, 'd) dcgka_state"
  assumes "party_ok P" "dir_ok P s (tp_of y x) (dk_my_keys y) (e # es) fs" "dir_ok P (tp_of y x) s kx fs (e # es)"
    and "without_onetime (te_message e)"
  shows "\<exists>y'. decrypt_from P (y\<lparr>dk_dgm := d\<rparr>) x (te_message e) = (Inr (y', pt_plaintext (te_plain e)) :: ('id, 'e) dcgka_error + _) \<and>
    processed P y y' x s kx es fs"
proof -
  let ?y = "y\<lparr>dk_dgm := d\<rparr>"
  have tp: "tp_of ?y x = tp_of y x" and keys: "dk_my_keys ?y = dk_my_keys y"
    by (simp_all add: tp_of_def)
  obtain y' where y': "decrypt_from P ?y x (te_message e) = (Inr (y', pt_plaintext (te_plain e)) :: ('id, 'e) dcgka_error + _)"
    "dir_ok P s (tp_of y' x) (dk_my_keys y) es fs" "dir_ok P (tp_of y' x) s kx fs es"
    "same_except ?y y' {x}" "stored_ok y' x" "tp_our_next_key_index (tp_of y' x) = tp_our_next_key_index (tp_of y x)"
    using decrypt_from_pair[OF assms(1), of s ?y x e es fs kx] assms(2-4) unfolding tp keys by metis
  moreover have "same_except y y' {x}"
    using y'(4) by (simp add: same_except_def)
  ultimately show ?thesis
    by (auto simp: processed_def)
qed

lemma process_without_direct:
  fixes y :: "('id, 'd) dcgka_state" and G :: "('id, 'op, 'd, 'e) dgm_api"
  assumes "pi_direct inp = None" "pi_control inp \<noteq> Add (dk_my_id y)"
  shows "(\<exists>err. dcgka_process P C G y inp = Inl (DgmOperation err)) \<or>
    (\<exists>d. dcgka_process P C G y inp = Inr (y\<lparr>dk_dgm := d\<rparr>, NoSecret))"
proof (cases "pi_control inp")
  case (Create ms)
  with assms show ?thesis
    by (cases "gm_create G (dk_my_id y) ms") (auto simp: dcgka_process_def process_create_def process_secret_def)
next
  case Update
  with assms show ?thesis
    by (intro disjI2 exI[of _ "dk_dgm y"]) (simp add: dcgka_process_def process_secret_def)
next
  case (Remove r)
  with assms show ?thesis
    by (cases "gm_remove G (dk_dgm y) (pi_sender inp) r (pi_seq inp)")
      (auto simp: dcgka_process_def process_remove_def process_secret_def)
next
  case (Add a)
  with assms show ?thesis
    by (cases "gm_add G (dk_dgm y) (pi_sender inp) a (pi_seq inp)") (auto simp: dcgka_process_def process_add_def)
qed

lemma process_new_secret:
  fixes y :: "('id, 'd) dcgka_state" and G :: "('id, 'op, 'd, 'e) dgm_api"
  assumes direct: "pi_direct inp = Some \<lparr>dm_recipient = dk_my_id y, dm_content = TwoPartyContent m\<rparr>" "\<And>a. pi_control inp \<noteq> Add a"
    and decrypt: "\<And>d. \<exists>y'. decrypt_from P (y\<lparr>dk_dgm := d\<rparr>) (pi_sender inp) m = (Inr (y', bs) :: ('id, 'e) dcgka_error + _) \<and> Q y'"
    and decode: "sc_decode_secret C bs = Some secret"
  shows "(\<exists>err. dcgka_process P C G y inp = Inl (DgmOperation err)) \<or>
    (\<exists>y'. dcgka_process P C G y inp = Inr (y', NewSecret secret) \<and> Q y')"
proof -
  have secret: "\<exists>y'. process_secret P C (y\<lparr>dk_dgm := d\<rparr>) (pi_sender inp) (pi_direct inp) =
      (Inr (y', NewSecret secret) :: ('id, 'e) dcgka_error + _) \<and> Q y'" for d
    using decrypt[of d] decode by (auto simp: process_secret_def direct(1))
  show ?thesis
  proof (cases "pi_control inp")
    case (Create ms)
    then show ?thesis
      using secret by (cases "gm_create G (dk_my_id y) ms") (auto simp: dcgka_process_def process_create_def)
  next
    case Update
    then show ?thesis
      using secret[of "dk_dgm y"] by (auto simp: dcgka_process_def)
  next
    case (Remove r)
    then show ?thesis
      using secret by (cases "gm_remove G (dk_dgm y) (pi_sender inp) r (pi_seq inp)") (auto simp: dcgka_process_def process_remove_def)
  next
    case (Add a)
    with direct(2) show ?thesis
      by blast
  qed
qed

lemma process_new_bundle:
  fixes y :: "('id, 'd) dcgka_state" and G :: "('id, 'op, 'd, 'e) dgm_api"
  assumes direct: "pi_direct inp = Some \<lparr>dm_recipient = dk_my_id y, dm_content = Welcome m history\<rparr>" "pi_control inp = Add (dk_my_id y)"
    and decrypt: "\<And>d. \<exists>y'. decrypt_from P (y\<lparr>dk_dgm := d\<rparr>) (pi_sender inp) m = (Inr (y', bs) :: ('id, 'e) dcgka_error + _) \<and> Q y'"
    and decode: "sc_decode_secrets C bs = Some secrets"
  shows "(\<exists>err. dcgka_process P C G y inp = Inl (DgmOperation err)) \<or>
    (\<exists>y'. dcgka_process P C G y inp = Inr (y', NewBundle (from_secrets (sc_sha C) secrets)) \<and> Q y')"
proof (cases "gm_add G (dk_dgm y) (pi_sender inp) (dk_my_id y) (pi_seq inp)")
  case (Inl e)
  then show ?thesis
    by (simp add: dcgka_process_def process_add_def direct)
next
  case (Inr d0)
  show ?thesis
  proof (cases "gm_from_welcome G (dk_my_id y) history")
    case (Inl e)
    with Inr show ?thesis
      by (simp add: dcgka_process_def process_add_def process_welcome_def direct)
  next
    case (Inr d)
    with \<open>gm_add G _ _ _ _ = Inr d0\<close> show ?thesis
      using decrypt[of d] decode by (auto simp: dcgka_process_def process_add_def process_welcome_def direct)
  qed
qed

lemma process_carried:
  fixes y :: "('id, 'd) dcgka_state" and G :: "('id, 'op, 'd, 'e) dgm_api"
  assumes ok: "party_ok P" and carries: "carries C x (dk_my_id y) (inp, out) entry"
    and dir: "dir_ok P s (tp_of y x) (dk_my_keys y) (entries (entry # es)) fs"
    and rev: "dir_ok P (tp_of y x) s kx fs (entries (entry # es))"
  shows "(\<exists>err. dcgka_process P C G y inp = Inl (DgmOperation err)) \<or>
    (\<exists>y'. dcgka_process P C G y inp = Inr (y', out) \<and> processed P y y' x s kx (entries es) fs)"
proof (cases entry)
  case None
  then show ?thesis
    using process_without_direct[of inp y P C G] processed_dgm[of P s y x "entries es" fs kx] carries dir rev
    by (auto simp: carries_def)
next
  case (Some e)
  have sender: "pi_sender inp = x" and m: "without_onetime (te_message e)"
    using carries by (auto simp: carries_def Some)
  obtain content where content: "pi_direct inp = Some \<lparr>dm_recipient = dk_my_id y, dm_content = content\<rparr>"
      "holds C (dk_my_id y) (pi_control inp) content out (te_message e) (pt_plaintext (te_plain e))"
    using carries by (auto simp: carries_def Some)
  have decrypt: "\<exists>y'. decrypt_from P (y\<lparr>dk_dgm := d\<rparr>) (pi_sender inp) (te_message e) =
      (Inr (y', pt_plaintext (te_plain e)) :: ('id, 'e) dcgka_error + _) \<and> processed P y y' x s kx (entries es) fs" for d
    unfolding sender using decrypt_from_processed[OF ok _ _ m] dir rev by (simp add: Some)
  show ?thesis
  proof (cases out)
    case NoSecret
    with content(2) show ?thesis
      by (simp add: holds_def)
  next
    case (NewSecret secret)
    with content show ?thesis
      using process_new_secret[OF _ _ decrypt, of C secret] by (simp add: holds_def)
  next
    case (NewBundle sb)
    with content obtain history secrets where "content = Welcome (te_message e) history" "pi_control inp = Add (dk_my_id y)"
        "sc_decode_secrets C (pt_plaintext (te_plain e)) = Some secrets" "sb = from_secrets (sc_sha C) secrets"
      by (auto simp: holds_def)
    with content(1) NewBundle show ?thesis
      using process_new_bundle[OF _ _ decrypt, of history C secrets] by simp
  qed
qed

lemma network_inv_process:
  fixes G :: "('id, 'op, 'd, 'e) dgm_api"
  assumes ok: "party_ok P" and inv: "network_inv P C n s E" and "x \<noteq> i" and queue: "nw_queue s x i = (inp, promised) # rest"
  shows "(\<exists>err. dcgka_process P C G (nw_states s i) inp = Inl (DgmOperation err)) \<or>
    (\<exists>y E'. dcgka_process P C G (nw_states s i) inp = Inr (y, promised) \<and>
       network_inv P C n (s\<lparr>nw_states := (nw_states s)(i := y),
         nw_queue := \<lambda>a b. if a = x \<and> b = i then rest else nw_queue s a b\<rparr>) E')"
proof -
  let ?S = "nw_states s"
  note inv = network_invD[OF inv]
  obtain entry es where E: "E x i = entry # es" "carries C x i (inp, promised) entry" "list_all2 (carries C x i) rest es"
    using inv(4)[OF \<open>x \<noteq> i\<close>] by (auto simp: queue list_all2_Cons1)
  have pairs: "pair_ok P ?S E x i" "pair_ok P ?S E i x" "member_ok P n ?S x i" "member_ok P n ?S i x"
    using inv(2,3)[OF \<open>x \<noteq> i\<close>] inv(2,3)[OF \<open>x \<noteq> i\<close>[symmetric]] by simp_all
  have "(\<exists>err. dcgka_process P C G (?S i) inp = Inl (DgmOperation err)) \<or>
    (\<exists>y. dcgka_process P C G (?S i) inp = Inr (y, promised) \<and>
       processed P (?S i) y x (tp_of (?S x) i) (dk_my_keys (?S x)) (entries es) (entries (E i x)))"
    using process_carried[OF ok, of C x "?S i" inp promised entry] E(2) pairs(1,2) by (simp add: pair_ok_def E(1) inv(1))
  moreover have "network_inv P C n (s\<lparr>nw_states := ?S(i := y), nw_queue := \<lambda>a b. if a = x \<and> b = i then rest else nw_queue s a b\<rparr>)
      (\<lambda>a b. if a = x \<and> b = i then es else E a b)"
    if y: "processed P (?S i) y x (tp_of (?S x) i) (dk_my_keys (?S x)) (entries es) (entries (E i x))" for y
  proof -
    let ?E = "\<lambda>a b. if a = x \<and> b = i then es else E a b"
    have same: "same_except (?S i) y {x}"
      using y by (simp add: processed_def)
    have "pair_ok P (?S(i := y)) ?E a b \<and> member_ok P n (?S(i := y)) a b" if "a \<noteq> b" for a b
    proof (cases "{a, b} = {x, i}")
      case True
      then show ?thesis
        using y pairs \<open>x \<noteq> i\<close> by (auto simp: doubleton_eq_iff processed_def pair_ok_def member_ok_def same_except_def)
    next
      case False
      then have "a = i \<Longrightarrow> b \<notin> {x}" "b = i \<Longrightarrow> a \<notin> {x}"
        by auto
      note eqs = unchanged_pairs[where S = ?S and x = i, OF same that this]
      have "pair_ok P (?S(i := y)) ?E a b = pair_ok P (?S(i := y)) E a b"
        using False by (auto simp: pair_ok_def)
      with eqs show ?thesis
        using inv(2,3)[OF that] by blast
    qed
    moreover have "dk_my_id y = i"
      using same inv(1) by (simp add: same_except_def)
    ultimately show ?thesis
      using inv(1,4) E(3) by (intro network_invI) auto
  qed
  ultimately show ?thesis
    by blast
qed

lemma network_inv_replace:
  assumes inv: "network_inv P C n s E"
  shows "network_inv P C n (s\<lparr>nw_states := (nw_states s)(x := (nw_states s x)\<lparr>dk_dgm := d\<rparr>)\<rparr>) E"
proof -
  let ?S = "nw_states s" and ?y = "(nw_states s x)\<lparr>dk_dgm := d\<rparr>"
  note inv = network_invD[OF inv]
  have same: "same_except (?S x) ?y {}"
    by (simp add: same_except_def)
  have "member_ok P n (?S(x := ?y)) a b" "pair_ok P (?S(x := ?y)) E a b" if "a \<noteq> b" for a b
    using unchanged_pairs[where S = ?S and x = x, OF same that] inv(2,3)[OF that] by auto
  moreover have "dk_my_id ?y = x"
    using inv(1) by simp
  ultimately show ?thesis
    using inv(1,4) by (intro network_invI) auto
qed

lemma network_inv_local:
  fixes G :: "('id, 'op, 'd, 'e) dgm_api"
  assumes inv: "network_inv P C n s E"
    and step: "dcgka_process P C G (nw_states s x) \<lparr>pi_seq = seq, pi_sender = x, pi_control = control, pi_direct = None\<rparr> = Inr (y, out)"
  shows "network_inv P C n (s\<lparr>nw_states := (nw_states s)(x := y)\<rparr>) E"
proof -
  let ?inp = "\<lparr>pi_seq = seq, pi_sender = x, pi_control = control, pi_direct = None\<rparr>"
  have "control \<noteq> Add (dk_my_id (nw_states s x))"
    using step by (auto simp: dcgka_process_def process_add_def bind_result_eq_Inr Let_def)
  then obtain d where "y = (nw_states s x)\<lparr>dk_dgm := d\<rparr>"
    using process_without_direct[of ?inp "nw_states s x" P C G] step by auto
  then show ?thesis
    using network_inv_replace[OF inv, of x d] by simp
qed

lemma network_inv_mono: "network_inv P C n s E \<Longrightarrow> network_inv P C (Suc n) s E"
  using member_ok_mono by (fastforce simp: network_inv_def)

lemma network_inv_step:
  assumes ok: "party_ok P" "codec_ok C" "dgm_ok G" and n: "Suc n < 2 ^ 64 - 1" and inv: "network_inv P C n s E"
    and step: "network_step P C G s s'"
  shows "\<exists>E'. network_inv P C (Suc n) s' E'"
  using step
proof cases
  case (operate now x p rnd y out seq)
  show ?thesis
    unfolding operate(1) using network_inv_operate[OF ok inv n operate(2,3)] .
next
  case (local x seq control y out)
  show ?thesis
    unfolding local(1) using network_inv_mono[OF network_inv_local[OF inv local(2)]] by blast
next
  case (deliver x i inp promised rest y out)
  then obtain E' where "network_inv P C n s' E'"
    using network_inv_process[where G = G, OF ok(1) inv deliver(2,3)] by auto
  then show ?thesis
    using network_inv_mono by blast
next
  case (replace x d)
  show ?thesis
    unfolding replace using network_inv_mono[OF network_inv_replace[OF inv]] by blast
qed

definition network_start :: "party_api \<Rightarrow> ('id, 'op, 'd) network \<Rightarrow> bool" where
  "network_start P s \<longleftrightarrow>
     (\<forall>x. dk_my_id (nw_states s x) = x \<and> dk_two_party (nw_states s x) = []) \<and>
     (\<forall>x i. nw_queue s x i = [] \<and> registry_ok (pa_curve P) (dk_pki (nw_states s x)) i (dk_my_keys (nw_states s i)))"

lemma network_start_inv: "network_start P s \<Longrightarrow> network_inv P C 0 s (\<lambda>_ _. [])"
  by (intro network_invI)
    (auto simp: network_start_def member_ok_def pair_ok_def stored_ok_def tp_of_def dir_ok_def next_ok_def refs_ok_def
      next_ref_def init_to_receive_def)

lemma network_inv_steps:
  assumes ok: "party_ok P" "codec_ok C" "dgm_ok G" and start: "network_start P s0"
    and steps: "(network_step P C G ^^ n) s0 s" and n: "n < 2 ^ 64 - 2"
  shows "\<exists>E. network_inv P C n s E"
  using steps n
proof (induction n arbitrary: s)
  case 0
  then show ?case
    using network_start_inv[OF start] by auto
next
  case (Suc n)
  then obtain t where t: "(network_step P C G ^^ n) s0 t" "network_step P C G t s"
    by auto
  have "\<exists>E. network_inv P C n t E"
    using Suc.prems(2) by (intro Suc.IH[OF t(1)]) simp
  moreover have "Suc n < 2 ^ 64 - 1"
    using Suc.prems(2) by simp
  ultimately show ?case
    using network_inv_step[OF ok _ _ t(2)] by blast
qed

text \<open>
  C5: any number of members create, update, add and remove in any interleaving, each with long-term key bundles that
  match the key managers of the others, over ordered streams between each pair. In every state reached in fewer than
  \<open>2 ^ 64 - 2\<close> steps, processing the next input of any stream gives the receiver exactly the secret, or the bundle
  of secrets, the sender meant for it, and nothing when it sent none; the only other outcome is an error of
  the group membership algorithm.
\<close>

theorem group_secrets_delivered:
  assumes "party_ok P" and "codec_ok C" and "dgm_ok G" and "network_start P s0"
    and "(network_step P C G ^^ n) s0 s" and "n < 2 ^ 64 - 2"
    and "x \<noteq> i" and "nw_queue s x i = (inp, promised) # rest"
  shows "(\<exists>err. dcgka_process P C G (nw_states s i) inp = Inl (DgmOperation err)) \<or>
    (\<exists>y. dcgka_process P C G (nw_states s i) inp = Inr (y, promised))"
  using network_inv_steps[OF assms(1-6)] network_inv_process[where G = G, OF assms(1) _ assms(7,8)] by blast

subsection \<open>A concrete group\<close>

definition list_dgm :: "('id, 'op, 'id list, unit) dgm_api" where
  "list_dgm =
     \<lparr>gm_create = (\<lambda>my_id ms. Inr (remdups ms)), gm_from_welcome = (\<lambda>my_id ms. Inr ms),
      gm_add = (\<lambda>ms adder added seq. Inr (List.insert added ms)), gm_remove = (\<lambda>ms remover removed seq. Inr (removeAll removed ms)),
      gm_members = (\<lambda>ms. Inr (remdups ms))\<rparr>"

lemma list_dgm_ok: "dgm_ok list_dgm"
  by (simp add: dgm_ok_def list_dgm_def)

definition byte_codec :: secret_codec where
  "byte_codec =
     \<lparr>sc_encode_secret = (\<lambda>s. if unat (gs_timestamp s) < 256 then Some (of_nat (unat (gs_timestamp s)) # gs_secret s) else None),
      sc_decode_secret = (\<lambda>bs. case bs of [] \<Rightarrow> None | t # secret \<Rightarrow> Some \<lparr>gs_secret = secret, gs_timestamp = of_nat (unat t)\<rparr>),
      sc_encode_secrets = (\<lambda>ss. if ss = [] then Some [] else None), sc_decode_secrets = (\<lambda>bs. Some []),
      sc_sha = pad_digest\<rparr>"

lemma byte_codec_ok: "codec_ok byte_codec"
proof -
  have "of_nat (unat (of_nat (unat i) :: u8)) = i" if "unat i < 256" for i :: u64
    using that by (simp add: word_unat_eq_iff unsigned_ucast_eq unsigned_take_bit_eq take_bit_nat_eq_self)
  then show ?thesis
    by (auto simp: codec_ok_def byte_codec_def split: if_splits)
qed

definition example_registry :: "nat key_registry" where
  "example_registry =
     (case prekey_bundle 15 example_manager of
        Some (Inr b) \<Rightarrow> (case add_longterm_bundle sum_curve 15 kr_init 2 b of Some (Inr y) \<Rightarrow> y))"

definition example_member :: "nat \<Rightarrow> (nat, nat list) dcgka_state" where
  "example_member i = dcgka_init i (if i = 2 then example_manager else km_init sum_curve [9]) example_registry []"

definition example_network :: "(nat, nat, nat list) network" where
  "example_network = \<lparr>nw_states = example_member, nw_queue = (\<lambda>_ _. [])\<rparr>"

lemma example_network_start: "network_start prefix_party example_network"
proof -
  let ?b = "projr (the (prekey_bundle 15 example_manager))"
  have bundles: "kr_longterm_bundles example_registry = [(2, [?b])]"
    by code_simp
  have "kb_onetime_prekey ?b = None" "kb_identity_key ?b = cv_public sum_curve (km_identity_secret example_manager)"
    "prekey_secret example_manager (pk_key (kb_signed_prekey ?b)) = Inr [2]" "pk_key (kb_signed_prekey ?b) = cv_public sum_curve [2]"
    by code_simp+
  then have "bundle_matches sum_curve example_manager ?b" "kb_onetime_prekey ?b = None"
    by (simp_all add: bundle_matches_def)
  then have "registry_ok sum_curve example_registry i (dk_my_keys (example_member i))" for i
    by (simp add: registry_ok_def bundles example_member_def dcgka_init_def)
  moreover have "pa_curve prefix_party = sum_curve"
    by (simp add: prefix_party_def)
  ultimately show ?thesis
    by (simp add: network_start_def example_network_def) (simp add: example_member_def dcgka_init_def)
qed

definition example_secret :: group_secret where
  "example_secret = \<lparr>gs_secret = [1, 2, 3], gs_timestamp = 5\<rparr>"

definition example_creation :: "(nat, nat list) dcgka_state \<times> (nat, nat list) operation_output" where
  "example_creation =
     projr (perform prefix_party byte_codec (list_dgm :: (nat, nat, nat list, unit) dgm_api) 15 (example_member 1)
       (OpCreate [1, 2] example_secret) (\<lambda>_. example_randomness))"

theorem group_secrets_delivered_witness:
  "\<exists>y. dcgka_process prefix_party byte_codec list_dgm (example_member 2)
     (fst (delivery byte_codec (0 :: nat) 1 (OpCreate [1, 2] example_secret) (snd example_creation) 2)) =
     Inr (y, NewSecret example_secret)"
proof -
  let ?p = "OpCreate [1, 2] example_secret" and ?G = "list_dgm :: (nat, nat, nat list, unit) dgm_api"
  let ?s = "example_network\<lparr>nw_states := (nw_states example_network)(1 := fst example_creation),
    nw_queue := \<lambda>a i. if a = 1 \<and> i \<noteq> 1 then nw_queue example_network a i @ [delivery byte_codec 0 1 ?p (snd example_creation) i]
      else nw_queue example_network a i\<rparr>"
  have "perform prefix_party byte_codec ?G 15 (example_member 1) ?p (\<lambda>_. example_randomness) =
      Inr (fst example_creation, snd example_creation)"
    by code_simp
  then have "perform prefix_party byte_codec ?G 15 (nw_states example_network 1) ?p (\<lambda>_. example_randomness) =
      Inr (fst example_creation, snd example_creation)"
    by (simp add: example_network_def)
  then have "network_step prefix_party byte_codec ?G example_network ?s"
    by (rule network_step.operate) simp
  then have steps: "(network_step prefix_party byte_codec ?G ^^ 1) example_network ?s"
    by (simp add: eq_OO)
  let ?d = "delivery byte_codec 0 1 ?p (snd example_creation) 2"
  have queue: "nw_queue ?s 1 2 = (fst ?d, snd ?d) # []"
    by (simp add: example_network_def delivery_def)
  have out: "snd ?d = NewSecret example_secret"
    and process: "\<not> isl (dcgka_process prefix_party byte_codec ?G (example_member 2) (fst ?d))"
    by code_simp+
  have member: "nw_states ?s 2 = example_member 2"
    by (simp add: example_network_def)
  have "(\<exists>err. dcgka_process prefix_party byte_codec ?G (nw_states ?s 2) (fst ?d) = Inl (DgmOperation err)) \<or>
      (\<exists>y. dcgka_process prefix_party byte_codec ?G (nw_states ?s 2) (fst ?d) = Inr (y, snd ?d))"
    by (rule group_secrets_delivered[OF prefix_party_ok byte_codec_ok list_dgm_ok example_network_start steps _ _ queue]) simp_all
  then show ?thesis
    unfolding member out using process by (metis isl_def)
qed

end
