(* ===== verification/Encryption_Ordering.thy ===== *)
theory Encryption_Ordering
  imports Encryption_Dcgka
begin

section \<open>The ordering interface of encryption groups\<close>

text \<open>
  The content of a message (\<open>p2panda-encryption/src/traits/message.rs\<close>), the loop of \<open>EncryptionGroup::receive\<close> in \<open>p2panda-encryption/src/data_scheme/group.rs\<close> that takes ready messages from the
  orderer, and the contract of \<open>traits/ordering.rs\<close> it relies on when messages arrive in order: a settled orderer has nothing to return, and
  returns a message once it is queued. The loop has fuel, with \<open>None\<close> when it is used up.
\<close>

datatype 'id group_content = Control "'id control_message" | Application group_secret_id bytes bytes

fun take_ready :: "('o \<Rightarrow> 'f + 'o \<times> 'm option) \<Rightarrow> nat \<Rightarrow> 'o \<Rightarrow> ('f + 'o \<times> 'm list) option" where
  "take_ready next_ready 0 orderer = None"
| "take_ready next_ready (Suc fuel) orderer =
     (case next_ready orderer of
        Inl e \<Rightarrow> Some (Inl e)
      | Inr (orderer, None) \<Rightarrow> Some (Inr (orderer, []))
      | Inr (orderer, Some message) \<Rightarrow>
          map_option (\<lambda>r. bind_result r (\<lambda>(orderer, messages). Inr (orderer, message # messages))) (take_ready next_ready fuel orderer))"

locale ordering_contract =
  fixes queue :: "'o \<Rightarrow> 'm \<Rightarrow> 'f + 'o" and next_ready :: "'o \<Rightarrow> 'f + 'o \<times> 'm option" and settled :: "'o \<Rightarrow> bool"
  assumes nothing_ready: "settled orderer \<Longrightarrow> next_ready orderer = Inr (orderer, None)"
    and queued_ready: "settled orderer \<Longrightarrow>
      \<exists>queued. queue orderer message = Inr queued \<and> (\<exists>rest. next_ready queued = Inr (rest, Some message) \<and> settled rest)"
begin

lemma queue_then_take:
  assumes "settled orderer"
  obtains queued rest where "queue orderer message = Inr queued" "settled rest"
    "take_ready next_ready (Suc (Suc fuel)) queued = Some (Inr (rest, [message]))"
proof -
  obtain queued rest where q: "queue orderer message = Inr queued" "next_ready queued = Inr (rest, Some message)" "settled rest"
    using queued_ready[OF assms] by blast
  then have "take_ready next_ready (Suc (Suc fuel)) queued = Some (Inr (rest, [message]))"
    by (simp add: nothing_ready bind_result_def)
  with q(1,3) show ?thesis
    by (rule that)
qed

end

end
