(* ===== verification/Encryption_Group.thy ===== *)
theory Encryption_Group
  imports Encryption_Network Encryption_Ordering
begin

section \<open>Encryption groups of the data scheme\<close>

text \<open>
  \<open>p2panda-encryption/src/data_scheme/group.rs\<close> and \<open>data.rs\<close>: the interface to create and change a group and to encrypt
  data for it. The ordering protocol and its message type are traits;
  their methods are fields of \<open>group_env\<close>. The XChaCha20 cipher is a pair of fields. Random bytes and the time are
  arguments that never fail, so the two errors of their sources, \<open>Rng\<close> and \<open>GroupSecret\<close>, do not occur.
\<close>

record ('id, 'op, 'd, 'e, 'o, 'm, 'f) group_env =
  ge_party :: party_api
  ge_codec :: secret_codec
  ge_dgm :: "('id, 'op, 'd, 'e) dgm_api"
  ge_encrypt :: "bytes \<Rightarrow> bytes \<Rightarrow> bytes \<Rightarrow> bytes option"
  ge_decrypt :: "bytes \<Rightarrow> bytes \<Rightarrow> bytes \<Rightarrow> bytes option"
  ge_id :: "'m \<Rightarrow> 'op"
  ge_sender :: "'m \<Rightarrow> 'id"
  ge_content :: "'m \<Rightarrow> 'id group_content"
  ge_directs :: "'m \<Rightarrow> ('id, 'd) direct_message list"
  ge_next_control :: "'o \<Rightarrow> 'id control_message \<Rightarrow> ('id, 'd) direct_message list \<Rightarrow> 'f + 'o \<times> 'm"
  ge_next_application :: "'o \<Rightarrow> group_secret_id \<Rightarrow> bytes \<Rightarrow> bytes \<Rightarrow> 'f + 'o \<times> 'm"
  ge_queue :: "'o \<Rightarrow> 'm \<Rightarrow> 'f + 'o"
  ge_set_welcome :: "'o \<Rightarrow> 'm \<Rightarrow> 'f + 'o"
  ge_next_ready :: "'o \<Rightarrow> 'f + 'o \<times> 'm option"

record ('id, 'd, 'o) data_group_state =
  gr_my_id :: 'id
  gr_dcgka :: "('id, 'd) dcgka_state"
  gr_orderer :: 'o
  gr_secrets :: secret_bundle
  gr_is_welcomed :: bool

record 'id group_random =
  gx_now :: u64
  gx_secret :: bytes
  gx_directs :: "'id \<Rightarrow> randomness"
  gx_nonce :: bytes

datatype 'm group_output = ControlOutput 'm | ApplicationOutput bytes | Removed

datatype ('id, 'e, 'f) group_error =
    DcgkaError "('id, 'e) dcgka_error"
  | OrdererError 'f
  | XAeadError
  | GroupAlreadyEstablished
  | GroupNotYetEstablished
  | NotAddOurselves
  | NoGroupSecretAvailable
  | UnknownGroupSecret group_secret_id

definition group_init :: "'id \<Rightarrow> key_manager \<Rightarrow> 'id key_registry \<Rightarrow> 'd \<Rightarrow> 'o \<Rightarrow> ('id, 'd, 'o) data_group_state" where
  "group_init my_id my_keys pki dgm orderer =
     \<lparr>gr_my_id = my_id, gr_dcgka = dcgka_init my_id my_keys pki dgm, gr_orderer = orderer, gr_secrets = bundle_init,
      gr_is_welcomed = False\<rparr>"

definition process_local ::
  "('id, 'op, 'd, 'e, 'o, 'm, 'f) group_env \<Rightarrow> ('id, 'd, 'o) data_group_state \<Rightarrow> ('id, 'd) operation_output \<Rightarrow> group_secret option \<Rightarrow>
   ('id, 'e, 'f) group_error + ('id, 'd, 'o) data_group_state \<times> 'm" where
  "process_local E y out group_secret =
     bind_result (map_error OrdererError (ge_next_control E (gr_orderer y) (oo_control out) (oo_directs out))) (\<lambda>(orderer, message).
     bind_result (map_error DcgkaError (dcgka_process (ge_party E) (ge_codec E) (ge_dgm E) (gr_dcgka y)
         \<lparr>pi_seq = ge_id E message, pi_sender = ge_sender E message, pi_control = oo_control out, pi_direct = None\<rparr>)) (\<lambda>(dcgka, _).
       Inr (y\<lparr>gr_orderer := orderer, gr_dcgka := dcgka,
              gr_secrets := (case group_secret of Some s \<Rightarrow> bundle_insert (sc_sha (ge_codec E)) (gr_secrets y) s | None \<Rightarrow> gr_secrets y)\<rparr>,
            message)))"

definition group_create ::
  "('id, 'op, 'd, 'e, 'o, 'm, 'f) group_env \<Rightarrow> ('id, 'd, 'o) data_group_state \<Rightarrow> 'id list \<Rightarrow> 'id group_random \<Rightarrow>
   ('id, 'e, 'f) group_error + ('id, 'd, 'o) data_group_state \<times> 'm" where
  "group_create E y initial_members rng =
     (if gr_is_welcomed y then Inl GroupAlreadyEstablished
      else let group_secret = bundle_generate (gr_secrets y) (gx_secret rng) (gx_now rng)
        in bind_result (map_error DcgkaError
             (dcgka_create (ge_party E) (ge_codec E) (gx_now rng) (gr_dcgka y) initial_members group_secret (gx_directs rng))) (\<lambda>(dcgka, pre).
           bind_result (process_local E (y\<lparr>gr_dcgka := dcgka\<rparr>) pre (Some group_secret)) (\<lambda>(y, message).
           bind_result (map_error OrdererError (ge_set_welcome E (gr_orderer y) message)) (\<lambda>orderer.
             Inr (y\<lparr>gr_orderer := orderer, gr_is_welcomed := True\<rparr>, message)))))"

definition group_add ::
  "('id, 'op, 'd, 'e, 'o, 'm, 'f) group_env \<Rightarrow> ('id, 'd, 'o) data_group_state \<Rightarrow> 'id \<Rightarrow> 'id group_random \<Rightarrow>
   ('id, 'e, 'f) group_error + ('id, 'd, 'o) data_group_state \<times> 'm" where
  "group_add E y added rng =
     (if \<not> gr_is_welcomed y then Inl GroupNotYetEstablished
      else if gr_my_id y = added then Inl NotAddOurselves
      else bind_result (map_error DcgkaError
             (dcgka_add (ge_party E) (ge_codec E) (gx_now rng) (gr_dcgka y) added (gr_secrets y) (gx_directs rng added))) (\<lambda>(dcgka, pre).
           process_local E (y\<lparr>gr_dcgka := dcgka\<rparr>) pre None))"

definition group_remove ::
  "('id, 'op, 'd, 'e, 'o, 'm, 'f) group_env \<Rightarrow> ('id, 'd, 'o) data_group_state \<Rightarrow> 'id \<Rightarrow> 'id group_random \<Rightarrow>
   ('id, 'e, 'f) group_error + ('id, 'd, 'o) data_group_state \<times> 'm" where
  "group_remove E y removed rng =
     (if \<not> gr_is_welcomed y then Inl GroupNotYetEstablished
      else let group_secret = bundle_generate (gr_secrets y) (gx_secret rng) (gx_now rng)
        in bind_result (map_error DcgkaError
             (dcgka_remove (ge_party E) (ge_codec E) (ge_dgm E) (gx_now rng) (gr_dcgka y) removed group_secret (gx_directs rng))) (\<lambda>(dcgka, pre).
           process_local E (y\<lparr>gr_dcgka := dcgka\<rparr>) pre (Some group_secret)))"

definition group_update ::
  "('id, 'op, 'd, 'e, 'o, 'm, 'f) group_env \<Rightarrow> ('id, 'd, 'o) data_group_state \<Rightarrow> 'id group_random \<Rightarrow>
   ('id, 'e, 'f) group_error + ('id, 'd, 'o) data_group_state \<times> 'm" where
  "group_update E y rng =
     (if \<not> gr_is_welcomed y then Inl GroupNotYetEstablished
      else let group_secret = bundle_generate (gr_secrets y) (gx_secret rng) (gx_now rng)
        in bind_result (map_error DcgkaError
             (dcgka_update (ge_party E) (ge_codec E) (ge_dgm E) (gx_now rng) (gr_dcgka y) group_secret (gx_directs rng))) (\<lambda>(dcgka, pre).
           process_local E (y\<lparr>gr_dcgka := dcgka\<rparr>) pre (Some group_secret)))"

definition encrypt_data :: "('id, 'op, 'd, 'e, 'o, 'm, 'f) group_env \<Rightarrow> bytes \<Rightarrow> group_secret \<Rightarrow> bytes \<Rightarrow> bytes option" where
  "encrypt_data E plaintext group_secret nonce = ge_encrypt E (gs_secret group_secret) plaintext nonce"

definition decrypt_data :: "('id, 'op, 'd, 'e, 'o, 'm, 'f) group_env \<Rightarrow> bytes \<Rightarrow> group_secret \<Rightarrow> bytes \<Rightarrow> bytes option" where
  "decrypt_data E ciphertext group_secret nonce = ge_decrypt E (gs_secret group_secret) ciphertext nonce"

definition group_encrypt ::
  "('id, 'op, 'd, 'e, 'o, 'm, 'f) group_env \<Rightarrow> group_secret \<Rightarrow> bytes \<Rightarrow> 'id group_random \<Rightarrow> ('id, 'e, 'f) group_error + bytes \<times> bytes" where
  "group_encrypt E group_secret plaintext rng =
     bind_result (option_result XAeadError (encrypt_data E plaintext group_secret (gx_nonce rng))) (\<lambda>ciphertext.
       Inr (gx_nonce rng, ciphertext))"

definition group_send ::
  "('id, 'op, 'd, 'e, 'o, 'm, 'f) group_env \<Rightarrow> ('id, 'd, 'o) data_group_state \<Rightarrow> bytes \<Rightarrow> 'id group_random \<Rightarrow>
   ('id, 'e, 'f) group_error + ('id, 'd, 'o) data_group_state \<times> 'm" where
  "group_send E y plaintext rng =
     (if \<not> gr_is_welcomed y then Inl GroupNotYetEstablished
      else (case bundle_latest (gr_secrets y) of
         None \<Rightarrow> Inl NoGroupSecretAvailable
       | Some group_secret \<Rightarrow>
           bind_result (group_encrypt E group_secret plaintext rng) (\<lambda>(nonce, ciphertext).
           bind_result (map_error OrdererError (ge_next_application E (gr_orderer y)
               (secret_id (sc_sha (ge_codec E)) group_secret) nonce ciphertext)) (\<lambda>(orderer, message).
             Inr (y\<lparr>gr_orderer := orderer\<rparr>, message)))))"

definition group_members :: "('id, 'op, 'd, 'e, 'o, 'm, 'f) group_env \<Rightarrow> ('id, 'd, 'o) data_group_state \<Rightarrow> ('id, 'e, 'f) group_error + 'id list" where
  "group_members E y = map_error DcgkaError (dcgka_members (ge_dgm E) (gr_dcgka y))"

definition update_secrets :: "('id, 'd, 'o) data_group_state \<Rightarrow> (secret_bundle \<Rightarrow> secret_bundle) \<Rightarrow> ('id, 'd, 'o) data_group_state" where
  "update_secrets y update_fn = y\<lparr>gr_secrets := update_fn (gr_secrets y)\<rparr>"

definition learn_secrets :: "(bytes \<Rightarrow> bytes) \<Rightarrow> secret_bundle \<Rightarrow> secret_output \<Rightarrow> secret_bundle" where
  "learn_secrets sha y out =
     (case out of
        NewSecret group_secret \<Rightarrow> bundle_insert sha y group_secret
      | NewBundle other \<Rightarrow> bundle_extend y other
      | NoSecret \<Rightarrow> y)"

definition process_remote ::
  "('id, 'op, 'd, 'e, 'o, 'm, 'f) group_env \<Rightarrow> ('id, 'd, 'o) data_group_state \<Rightarrow> ('id, 'op, 'd) process_input \<Rightarrow>
   ('id, 'e, 'f) group_error + ('id, 'd, 'o) data_group_state \<times> 'm option" where
  "process_remote E y inp =
     bind_result (map_error DcgkaError (dcgka_process (ge_party E) (ge_codec E) (ge_dgm E) (gr_dcgka y) inp)) (\<lambda>(dcgka, out).
       Inr (y\<lparr>gr_dcgka := dcgka,
              gr_secrets := learn_secrets (sc_sha (ge_codec E)) (gr_secrets y) out\<rparr>, None))"

definition group_decrypt ::
  "('id, 'op, 'd, 'e, 'o, 'm, 'f) group_env \<Rightarrow> ('id, 'd, 'o) data_group_state \<Rightarrow> bytes \<Rightarrow> group_secret_id \<Rightarrow> bytes \<Rightarrow>
   ('id, 'e, 'f) group_error + ('id, 'd, 'o) data_group_state \<times> bytes" where
  "group_decrypt E y nonce group_secret_id ciphertext =
     (case bundle_get (gr_secrets y) group_secret_id of
        None \<Rightarrow> Inl (UnknownGroupSecret group_secret_id)
      | Some group_secret \<Rightarrow>
          bind_result (option_result XAeadError (decrypt_data E ciphertext group_secret nonce)) (\<lambda>plaintext. Inr (y, plaintext)))"

definition process_ready ::
  "('id, 'op, 'd, 'e, 'o, 'm, 'f) group_env \<Rightarrow> ('id, 'd, 'o) data_group_state \<Rightarrow> 'm \<Rightarrow>
   ('id, 'e, 'f) group_error + ('id, 'd, 'o) data_group_state \<times> 'm group_output option" where
  "process_ready E y message =
     (case ge_content E message of
        Control control_message \<Rightarrow>
          (let direct_message = List.find (\<lambda>dm. dm_recipient dm = gr_my_id y) (ge_directs E message)
           in bind_result (process_remote E y \<lparr>pi_seq = ge_id E message, pi_sender = ge_sender E message,
                  pi_control = control_message, pi_direct = direct_message\<rparr>) (\<lambda>(y, out).
              bind_result (group_members E y) (\<lambda>members.
                let we_are_members = (gr_my_id y \<in> set members);
                    y = (if \<not> gr_is_welcomed y \<and> we_are_members then y\<lparr>gr_is_welcomed := True\<rparr> else y)
                in Inr (y, if gr_is_welcomed y \<and> \<not> we_are_members then Some Removed else map_option ControlOutput out))))
      | Application group_secret_id nonce ciphertext \<Rightarrow>
          bind_result (group_decrypt E y nonce group_secret_id ciphertext) (\<lambda>(y, plaintext).
            Inr (y, Some (ApplicationOutput plaintext))))"

fun process_all ::
  "('id, 'op, 'd, 'e, 'o, 'm, 'f) group_env \<Rightarrow> ('id, 'd, 'o) data_group_state \<Rightarrow> 'm list \<Rightarrow>
   ('id, 'e, 'f) group_error + ('id, 'd, 'o) data_group_state \<times> 'm group_output list" where
  "process_all E y [] = Inr (y, [])"
| "process_all E y (message # messages) =
     bind_result (process_ready E y message) (\<lambda>(y, out).
     bind_result (process_all E y messages) (\<lambda>(y, outs).
       Inr (y, (case out of None \<Rightarrow> outs | Some r \<Rightarrow> r # outs))))"

definition is_control :: "('id, 'op, 'd, 'e, 'o, 'm, 'f) group_env \<Rightarrow> 'm \<Rightarrow> bool" where
  "is_control E message = (case ge_content E message of Control _ \<Rightarrow> True | _ \<Rightarrow> False)"

definition is_create_or_welcome :: "('id, 'op, 'd, 'e, 'o, 'm, 'f) group_env \<Rightarrow> ('id, 'd, 'o) data_group_state \<Rightarrow> 'm \<Rightarrow> bool" where
  "is_create_or_welcome E y message =
     (case ge_content E message of
        Control (Create initial_members) \<Rightarrow> gr_my_id y \<in> set initial_members
      | Control (Add added) \<Rightarrow> \<not> gr_is_welcomed y \<and> added = gr_my_id y
      | _ \<Rightarrow> False)"

definition group_receive ::
  "('id, 'op, 'd, 'e, 'o, 'm, 'f) group_env \<Rightarrow> nat \<Rightarrow> ('id, 'd, 'o) data_group_state \<Rightarrow> 'm \<Rightarrow>
   (('id, 'e, 'f) group_error + ('id, 'd, 'o) data_group_state \<times> 'm group_output list) option" where
  "group_receive E fuel y message =
     (if (case ge_content E message of Control (Create _) \<Rightarrow> gr_is_welcomed y | _ \<Rightarrow> False) then Some (Inl GroupAlreadyEstablished)
      else case ge_queue E (gr_orderer y) message of
        Inl e \<Rightarrow> Some (Inl (OrdererError e))
      | Inr orderer \<Rightarrow>
          (let y = y\<lparr>gr_orderer := orderer\<rparr>
           in if \<not> gr_is_welcomed y \<and> \<not> is_create_or_welcome E y message then Some (Inr (y, []))
              else case (if \<not> gr_is_welcomed y \<and> is_create_or_welcome E y message
                         then ge_set_welcome E (gr_orderer y) message else Inr (gr_orderer y)) of
                Inl e \<Rightarrow> Some (Inl (OrdererError e))
              | Inr orderer \<Rightarrow>
                  (case take_ready (ge_next_ready E) fuel orderer of
                     None \<Rightarrow> None
                   | Some (Inl e) \<Rightarrow> Some (Inl (OrdererError e))
                   | Some (Inr (orderer, messages)) \<Rightarrow>
                       Some (process_all E (y\<lparr>gr_orderer := orderer\<rparr>)
                         (filter (is_control E) messages @ filter (\<lambda>m. \<not> is_control E m) messages)))))"

subsection \<open>Laws of the traits\<close>

text \<open>
  What the code relies on, next to \<open>ordering_contract\<close>: a message that was forged from one the orderer prepared holds what that one was
  made of, and the cipher opens what it sealed.
\<close>

definition publishes :: "('id, 'op, 'd, 'e, 'o, 'm, 'f) group_env \<Rightarrow> ('m \<Rightarrow> 'm \<Rightarrow> bool) \<Rightarrow> bool" where
  "publishes E forged \<longleftrightarrow>
     (\<forall>orderer control dms orderer' m r. ge_next_control E orderer control dms = Inr (orderer', m) \<longrightarrow> forged m r \<longrightarrow>
        ge_content E r = Control control \<and> ge_directs E r = dms) \<and>
     (\<forall>orderer i nonce c orderer' m r. ge_next_application E orderer i nonce c = Inr (orderer', m) \<longrightarrow> forged m r \<longrightarrow>
        ge_content E r = Application i nonce c)"

definition cipher_ok :: "('id, 'op, 'd, 'e, 'o, 'm, 'f) group_env \<Rightarrow> bool" where
  "cipher_ok E \<longleftrightarrow> (\<forall>k p nonce c. ge_encrypt E k p nonce = Some c \<longrightarrow> ge_decrypt E k c nonce = Some p)"

definition env_ok :: "('id, 'op, 'd, 'e, 'o, 'm, 'f) group_env \<Rightarrow> ('o \<Rightarrow> bool) \<Rightarrow> ('m \<Rightarrow> 'm \<Rightarrow> bool) \<Rightarrow> bool" where
  "env_ok E settled forged \<longleftrightarrow> party_ok (ge_party E) \<and> codec_ok (ge_codec E) \<and> sha_ok (sc_sha (ge_codec E)) \<and> dgm_ok (ge_dgm E) \<and>
     ordering_contract (ge_queue E) (ge_next_ready E) settled \<and> publishes E forged \<and> cipher_ok E"

text \<open>The two operations that give the group a new secret, with the removed member if there is one.\<close>

definition rekey ::
  "('id, 'op, 'd, 'e, 'o, 'm, 'f) group_env \<Rightarrow> ('id, 'd, 'o) data_group_state \<Rightarrow> 'id option \<Rightarrow> 'id group_random \<Rightarrow>
   ('id, 'e, 'f) group_error + ('id, 'd, 'o) data_group_state \<times> 'm" where
  "rekey E y removed rng = (case removed of None \<Rightarrow> group_update E y rng | Some r \<Rightarrow> group_remove E y r rng)"

abbreviation new_secret :: "('id, 'd, 'o) data_group_state \<Rightarrow> 'id group_random \<Rightarrow> group_secret" where
  "new_secret y rng \<equiv> bundle_generate (gr_secrets y) (gx_secret rng) (gx_now rng)"

definition rekey_op :: "'id option \<Rightarrow> group_secret \<Rightarrow> 'id dcgka_operation" where
  "rekey_op removed secret = (case removed of None \<Rightarrow> OpUpdate secret | Some r \<Rightarrow> OpRemove r secret)"

definition rekey_control :: "'id option \<Rightarrow> 'id control_message" where
  "rekey_control removed = (case removed of None \<Rightarrow> Update | Some r \<Rightarrow> Remove r)"

subsection \<open>A new secret and the next message\<close>

lemma rekeyE:
  fixes E :: "('id, 'op, 'd, 'e, 'o, 'm, 'f) group_env"
  assumes "rekey E y removed rng = Inr (y', m)"
  obtains dcgka out where
    "perform (ge_party E) (ge_codec E) (ge_dgm E) (gx_now rng) (gr_dcgka y) (rekey_op removed (new_secret y rng)) (gx_directs rng) =
       Inr (dcgka, out)"
    "oo_control out = rekey_control removed"
    "ge_next_control E (gr_orderer y) (rekey_control removed) (oo_directs out) = Inr (gr_orderer y', m)"
    "gr_secrets y' = bundle_insert (sc_sha (ge_codec E)) (gr_secrets y) (new_secret y rng)" "gr_is_welcomed y'"
proof -
  obtain dcgka out where out:
      "perform (ge_party E) (ge_codec E) (ge_dgm E) (gx_now rng) (gr_dcgka y) (rekey_op removed (new_secret y rng)) (gx_directs rng) =
        Inr (dcgka, out)"
      "process_local E (y\<lparr>gr_dcgka := dcgka\<rparr>) out (Some (new_secret y rng)) = Inr (y', m)" "gr_is_welcomed y"
    using assms
    by (auto simp: rekey_def rekey_op_def perform_def group_update_def group_remove_def Let_def bind_result_eq_Inr
        split: option.splits if_splits)
  have "oo_control out = rekey_control removed"
    using out(1) by (auto simp: perform_def rekey_op_def rekey_control_def dcgka_update_def dcgka_remove_def bind_result_eq_Inr
        split: option.splits)
  then show ?thesis
    using that[OF out(1)] out(2,3) by (auto simp: process_local_def bind_result_eq_Inr)
qed

lemma publishesD:
  assumes "publishes E forged"
  shows "ge_next_control E orderer control dms = Inr (orderer', m) \<Longrightarrow> forged m r \<Longrightarrow>
      ge_content E r = Control control \<and> ge_directs E r = dms"
    "ge_next_application E orderer i nonce c = Inr (orderer', m) \<Longrightarrow> forged m r \<Longrightarrow> ge_content E r = Application i nonce c"
  using assms unfolding publishes_def by blast+

lemma rekey_direct:
  fixes G :: "('id, 'op, 'd, 'e) dgm_api"
  assumes perform: "perform P C G now y (rekey_op removed secret) rnd = Inr (y', out)" and "dgm_ok G"
    and ms: "gm_members G (dk_dgm y) = Inr ms"
  shows "direct_for i out \<noteq> None \<longleftrightarrow> i \<in> set ms \<and> i \<noteq> dk_my_id y \<and> removed \<noteq> Some i"
proof -
  let ?rs = "filter (\<lambda>i. i \<noteq> dk_my_id y \<and> removed \<noteq> Some i) ms"
  have "send_group_secret P C now y ?rs secret rnd = (Inr (y', oo_directs out) :: ('id, 'e) dcgka_error + _)"
    using perform ms
    by (auto simp: perform_def rekey_op_def dcgka_update_def dcgka_remove_def dcgka_members_def bind_result_eq_Inr
        eq_commute[of _ "_ :: 'id"] split: option.splits)
  moreover have "distinct ?rs"
    using assms(2) ms by (simp add: dgm_ok_def)
  ultimately show ?thesis
    unfolding direct_for_def by (cases "i \<in> set ?rs - {dk_my_id y}") (force dest: send_group_secret_sent)+
qed

lemma group_receive_ready:
  assumes "ordering_contract (ge_queue E) (ge_next_ready E) settled" "settled (gr_orderer y)" "gr_is_welcomed y"
    and "\<And>ms. ge_content E m \<noteq> Control (Create ms)"
  obtains rest where "settled rest"
    "group_receive E (Suc (Suc fuel)) y m =
       Some (bind_result (process_ready E (y\<lparr>gr_orderer := rest\<rparr>) m) (\<lambda>(y, out). Inr (y, case out of None \<Rightarrow> [] | Some r \<Rightarrow> [r])))"
proof -
  obtain queued rest where q: "ge_queue E (gr_orderer y) m = Inr queued" "settled rest"
      "take_ready (ge_next_ready E) (Suc (Suc fuel)) queued = Some (Inr (rest, [m]))"
    by (rule ordering_contract.queue_then_take[OF assms(1,2)])
  then have "group_receive E (Suc (Suc fuel)) y m = Some (process_all E (y\<lparr>gr_orderer := rest\<rparr>) [m])"
    using assms(3,4) by (auto simp: group_receive_def simp del: take_ready.simps split: group_content.splits control_message.splits)
  then show ?thesis
    using that[OF q(2)] by (simp add: bind_result_def split: sum.splits)
qed

lemma receive_application:
  assumes "ordering_contract (ge_queue E) (ge_next_ready E) settled" "cipher_ok E" "settled (gr_orderer y)" "gr_is_welcomed y"
    and "ge_content E m = Application sid nonce c" "bundle_get (gr_secrets y) sid = Some secret"
    and "encrypt_data E plaintext secret nonce = Some c"
  shows "\<exists>y'. group_receive E (Suc (Suc fuel)) y m = Some (Inr (y', [ApplicationOutput plaintext]))"
proof -
  obtain rest where "group_receive E (Suc (Suc fuel)) y m =
      Some (bind_result (process_ready E (y\<lparr>gr_orderer := rest\<rparr>) m) (\<lambda>(y, out). Inr (y, case out of None \<Rightarrow> [] | Some r \<Rightarrow> [r])))"
    using group_receive_ready[OF assms(1,3,4)] assms(5) by (metis group_content.distinct(1))
  moreover have "decrypt_data E c secret nonce = Some plaintext"
    using assms(2,7) by (simp add: cipher_ok_def encrypt_data_def decrypt_data_def)
  ultimately show ?thesis
    using assms(5,6) by (simp add: process_ready_def group_decrypt_def bind_result_def option_result_def)
qed

lemma receive_unknown:
  assumes "ordering_contract (ge_queue E) (ge_next_ready E) settled" "settled (gr_orderer y)" "gr_is_welcomed y"
    and "ge_content E m = Application sid nonce c" "bundle_get (gr_secrets y) sid = None"
  shows "group_receive E (Suc (Suc fuel)) y m = Some (Inl (UnknownGroupSecret sid))"
proof -
  obtain rest where "group_receive E (Suc (Suc fuel)) y m =
      Some (bind_result (process_ready E (y\<lparr>gr_orderer := rest\<rparr>) m) (\<lambda>(y, out). Inr (y, case out of None \<Rightarrow> [] | Some r \<Rightarrow> [r])))"
    using group_receive_ready[OF assms(1-3)] assms(4) by (metis group_content.distinct(1))
  then show ?thesis
    using assms(4,5) by (simp add: process_ready_def group_decrypt_def bind_result_def)
qed

text \<open>After a new secret is made, the next message is encrypted with it.\<close>

lemma send_after_rekey:
  assumes "publishes E forged" "forged m r" "sha_ok (sc_sha (ge_codec E))" "bundle_wf (sc_sha (ge_codec E)) (gr_secrets y)"
    and "\<And>latest. bundle_latest (gr_secrets y) = Some latest \<Longrightarrow> gs_timestamp latest \<noteq> - 1"
    and "gr_secrets y' = bundle_insert (sc_sha (ge_codec E)) (gr_secrets y) (new_secret y rng)"
    and "group_send E y' plaintext rng' = Inr (y'', m)"
  obtains c where "ge_content E r = Application (secret_id (sc_sha (ge_codec E)) (new_secret y rng)) (gx_nonce rng') c"
    "encrypt_data E plaintext (new_secret y rng) (gx_nonce rng') = Some c"
proof -
  have "bundle_latest (gr_secrets y') = Some (new_secret y rng)"
    using generated_secret_latest[OF assms(3,4), of "gx_secret rng" "gx_now rng"] assms(5,6)
    by (auto simp: Let_def split: option.splits if_splits)
  then show ?thesis
    using assms(7) that publishesD(2)[OF assms(1) _ assms(2)]
    by (auto simp: group_send_def group_encrypt_def bind_result_eq_Inr option_result_def split: if_splits option.splits)
qed

lemma process_control_ready:
  assumes "ge_content E m = Control control"
    and "dcgka_process (ge_party E) (ge_codec E) (ge_dgm E) (gr_dcgka y)
       \<lparr>pi_seq = ge_id E m, pi_sender = ge_sender E m, pi_control = control,
        pi_direct = List.find (\<lambda>dm. dm_recipient dm = gr_my_id y) (ge_directs E m)\<rparr> = Inr (dcgka, out)"
    and "gr_is_welcomed y" "gm_members (ge_dgm E) (dk_dgm dcgka) = Inr ms"
  obtains y' where "process_ready E y m = Inr (y', if gr_my_id y \<in> set ms then None else Some Removed)"
    "gr_secrets y' = learn_secrets (sc_sha (ge_codec E)) (gr_secrets y) out"
    "gr_orderer y' = gr_orderer y" "gr_is_welcomed y'" "gr_dcgka y' = dcgka"
  using assms
  by (auto simp: process_ready_def process_remote_def group_members_def dcgka_members_def bind_result_def Let_def)

lemma process_control_failed:
  assumes "ge_content E m = Control control"
    and "dcgka_process (ge_party E) (ge_codec E) (ge_dgm E) (gr_dcgka y)
       \<lparr>pi_seq = ge_id E m, pi_sender = ge_sender E m, pi_control = control,
        pi_direct = List.find (\<lambda>dm. dm_recipient dm = gr_my_id y) (ge_directs E m)\<rparr> = r"
  shows "r = Inl err \<Longrightarrow> process_ready E y m = Inl (DcgkaError err)"
    "r = Inr (dcgka, out) \<Longrightarrow> gm_members (ge_dgm E) (dk_dgm dcgka) = Inl e \<Longrightarrow>
       process_ready E y m = Inl (DcgkaError (GroupMembership e))"
  using assms
  by (auto simp: process_ready_def process_remote_def group_members_def dcgka_members_def bind_result_def Let_def)

definition dgm_failure :: "('id, 'e, 'f) group_error \<Rightarrow> bool" where
  "dgm_failure err \<longleftrightarrow> (\<exists>e. err = DcgkaError (DgmOperation e) \<or> err = DcgkaError (GroupMembership e))"

lemma receive_control:
  assumes "ordering_contract (ge_queue E) (ge_next_ready E) settled" "settled (gr_orderer y)" "gr_is_welcomed y" "ge_content E m = Control control" "\<And>ms. control \<noteq> Create ms"
    and r: "dcgka_process (ge_party E) (ge_codec E) (ge_dgm E) (gr_dcgka y)
       \<lparr>pi_seq = ge_id E m, pi_sender = ge_sender E m, pi_control = control,
        pi_direct = List.find (\<lambda>dm. dm_recipient dm = gr_my_id y) (ge_directs E m)\<rparr> = r"
    and ok: "(\<exists>e. r = Inl (DgmOperation e)) \<or> (\<exists>dcgka. r = Inr (dcgka, out))"
  shows "(\<exists>err. group_receive E (Suc (Suc fuel)) y m = Some (Inl err) \<and> dgm_failure err) \<or>
    (\<exists>y' ms. group_receive E (Suc (Suc fuel)) y m = Some (Inr (y', if gr_my_id y \<in> set ms then [] else [Removed])) \<and>
       gm_members (ge_dgm E) (dk_dgm (gr_dcgka y')) = Inr ms \<and> settled (gr_orderer y') \<and> gr_is_welcomed y' \<and>
       gr_secrets y' = learn_secrets (sc_sha (ge_codec E)) (gr_secrets y) out)"
proof -
  have no_create: "\<And>ms. ge_content E m \<noteq> Control (Create ms)"
    using assms(4,5) by simp
  obtain rest where rest: "settled rest" "group_receive E (Suc (Suc fuel)) y m =
      Some (bind_result (process_ready E (y\<lparr>gr_orderer := rest\<rparr>) m) (\<lambda>(y, out). Inr (y, case out of None \<Rightarrow> [] | Some r \<Rightarrow> [r])))"
    by (rule group_receive_ready[OF assms(1-3) no_create])
  let ?y = "y\<lparr>gr_orderer := rest\<rparr>"
  have r': "dcgka_process (ge_party E) (ge_codec E) (ge_dgm E) (gr_dcgka ?y)
       \<lparr>pi_seq = ge_id E m, pi_sender = ge_sender E m, pi_control = control,
        pi_direct = List.find (\<lambda>dm. dm_recipient dm = gr_my_id ?y) (ge_directs E m)\<rparr> = r"
    using r by simp
  consider e where "r = Inl (DgmOperation e)" | dcgka e where "r = Inr (dcgka, out)" "gm_members (ge_dgm E) (dk_dgm dcgka) = Inl e"
    | dcgka ms where "r = Inr (dcgka, out)" "gm_members (ge_dgm E) (dk_dgm dcgka) = Inr ms"
    using ok by (metis sum.exhaust)
  then show ?thesis
  proof cases
    case (3 dcgka ms)
    obtain y' where "process_ready E ?y m = Inr (y', if gr_my_id ?y \<in> set ms then None else Some Removed)"
      "gr_secrets y' = learn_secrets (sc_sha (ge_codec E)) (gr_secrets ?y) out"
      "gr_orderer y' = gr_orderer ?y" "gr_is_welcomed y'" "gr_dcgka y' = dcgka"
      using process_control_ready[OF assms(4) r'[unfolded 3(1)] _ 3(2)] assms(3) by auto
    then show ?thesis
      using rest 3(2) by (intro disjI2 exI[of _ y'] exI[of _ ms]) (simp add: bind_result_def)
  qed (use rest process_control_failed[OF assms(4) r'] in \<open>auto simp: bind_result_def dgm_failure_def\<close>)
qed

lemma rekey_control_not_create: "rekey_control removed \<noteq> Create ms"
  by (simp add: rekey_control_def split: option.splits)

lemma rekey_delivered:
  fixes G :: "('id, 'op, 'd, 'e) dgm_api"
  assumes ok: "party_ok P" "codec_ok C" "dgm_ok G" and start: "network_start P s0"
    and steps: "(network_step P C G ^^ n) s0 s" and n: "Suc n < 2 ^ 64 - 2" and "x \<noteq> i" and queue: "nw_queue s x i = []"
    and perform: "perform P C G now (nw_states s x) (rekey_op removed secret) rnd = Inr (y, out)"
    and direct: "direct_for i out \<noteq> None"
    and r: "dcgka_process P C G (nw_states s i) \<lparr>pi_seq = seq, pi_sender = x, pi_control = oo_control out, pi_direct = direct_for i out\<rparr> = r"
  shows "(\<exists>e. r = Inl (DgmOperation e)) \<or> (\<exists>dcgka. r = Inr (dcgka, NewSecret secret))"
proof -
  let ?p = "rekey_op removed secret"
  let ?s = "s\<lparr>nw_states := (nw_states s)(x := y),
    nw_queue := \<lambda>a b. if a = x \<and> b \<noteq> x then nw_queue s a b @ [delivery C seq x ?p out b] else nw_queue s a b\<rparr>"
  have op: "op_output C ?p = NewSecret secret" "\<And>b. ?p \<noteq> OpAdd x b"
    by (auto simp: op_output_def rekey_op_def split: option.splits)
  obtain E where "network_inv P C n s E"
    using network_inv_steps[OF ok start steps] n by auto
  then obtain E' where inv: "network_inv P C (Suc n) ?s E'"
    using network_inv_operate[OF ok _ _ perform op(2)] n by fastforce
  have "nw_queue ?s x i = (fst (delivery C seq x ?p out i), snd (delivery C seq x ?p out i)) # []"
    using \<open>x \<noteq> i\<close> queue by simp
  from network_inv_process[OF ok(1) inv \<open>x \<noteq> i\<close> this, where G = G] show ?thesis
    using \<open>x \<noteq> i\<close> direct op(1) r by (auto simp: delivery_def)
qed

text \<open>
  C4: In a group reached by any run of the key agreement, when a member updates the group or removes someone, every other
  member of its view decrypts what it sends next: the member receives the control message that was forged from what the
  orderer prepared, and then the data, and gets the plaintext. The only other outcome is an error of the membership algorithm.
\<close>
theorem rekeyed_members_decrypt:
  fixes E :: "('id, 'op, 'd, 'e, 'o, 'm, 'f) group_env"
  assumes env: "env_ok E settled forged" and start: "network_start (ge_party E) s0"
    and steps: "(network_step (ge_party E) (ge_codec E) (ge_dgm E) ^^ n) s0 s" and n: "Suc n < 2 ^ 64 - 2"
    and "x \<noteq> i" and queue: "nw_queue s x i = []"
    and sender: "gr_dcgka yx = nw_states s x" "bundle_wf (sc_sha (ge_codec E)) (gr_secrets yx)"
      "\<And>latest. bundle_latest (gr_secrets yx) = Some latest \<Longrightarrow> gs_timestamp latest \<noteq> - 1"
    and receiver: "gr_dcgka yi = nw_states s i" "gr_my_id yi = i" "gr_is_welcomed yi" "settled (gr_orderer yi)"
    and members: "gm_members (ge_dgm E) (dk_dgm (nw_states s x)) = Inr ms" "i \<in> set ms" "removed \<noteq> Some i"
    and rekey: "rekey E yx removed rng = Inr (yx', m1)" "forged m1 r1" "ge_sender E r1 = x"
    and send: "group_send E yx' plaintext rng' = Inr (yx'', m2)" "forged m2 r2"
  shows "(\<exists>err. group_receive E (Suc (Suc fuel)) yi r1 = Some (Inl err) \<and> dgm_failure err) \<or>
    (\<exists>yi' outs yi''. group_receive E (Suc (Suc fuel)) yi r1 = Some (Inr (yi', outs)) \<and>
       group_receive E (Suc (Suc fuel)) yi' r2 = Some (Inr (yi'', [ApplicationOutput plaintext])))"
proof -
  have ok: "party_ok (ge_party E)" "codec_ok (ge_codec E)" "dgm_ok (ge_dgm E)" "sha_ok (sc_sha (ge_codec E))"
      "ordering_contract (ge_queue E) (ge_next_ready E) settled" "publishes E forged" "cipher_ok E"
    using env by (simp_all add: env_ok_def)
  obtain dcgka out where out:
      "perform (ge_party E) (ge_codec E) (ge_dgm E) (gx_now rng) (nw_states s x) (rekey_op removed (new_secret yx rng)) (gx_directs rng) =
        Inr (dcgka, out)"
      "oo_control out = rekey_control removed" "ge_content E r1 = Control (rekey_control removed)" "ge_directs E r1 = oo_directs out"
      "gr_secrets yx' = bundle_insert (sc_sha (ge_codec E)) (gr_secrets yx) (new_secret yx rng)"
    using rekeyE[OF rekey(1)] publishesD(1)[OF ok(6) _ rekey(2)] unfolding sender(1) by metis
  have "dk_my_id (nw_states s x) = x"
    using network_inv_steps[OF ok(1-3) start steps] n network_invD(1) by fastforce
  then have direct: "direct_for i out \<noteq> None"
    using rekey_direct[OF out(1) ok(3) members(1), of i] members(2,3) \<open>x \<noteq> i\<close> by simp
  let ?r = "dcgka_process (ge_party E) (ge_codec E) (ge_dgm E) (gr_dcgka yi)
       \<lparr>pi_seq = ge_id E r1, pi_sender = ge_sender E r1, pi_control = rekey_control removed,
        pi_direct = List.find (\<lambda>dm. dm_recipient dm = gr_my_id yi) (ge_directs E r1)\<rparr>"
  have "(\<exists>e. ?r = Inl (DgmOperation e)) \<or> (\<exists>dcgka. ?r = Inr (dcgka, NewSecret (new_secret yx rng)))"
    by (rule rekey_delivered[OF ok(1-3) start steps n \<open>x \<noteq> i\<close> queue out(1) direct])
      (simp add: receiver rekey(3) out direct_for_def)
  from receive_control[OF ok(5) receiver(4,3) out(3) rekey_control_not_create refl this, of fuel] show ?thesis
  proof (elim disjE exE conjE, goal_cases)
    case (2 yi' ms')
    obtain c where c: "ge_content E r2 = Application (secret_id (sc_sha (ge_codec E)) (new_secret yx rng)) (gx_nonce rng') c"
        "encrypt_data E plaintext (new_secret yx rng) (gx_nonce rng') = Some c"
      by (rule send_after_rekey[OF ok(6) send(2) ok(4) sender(2,3) out(5) send(1)])
    have "bundle_get (gr_secrets yi') (secret_id (sc_sha (ge_codec E)) (new_secret yx rng)) = Some (new_secret yx rng)"
      using 2(5) by (simp add: learn_secrets_def bundle_get_def bundle_insert_def bundle_of_def)
    from receive_application[OF ok(5,7) 2(3,4) c(1) this c(2)] 2(1) show ?case
      by blast
  qed blast
qed

text \<open>
  C10: A removed member cannot read what the remover sends afterwards. The control message has nothing for it, its secrets
  stay as they were, it is told that it was removed once its view no longer has it, and the next message fails with
  \<open>UnknownGroupSecret\<close>, as long as the new secret is not one it already had.
\<close>
theorem removed_member_locked_out:
  fixes E :: "('id, 'op, 'd, 'e, 'o, 'm, 'f) group_env"
  assumes env: "env_ok E settled forged" and sender: "bundle_wf (sc_sha (ge_codec E)) (gr_secrets yx)"
      "\<And>latest. bundle_latest (gr_secrets yx) = Some latest \<Longrightarrow> gs_timestamp latest \<noteq> - 1"
      "gm_members (ge_dgm E) (dk_dgm (gr_dcgka yx)) = Inr ms"
    and removed: "gr_my_id yr = r" "dk_my_id (gr_dcgka yr) = r" "gr_is_welcomed yr" "settled (gr_orderer yr)"
      "bundle_get (gr_secrets yr) (sc_sha (ge_codec E) (gx_secret rng)) = None"
    and remove: "group_remove E yx r rng = Inr (yx', m1)" "forged m1 r1"
    and send: "group_send E yx' plaintext rng' = Inr (yx'', m2)" "forged m2 r2"
  shows "(\<exists>err. group_receive E (Suc (Suc fuel)) yr r1 = Some (Inl err) \<and> dgm_failure err) \<or>
    (\<exists>yr' left. group_receive E (Suc (Suc fuel)) yr r1 = Some (Inr (yr', if r \<in> set left then [] else [Removed])) \<and>
       group_members E yr' = Inr left \<and> gr_secrets yr' = gr_secrets yr \<and>
       group_receive E (Suc (Suc fuel)) yr' r2 = Some (Inl (UnknownGroupSecret (sc_sha (ge_codec E) (gx_secret rng)))))"
proof -
  have ok: "dgm_ok (ge_dgm E)" "sha_ok (sc_sha (ge_codec E))" "ordering_contract (ge_queue E) (ge_next_ready E) settled" "publishes E forged"
    using env by (simp_all add: env_ok_def)
  have rekey: "rekey E yx (Some r) rng = Inr (yx', m1)"
    using remove(1) by (simp add: rekey_def)
  obtain dcgka out where out:
      "perform (ge_party E) (ge_codec E) (ge_dgm E) (gx_now rng) (gr_dcgka yx) (rekey_op (Some r) (new_secret yx rng)) (gx_directs rng) =
        Inr (dcgka, out)"
      "ge_content E r1 = Control (rekey_control (Some r))" "ge_directs E r1 = oo_directs out"
      "gr_secrets yx' = bundle_insert (sc_sha (ge_codec E)) (gr_secrets yx) (new_secret yx rng)"
    using rekeyE[OF rekey] publishesD(1)[OF ok(4) _ remove(2)] by metis
  have none: "direct_for r out = None"
    using rekey_direct[OF out(1) ok(1) sender(3), of r] by simp
  let ?inp = "\<lparr>pi_seq = ge_id E r1, pi_sender = ge_sender E r1, pi_control = rekey_control (Some r),
        pi_direct = List.find (\<lambda>dm. dm_recipient dm = gr_my_id yr) (ge_directs E r1)\<rparr>"
  let ?r = "dcgka_process (ge_party E) (ge_codec E) (ge_dgm E) (gr_dcgka yr) ?inp"
  have "(\<exists>e. ?r = Inl (DgmOperation e)) \<or> (\<exists>dcgka. ?r = Inr (dcgka, NoSecret))"
    using process_without_direct[of ?inp "gr_dcgka yr" "ge_party E" "ge_codec E" "ge_dgm E"] none
    by (auto simp: removed out(3) direct_for_def rekey_control_def)
  from receive_control[OF ok(3) removed(4,3) out(2) rekey_control_not_create refl this, of fuel] show ?thesis
  proof (elim disjE exE conjE, goal_cases)
    case (2 yr' left)
    obtain c where c: "ge_content E r2 = Application (secret_id (sc_sha (ge_codec E)) (new_secret yx rng)) (gx_nonce rng') c"
      by (rule send_after_rekey[OF ok(4) send(2) ok(2) sender(1,2) out(4) send(1)])
    have sid: "secret_id (sc_sha (ge_codec E)) (new_secret yx rng) = sc_sha (ge_codec E) (gx_secret rng)"
      by (simp add: secret_id_def bundle_generate_def secret_from_bytes_def set_timestamp_def Let_def)
    have same: "gr_secrets yr' = gr_secrets yr"
      using 2(5) by (simp add: learn_secrets_def)
    have "group_receive E (Suc (Suc fuel)) yr' r2 = Some (Inl (UnknownGroupSecret (sc_sha (ge_codec E) (gx_secret rng))))"
      by (rule receive_unknown[OF ok(3) 2(3,4) c[unfolded sid]]) (simp add: same removed)
    with 2(1,2) same show ?case
      by (intro disjI2 exI[of _ yr'] exI[of _ left]) (simp add: removed group_members_def dcgka_members_def)
  qed blast
qed

text \<open>
  Removing ourselves is not a removal for our own state: we stay welcomed and hold the secret the others use from then on.
\<close>
lemma self_removal_keeps_secret:
  assumes "group_remove E y (gr_my_id y) rng = Inr (y', m)"
  shows "gr_is_welcomed y' \<and>
    bundle_get (gr_secrets y') (secret_id (sc_sha (ge_codec E)) (new_secret y rng)) = Some (new_secret y rng)"
proof -
  have "rekey E y (Some (gr_my_id y)) rng = Inr (y', m)"
    using assms by (simp add: rekey_def)
  then show ?thesis
    by (rule rekeyE) (simp add: bundle_get_def bundle_insert_def bundle_of_def)
qed

end
