(* ===== verification/Spaces_Encryption.thy ===== *)
theory Spaces_Encryption
  imports Encryption_Group Auth_Graph
begin

section \<open>Encryption in spaces\<close>

text \<open>
  \<open>p2panda-spaces/src/encryption\<close>: the membership, the message and the orderer with which spaces use the groups of the
  data scheme (\<open>dgm.rs\<close>, \<open>message.rs\<close> and \<open>orderer.rs\<close>). The dependency graph is that of \<open>petgraph\<close>, the record
  \<open>graph_api\<close>. The content of a message that is not forged yet is unreachable in the code and has no equation. The id a
  message without an entry in the map stands for is a panic, the error \<open>InconsistentIds\<close>. \<open>from_membership\<close>,
  which depends on the authorization messages, is not modelled.
\<close>

subsection \<open>Membership\<close>

record 'id membership_state =
  em_members :: "'id list"

definition spaces_dgm :: "('id, 'op, 'id membership_state, 'e) dgm_api" where
  "spaces_dgm =
     \<lparr>gm_create = (\<lambda>my_id initial_members. Inr \<lparr>em_members = initial_members\<rparr>),
      gm_from_welcome = (\<lambda>my_id y. Inr y),
      gm_add = (\<lambda>y adder added operation_id. Inr y),
      gm_remove = (\<lambda>y remover removed operation_id. Inr y),
      gm_members = (\<lambda>y. Inr (remdups (em_members y)))\<rparr>"

lemma spaces_dgm_ok: "dgm_ok spaces_dgm"
  by (simp add: dgm_ok_def spaces_dgm_def)

subsection \<open>Messages\<close>

datatype ('id, 'op, 'd) encryption_args =
    SystemArgs "'op list" "'id control_message" "('id, 'd) direct_message list"
  | ApplicationArgs "'op list" group_secret_id bytes bytes

datatype ('id, 'op, 'd) encryption_message =
    Args "('id, 'op, 'd) encryption_args"
  | Forged 'id 'op "('id, 'op, 'd) encryption_args"

record ('id, 'op) application_message =
  am_id :: 'op
  am_author :: 'id
  am_space_dependencies :: "'op list"
  am_proof :: "'op list"
  am_group_secret_id :: group_secret_id
  am_nonce :: bytes
  am_ciphertext :: bytes

definition from_application :: "('id, 'op) application_message \<Rightarrow> ('id, 'op, 'd) encryption_message" where
  "from_application m =
     Forged (am_author m) (am_id m) (ApplicationArgs (am_space_dependencies m) (am_group_secret_id m) (am_nonce m) (am_ciphertext m))"

fun message_id :: "'op \<Rightarrow> ('id, 'op, 'd) encryption_message \<Rightarrow> 'op" where
  "message_id hash_placeholder (Args _) = hash_placeholder"
| "message_id hash_placeholder (Forged author operation_id args) = operation_id"

fun message_sender :: "'id \<Rightarrow> ('id, 'op, 'd) encryption_message \<Rightarrow> 'id" where
  "message_sender key_placeholder (Args _) = key_placeholder"
| "message_sender key_placeholder (Forged author operation_id args) = author"

fun message_content :: "('id, 'op, 'd) encryption_message \<Rightarrow> 'id group_content" where
  "message_content (Forged author operation_id (SystemArgs dependencies control_message direct_messages)) = Control control_message"
| "message_content (Forged author operation_id (ApplicationArgs dependencies group_secret_id nonce ciphertext)) =
     Application group_secret_id nonce ciphertext"

definition message_args :: "('id, 'op, 'd) encryption_message \<Rightarrow> ('id, 'op, 'd) encryption_args" where
  "message_args m = (case m of Args args \<Rightarrow> args | Forged _ _ args \<Rightarrow> args)"

definition message_directs :: "('id, 'op, 'd) encryption_message \<Rightarrow> ('id, 'd) direct_message list" where
  "message_directs m =
     (case message_args m of
        SystemArgs _ _ direct_messages \<Rightarrow> direct_messages
      | ApplicationArgs _ _ _ _ \<Rightarrow> [])"

subsection \<open>Orderer\<close>

record ('g, 'id, 'op, 'd) encryption_orderer =
  eo_heads :: "'op list"
  eo_graph :: 'g
  eo_queue :: "'op list"
  eo_messages :: "('op, ('id, 'op, 'd) encryption_message) amap"
  eo_welcome_message :: "('id, 'op, 'd) encryption_message option"

datatype orderer_panic = InconsistentIds

definition encryption_orderer_new :: "('g, 'op) graph_api \<Rightarrow> ('g, 'id, 'op, 'd) encryption_orderer" where
  "encryption_orderer_new A = \<lparr>eo_heads = [], eo_graph = g_empty A, eo_queue = [], eo_messages = [], eo_welcome_message = None\<rparr>"

definition add_dependency ::
  "('g, 'op) graph_api \<Rightarrow> ('g, 'id, 'op, 'd) encryption_orderer \<Rightarrow> 'op \<Rightarrow> 'op list \<Rightarrow> ('g, 'id, 'op, 'd) encryption_orderer" where
  "add_dependency A y i dependencies =
     (if i \<in> set (g_nodes A (eo_graph y)) then y
      else let graph = foldl (\<lambda>g dependency. g_add_edge A dependency i g) (g_add_node A i (eo_graph y)) dependencies
        in y\<lparr>eo_graph := graph, eo_heads := g_externals A graph\<rparr>)"

definition orderer_is_welcomed :: "('g, 'id, 'op, 'd) encryption_orderer \<Rightarrow> bool" where
  "orderer_is_welcomed y \<longleftrightarrow> eo_welcome_message y \<noteq> None"

definition has_seen :: "('g, 'op) graph_api \<Rightarrow> ('g, 'id, 'op, 'd) encryption_orderer \<Rightarrow> 'op \<Rightarrow> bool" where
  "has_seen A y i \<longleftrightarrow> i \<in> set (g_nodes A (eo_graph y))"

definition orderer_next_control ::
  "('g, 'id, 'op, 'd) encryption_orderer \<Rightarrow> 'id control_message \<Rightarrow> ('id, 'd) direct_message list \<Rightarrow>
   orderer_panic + ('g, 'id, 'op, 'd) encryption_orderer \<times> ('id, 'op, 'd) encryption_message" where
  "orderer_next_control y control_message direct_messages =
     Inr (y, Args (SystemArgs (eo_heads y) control_message direct_messages))"

definition orderer_next_application ::
  "('g, 'id, 'op, 'd) encryption_orderer \<Rightarrow> group_secret_id \<Rightarrow> bytes \<Rightarrow> bytes \<Rightarrow>
   orderer_panic + ('g, 'id, 'op, 'd) encryption_orderer \<times> ('id, 'op, 'd) encryption_message" where
  "orderer_next_application y group_secret_id nonce ciphertext =
     Inr (y, Args (ApplicationArgs (eo_heads y) group_secret_id nonce ciphertext))"

definition orderer_queue ::
  "'op \<Rightarrow> ('g, 'id, 'op, 'd) encryption_orderer \<Rightarrow> ('id, 'op, 'd) encryption_message \<Rightarrow>
   orderer_panic + ('g, 'id, 'op, 'd) encryption_orderer" where
  "orderer_queue h y message =
     (let i = message_id h message
      in Inr (y\<lparr>eo_messages := amap_insert i message (eo_messages y), eo_queue := eo_queue y @ [i]\<rparr>))"

definition orderer_set_welcome ::
  "('g, 'id, 'op, 'd) encryption_orderer \<Rightarrow> ('id, 'op, 'd) encryption_message \<Rightarrow> orderer_panic + ('g, 'id, 'op, 'd) encryption_orderer" where
  "orderer_set_welcome y message = Inr (y\<lparr>eo_welcome_message := Some message\<rparr>)"

definition orderer_next_ready ::
  "('g, 'id, 'op, 'd) encryption_orderer \<Rightarrow>
   orderer_panic + ('g, 'id, 'op, 'd) encryption_orderer \<times> ('id, 'op, 'd) encryption_message option" where
  "orderer_next_ready y =
     (if eo_welcome_message y = None then Inr (y, None)
      else case eo_queue y of
        [] \<Rightarrow> Inr (y, None)
      | i # rest \<Rightarrow>
          (case map_of (eo_messages y) i of
             None \<Rightarrow> Inl InconsistentIds
           | Some message \<Rightarrow> Inr (y\<lparr>eo_queue := rest\<rparr>, Some message)))"

text \<open>Once we are welcomed and have taken all messages, the orderer returns each message as it is queued.\<close>

definition orderer_settled :: "('g, 'id, 'op, 'd) encryption_orderer \<Rightarrow> bool" where
  "orderer_settled y \<longleftrightarrow> orderer_is_welcomed y \<and> eo_queue y = []"

interpretation so: ordering_contract "orderer_queue h" orderer_next_ready orderer_settled for h
  by unfold_locales (auto simp: orderer_queue_def orderer_next_ready_def orderer_settled_def orderer_is_welcomed_def Let_def)

subsection \<open>Runs of the orderer\<close>

datatype ('id, 'op, 'd) orderer_event =
    QueueEvent "('id, 'op, 'd) encryption_message"
  | WelcomeEvent "('id, 'op, 'd) encryption_message"
  | ReadyEvent
  | DependencyEvent 'op "'op list"

fun orderer_do ::
  "('g, 'op) graph_api \<Rightarrow> 'op \<Rightarrow> ('g, 'id, 'op, 'd) encryption_orderer \<Rightarrow> ('id, 'op, 'd) orderer_event \<Rightarrow>
   orderer_panic + ('g, 'id, 'op, 'd) encryption_orderer \<times> ('id, 'op, 'd) encryption_message list" where
  "orderer_do A h y (QueueEvent m) = bind_result (orderer_queue h y m) (\<lambda>y. Inr (y, []))"
| "orderer_do A h y (WelcomeEvent m) = bind_result (orderer_set_welcome y m) (\<lambda>y. Inr (y, []))"
| "orderer_do A h y ReadyEvent =
     bind_result (orderer_next_ready y) (\<lambda>(y, out). Inr (y, case out of None \<Rightarrow> [] | Some m \<Rightarrow> [m]))"
| "orderer_do A h y (DependencyEvent i dependencies) = Inr (add_dependency A y i dependencies, [])"

fun space_orderer_run ::
  "('g, 'op) graph_api \<Rightarrow> 'op \<Rightarrow> ('g, 'id, 'op, 'd) encryption_orderer \<Rightarrow> ('id, 'op, 'd) orderer_event list \<Rightarrow>
   orderer_panic + ('g, 'id, 'op, 'd) encryption_orderer \<times> ('id, 'op, 'd) encryption_message list" where
  "space_orderer_run A h y [] = Inr (y, [])"
| "space_orderer_run A h y (event # events) =
     bind_result (orderer_do A h y event) (\<lambda>(y, out).
     bind_result (space_orderer_run A h y events) (\<lambda>(y, outs). Inr (y, out @ outs)))"

definition queued_messages :: "('id, 'op, 'd) orderer_event list \<Rightarrow> ('id, 'op, 'd) encryption_message list" where
  "queued_messages events = concat (map (\<lambda>event. case event of QueueEvent m \<Rightarrow> [m] | _ \<Rightarrow> []) events)"

lemma queued_messages_simps [simp]:
  "queued_messages [] = []" "queued_messages (QueueEvent m # events) = m # queued_messages events"
  "queued_messages (WelcomeEvent m # events) = queued_messages events"
  "queued_messages (ReadyEvent # events) = queued_messages events"
  "queued_messages (DependencyEvent i dependencies # events) = queued_messages events"
  by (simp_all add: queued_messages_def)

definition waiting_ok :: "'op \<Rightarrow> ('g, 'id, 'op, 'd) encryption_orderer \<Rightarrow> ('id, 'op, 'd) encryption_message list \<Rightarrow> bool" where
  "waiting_ok h y ms \<longleftrightarrow>
     eo_queue y = map (message_id h) ms \<and> (\<forall>m \<in> set ms. map_of (eo_messages y) (message_id h m) = Some m)"

definition heads_ok :: "('g, 'op) graph_api \<Rightarrow> ('g, 'id, 'op, 'd) encryption_orderer \<Rightarrow> bool" where
  "heads_ok A y \<longleftrightarrow> set (eo_heads y) = {i. has_seen A y i \<and> (\<forall>j. (i, j) \<notin> g_edges A (eo_graph y))}"

lemma add_dependency_ok:
  assumes "graph_ok A" "heads_ok A y"
  shows "heads_ok A (add_dependency A y i dependencies)"
  using assms by (simp add: heads_ok_def has_seen_def add_dependency_def Let_def graph_okD)

lemma orderer_do_ok:
  assumes "graph_ok A" "waiting_ok h y ms" "heads_ok A y" "inj_on (message_id h) (set ms \<union> set (queued_messages [event]))"
  obtains y' out rest where "orderer_do A h y event = Inr (y', out)" "out @ rest = ms @ queued_messages [event]"
    "waiting_ok h y' rest" "heads_ok A y'" "orderer_is_welcomed y \<Longrightarrow> orderer_is_welcomed y'"
    "\<not> orderer_is_welcomed y \<Longrightarrow> out = []"
proof (cases event)
  case (QueueEvent m)
  let ?y = "y\<lparr>eo_messages := amap_insert (message_id h m) m (eo_messages y), eo_queue := eo_queue y @ [message_id h m]\<rparr>"
  have "message_id h m' = message_id h m \<Longrightarrow> m' = m" if "m' \<in> set ms" for m'
    using assms(4) that by (auto simp: QueueEvent inj_on_def)
  then have "waiting_ok h ?y (ms @ [m])"
    using assms(2) by (auto simp: waiting_ok_def)
  with assms(3) show ?thesis
    by (intro that[of ?y "[]" "ms @ [m]"])
      (simp_all add: QueueEvent orderer_queue_def Let_def bind_result_def heads_ok_def has_seen_def orderer_is_welcomed_def)
next
  case (WelcomeEvent m)
  with assms(2,3) show ?thesis
    by (intro that[of "y\<lparr>eo_welcome_message := Some m\<rparr>" "[]" ms])
      (simp_all add: orderer_set_welcome_def bind_result_def waiting_ok_def heads_ok_def has_seen_def orderer_is_welcomed_def)
next
  case (DependencyEvent i dependencies)
  with assms(2) add_dependency_ok[OF assms(1,3)] show ?thesis
    by (intro that[of "add_dependency A y i dependencies" "[]" ms])
      (simp_all add: waiting_ok_def add_dependency_def orderer_is_welcomed_def Let_def)
next
  case ReadyEvent
  show ?thesis
  proof (cases "orderer_is_welcomed y \<and> ms \<noteq> []")
    case True
    then obtain m ms' where "ms = m # ms'"
      by (cases ms) auto
    with ReadyEvent True assms(2,3) show ?thesis
      by (intro that[of "y\<lparr>eo_queue := map (message_id h) ms'\<rparr>" "[m]" ms'])
        (simp_all add: orderer_next_ready_def bind_result_def waiting_ok_def heads_ok_def has_seen_def orderer_is_welcomed_def)
  next
    case False
    with ReadyEvent assms(2,3) show ?thesis
      by (intro that[of y "[]" ms])
        (auto simp: orderer_next_ready_def bind_result_def waiting_ok_def orderer_is_welcomed_def)
  qed
qed

lemma space_orderer_run_ok:
  assumes "graph_ok A" "waiting_ok h y ms" "heads_ok A y" "inj_on (message_id h) (set ms \<union> set (queued_messages events))"
  shows "\<exists>y' outs rest. space_orderer_run A h y events = Inr (y', outs) \<and> outs @ rest = ms @ queued_messages events \<and>
    waiting_ok h y' rest \<and> heads_ok A y' \<and> (orderer_is_welcomed y \<longrightarrow> orderer_is_welcomed y') \<and>
    (\<not> orderer_is_welcomed y' \<longrightarrow> outs = [])"
  using assms(2-)
proof (induction events arbitrary: y ms)
  case (Cons event events)
  have split: "queued_messages (event # events) = queued_messages [event] @ queued_messages events"
    by (cases event) simp_all
  have inj: "inj_on (message_id h) (set ms \<union> set (queued_messages [event]))"
    by (rule inj_on_subset[OF Cons.prems(3)]) (auto simp: split)
  obtain y1 out rest where one: "orderer_do A h y event = Inr (y1, out)" "out @ rest = ms @ queued_messages [event]"
      "waiting_ok h y1 rest" "heads_ok A y1" "orderer_is_welcomed y \<Longrightarrow> orderer_is_welcomed y1"
      "\<not> orderer_is_welcomed y \<Longrightarrow> out = []"
    by (rule orderer_do_ok[OF assms(1) Cons.prems(1,2) inj]) blast
  have "set rest \<subseteq> set ms \<union> set (queued_messages [event])"
    using arg_cong[OF one(2), of set] by auto
  then have "inj_on (message_id h) (set rest \<union> set (queued_messages events))"
    by (intro inj_on_subset[OF Cons.prems(3)]) (auto simp: split)
  from Cons.IH[OF one(3,4) this] obtain y2 outs rest' where
      two: "space_orderer_run A h y1 events = Inr (y2, outs)" "outs @ rest' = rest @ queued_messages events" "waiting_ok h y2 rest'"
        "heads_ok A y2" "orderer_is_welcomed y1 \<longrightarrow> orderer_is_welcomed y2" "\<not> orderer_is_welcomed y2 \<longrightarrow> outs = []"
    by blast
  have "(out @ outs) @ rest' = ms @ queued_messages (event # events)"
    using one(2) two(2) by (simp add: split)
  with one two show ?case
    by (intro exI[of _ y2] exI[of _ "out @ outs"] exI[of _ rest']) (auto simp: bind_result_def)
qed (auto intro: exI[of _ "[]"])

lemma take_ready_pending:
  assumes "orderer_is_welcomed y" "waiting_ok h y ms"
  shows "take_ready orderer_next_ready (Suc (length ms)) y = Some (Inr (y\<lparr>eo_queue := []\<rparr>, ms))"
  using assms
proof (induction ms arbitrary: y)
  case (Cons m ms)
  let ?y = "y\<lparr>eo_queue := map (message_id h) ms\<rparr>"
  have "orderer_next_ready y = Inr (?y, Some m)"
    using Cons.prems by (simp add: waiting_ok_def orderer_next_ready_def orderer_is_welcomed_def)
  moreover have "take_ready orderer_next_ready (Suc (length ms)) ?y = Some (Inr (y\<lparr>eo_queue := []\<rparr>, ms))"
    using Cons.IH[of ?y] Cons.prems by (simp add: waiting_ok_def orderer_is_welcomed_def)
  ultimately show ?case
    by (simp add: bind_result_def del: take_ready.simps(2)) (simp add: bind_result_def)
qed (simp add: waiting_ok_def orderer_next_ready_def orderer_is_welcomed_def)

text \<open>
  C23: Whatever is done with the orderer of a space, it never panics when ids identify messages: what it returned, followed
  by what waits in its queue, is what was queued, in that order. Nothing is returned before the welcome, afterwards as many
  rounds as there are waiting messages, and one more, take them all. The heads are the operations no other depends on.
\<close>
theorem spaces_orderer_in_order:
  assumes "graph_ok A" and "inj_on (message_id h) (set (queued_messages events))"
  shows "\<exists>y outs rest. space_orderer_run A h (encryption_orderer_new A) events = Inr (y, outs) \<and> outs @ rest = queued_messages events \<and>
    eo_queue y = map (message_id h) rest \<and>
    (if orderer_is_welcomed y then take_ready orderer_next_ready (Suc (length rest)) y = Some (Inr (y\<lparr>eo_queue := []\<rparr>, rest))
     else outs = []) \<and>
    set (eo_heads y) = {i. has_seen A y i \<and> (\<forall>j. (i, j) \<notin> g_edges A (eo_graph y))}"
proof -
  let ?y = "encryption_orderer_new A :: (_, _, _, _) encryption_orderer"
  have start: "waiting_ok h ?y []" "heads_ok A ?y"
    using graph_okD(3)[OF assms(1)] by (simp_all add: waiting_ok_def heads_ok_def has_seen_def encryption_orderer_new_def)
  have "inj_on (message_id h) (set [] \<union> set (queued_messages events))"
    using assms(2) by simp
  from space_orderer_run_ok[OF assms(1) start this] obtain y outs rest where
      run: "space_orderer_run A h ?y events = Inr (y, outs)" "outs @ rest = queued_messages events" "waiting_ok h y rest" "heads_ok A y"
        "\<not> orderer_is_welcomed y \<longrightarrow> outs = []"
    by auto
  have drained: "take_ready orderer_next_ready (Suc (length rest)) y = Some (Inr (y\<lparr>eo_queue := []\<rparr>, rest))"
    if "orderer_is_welcomed y"
    by (rule take_ready_pending[OF that run(3)])
  have "eo_queue y = map (message_id h) rest" "set (eo_heads y) = {i. has_seen A y i \<and> (\<forall>j. (i, j) \<notin> g_edges A (eo_graph y))}"
    using run(3,4) by (simp_all add: waiting_ok_def heads_ok_def)
  with run(1,2,5) drained show ?thesis
    by (intro exI[of _ y] exI[of _ outs] exI[of _ rest] conjI) (simp_all del: take_ready.simps)
qed

definition example_events :: "(nat, nat, unit) orderer_event list" where
  "example_events =
     [QueueEvent (Forged 1 10 (ApplicationArgs [] [1] [2] [3])), QueueEvent (Forged 2 11 (SystemArgs [10] Update [])), ReadyEvent,
      WelcomeEvent (Forged 2 11 (SystemArgs [10] Update [])), ReadyEvent, DependencyEvent 11 [10]]"

theorem spaces_orderer_in_order_witness:
  "\<exists>y outs rest. space_orderer_run list_graph 0 (encryption_orderer_new list_graph) example_events = Inr (y, outs) \<and>
     outs @ rest = queued_messages example_events \<and> length (queued_messages example_events) = 2"
proof -
  have "inj_on (message_id 0) (set (queued_messages example_events))"
    by (simp add: example_events_def inj_on_def)
  from spaces_orderer_in_order[OF graph_ok_list_graph this] show ?thesis
    by (auto simp: example_events_def)
qed

subsection \<open>A group of three in a space\<close>

text \<open>
  The groups of the data scheme over the membership, messages and orderer of spaces. An \<open>Args\<close> message is forged into one
  with an author and an id that holds the same arguments.
\<close>

type_synonym ('g, 'id, 'op) spaces_orderer = "('g, 'id, 'op, 'id membership_state) encryption_orderer"
type_synonym ('id, 'op) spaces_message = "('id, 'op, 'id membership_state) encryption_message"

definition spaces_env ::
  "party_api \<Rightarrow> secret_codec \<Rightarrow> (bytes \<Rightarrow> bytes \<Rightarrow> bytes \<Rightarrow> bytes option) \<Rightarrow> (bytes \<Rightarrow> bytes \<Rightarrow> bytes \<Rightarrow> bytes option) \<Rightarrow> 'op \<Rightarrow> 'id \<Rightarrow>
   ('id, 'op, 'id membership_state, unit, ('g, 'id, 'op) spaces_orderer, ('id, 'op) spaces_message, orderer_panic) group_env" where
  "spaces_env P C encrypt decrypt h k =
     \<lparr>ge_party = P, ge_codec = C, ge_dgm = spaces_dgm, ge_encrypt = encrypt, ge_decrypt = decrypt,
      ge_id = message_id h, ge_sender = message_sender k, ge_content = message_content, ge_directs = message_directs,
      ge_next_control = orderer_next_control, ge_next_application = orderer_next_application,
      ge_queue = orderer_queue h, ge_set_welcome = orderer_set_welcome, ge_next_ready = orderer_next_ready\<rparr>"

definition forged :: "('id, 'op, 'd) encryption_message \<Rightarrow> ('id, 'op, 'd) encryption_message \<Rightarrow> bool" where
  "forged m r \<longleftrightarrow> (\<exists>args author i. m = Args args \<and> r = Forged author i args)"

lemma spaces_env_ok:
  assumes "party_ok P" "codec_ok C" "sha_ok (sc_sha C)" "\<And>k p nonce c. encrypt k p nonce = Some c \<Longrightarrow> decrypt k c nonce = Some p"
  shows "env_ok (spaces_env P C encrypt decrypt h k) orderer_settled forged" (is "env_ok ?E _ _")
proof -
  have "publishes ?E forged"
    by (auto simp: publishes_def spaces_env_def orderer_next_control_def orderer_next_application_def forged_def
        message_directs_def message_args_def)
  moreover have "cipher_ok ?E"
    using assms(4) by (simp add: cipher_ok_def spaces_env_def)
  ultimately show ?thesis
    using assms(1-3) by (simp add: env_ok_def spaces_env_def spaces_dgm_ok so.ordering_contract_axioms)
qed

abbreviation keyed_encrypt :: "bytes \<Rightarrow> bytes \<Rightarrow> bytes \<Rightarrow> bytes option" where
  "keyed_encrypt k p nonce \<equiv> Some (k @ p)"

abbreviation keyed_decrypt :: "bytes \<Rightarrow> bytes \<Rightarrow> bytes \<Rightarrow> bytes option" where
  "keyed_decrypt k c nonce \<equiv> (if take (length k) c = k then Some (drop (length k) c) else None)"

definition data_env ::
  "(nat, nat, nat membership_state, unit, (nat list_graph, nat, nat) spaces_orderer, (nat, nat) spaces_message, orderer_panic) group_env" where
  "data_env = spaces_env prefix_party byte_codec keyed_encrypt keyed_decrypt 0 0"

lemma data_env_fields:
  "ge_party data_env = prefix_party" "ge_codec data_env = byte_codec" "ge_dgm data_env = spaces_dgm" "sc_sha byte_codec = pad_digest"
  by (simp_all add: data_env_def spaces_env_def byte_codec_def)

lemma data_env_ok: "env_ok data_env orderer_settled forged"
  unfolding data_env_def
  by (rule spaces_env_ok[OF prefix_party_ok byte_codec_ok]) (simp_all add: data_env_fields sha_ok_pad_digest split: if_splits)

definition welcomed_orderer :: "(nat list_graph, nat, nat) spaces_orderer" where
  "welcomed_orderer =
     \<lparr>eo_heads = [], eo_graph = ([], []), eo_queue = [], eo_messages = [],
      eo_welcome_message = Some (Forged 1 0 (SystemArgs [] (Create [1, 2, 3]) []))\<rparr>"

definition data_group :: "nat list \<Rightarrow> nat \<Rightarrow> (nat, nat membership_state, (nat list_graph, nat, nat) spaces_orderer) data_group_state" where
  "data_group ms i =
     \<lparr>gr_my_id = i, gr_dcgka = dcgka_init i (dk_my_keys (example_member i)) (dk_pki (example_member i)) \<lparr>em_members = ms\<rparr>,
      gr_orderer = welcomed_orderer, gr_secrets = bundle_insert pad_digest bundle_init example_secret, gr_is_welcomed = True\<rparr>"

lemma data_group_settled [simp]: "orderer_settled (gr_orderer (data_group ms i))"
  by (simp add: data_group_def welcomed_orderer_def orderer_settled_def orderer_is_welcomed_def)

definition group_network :: "(nat, nat, nat membership_state) network" where
  "group_network = \<lparr>nw_states = (\<lambda>i. gr_dcgka (data_group [1, 2, 3] i)), nw_queue = (\<lambda>_ _. [])\<rparr>"

lemma group_network_start: "network_start prefix_party group_network"
  using example_network_start
  by (simp add: network_start_def group_network_def data_group_def example_network_def dcgka_init_def)

definition example_random :: "nat group_random" where
  "example_random = \<lparr>gx_now = 15, gx_secret = [7, 7], gx_directs = (\<lambda>_. example_randomness), gx_nonce = [9]\<rparr>"

fun forge :: "nat \<Rightarrow> nat \<Rightarrow> (nat, nat) spaces_message \<Rightarrow> (nat, nat) spaces_message" where
  "forge author i (Args args) = Forged author i args"
| "forge author i m = m"

definition example_rekeyed where
  "example_rekeyed = projr (rekey data_env (data_group [1, 2, 3] 1) (Some 3) example_random)"

definition example_data where
  "example_data = projr (group_send data_env (fst example_rekeyed) [4, 5] example_random)"

abbreviation removal_message :: "(nat, nat) spaces_message" where
  "removal_message \<equiv> forge 1 20 (snd example_rekeyed)"

abbreviation data_message :: "(nat, nat) spaces_message" where
  "data_message \<equiv> forge 1 21 (snd example_data)"

lemma example_rekey:
  "rekey data_env (data_group [1, 2, 3] 1) (Some 3) example_random = Inr (fst example_rekeyed, snd example_rekeyed)"
  by code_simp

lemma example_send:
  "group_send data_env (fst example_rekeyed) [4, 5] example_random = Inr (fst example_data, snd example_data)"
  by code_simp

lemma example_forged: "forged (snd example_rekeyed) removal_message" "forged (snd example_data) data_message"
proof -
  have "case snd example_rekeyed of Args _ \<Rightarrow> True | _ \<Rightarrow> False" "case snd example_data of Args _ \<Rightarrow> True | _ \<Rightarrow> False"
    by code_simp+
  then show "forged (snd example_rekeyed) removal_message" "forged (snd example_data) data_message"
    by (auto simp: forged_def split: encryption_message.splits)
qed

lemma example_secrets_wf:
  "bundle_wf (sc_sha (ge_codec data_env)) (gr_secrets (data_group ms i))"
  "bundle_latest (gr_secrets (data_group ms i)) = Some latest \<Longrightarrow> gs_timestamp latest \<noteq> - 1"
proof -
  have "gr_secrets (data_group ms i) = bundle_insert pad_digest bundle_init example_secret"
    by (simp add: data_group_def)
  moreover have "bundle_latest (bundle_insert pad_digest bundle_init example_secret) = Some example_secret"
    by code_simp
  ultimately show "bundle_wf (sc_sha (ge_codec data_env)) (gr_secrets (data_group ms i))"
    "bundle_latest (gr_secrets (data_group ms i)) = Some latest \<Longrightarrow> gs_timestamp latest \<noteq> - 1"
    using bundle_wf_ids[OF bundle_wf_init[of pad_digest]] sha_ok_pad_digest
    by (auto simp: data_env_fields bundle_insert_def example_secret_def intro!: bundle_of_wf ids_ok_insert)
qed

theorem rekeyed_members_decrypt_witness:
  "\<exists>y outs y'. group_receive data_env 2 (data_group [1, 2, 3] 2) removal_message = Some (Inr (y, outs)) \<and>
     group_receive data_env 2 y data_message = Some (Inr (y', [ApplicationOutput [4, 5]]))"
proof -
  have group: "gr_dcgka (data_group [1, 2, 3] i) = nw_states group_network i" "gr_my_id (data_group ms i) = i"
    "gr_is_welcomed (data_group ms i)" "nw_queue group_network 1 2 = []" for i ms
    by (simp_all add: group_network_def data_group_def)
  have members: "gm_members (ge_dgm data_env) (dk_dgm (nw_states group_network 1)) = Inr [1, 2, 3]"
    by (simp add: group_network_def data_group_def data_env_fields spaces_dgm_def dcgka_init_def)
  have sender: "ge_sender data_env removal_message = 1"
    and fine: "\<not> isl (the (group_receive data_env (Suc (Suc 0)) (data_group [1, 2, 3] 2) removal_message))"
    by code_simp+
  have "(\<exists>err. group_receive data_env (Suc (Suc 0)) (data_group [1, 2, 3] 2) removal_message = Some (Inl err) \<and> dgm_failure err) \<or>
    (\<exists>y outs y'. group_receive data_env (Suc (Suc 0)) (data_group [1, 2, 3] 2) removal_message = Some (Inr (y, outs)) \<and>
       group_receive data_env (Suc (Suc 0)) y data_message = Some (Inr (y', [ApplicationOutput [4, 5]])))"
    by (rule rekeyed_members_decrypt[where n = 0 and ?s0.0 = group_network and s = group_network and x = 1 and i = 2
          and removed = "Some 3", OF data_env_ok group_network_start[folded data_env_fields(1)] _ _ _ group(4) group(1)
          example_secrets_wf(1) example_secrets_wf(2) group(1-3) data_group_settled members _ _ example_rekey example_forged(1)
          sender example_send example_forged(2)]) simp_all
  then show ?thesis
    using fine by (auto simp: numeral_2_eq_2)
qed

theorem removed_member_locked_out_witness:
  "\<exists>y. group_receive data_env 2 (data_group [1, 2] 3) removal_message = Some (Inr (y, [Removed])) \<and>
     group_receive data_env 2 y data_message = Some (Inl (UnknownGroupSecret (pad_digest [7, 7])))"
proof -
  have sha: "sc_sha (ge_codec data_env) = pad_digest" "gx_secret example_random = [7, 7]"
    by (simp_all add: data_env_fields example_random_def)
  have group: "gr_my_id (data_group [1, 2] 3) = 3" "dk_my_id (gr_dcgka (data_group [1, 2] 3)) = 3" "gr_is_welcomed (data_group [1, 2] 3)"
    by (simp_all add: data_group_def dcgka_init_def)
  have members: "gm_members (ge_dgm data_env) (dk_dgm (gr_dcgka (data_group [1, 2, 3] 1))) = Inr [1, 2, 3]"
    by (simp add: data_group_def data_env_fields spaces_dgm_def dcgka_init_def)
  have fresh: "bundle_get (gr_secrets (data_group [1, 2] 3)) (sc_sha (ge_codec data_env) (gx_secret example_random)) = None"
    and fine: "map_option (\<lambda>r. case r of Inl _ \<Rightarrow> None | Inr (_, outs) \<Rightarrow> Some outs)
      (group_receive data_env (Suc (Suc 0)) (data_group [1, 2] 3) removal_message) = Some (Some [Removed])"
    by code_simp+
  have remove: "group_remove data_env (data_group [1, 2, 3] 1) 3 example_random = Inr (fst example_rekeyed, snd example_rekeyed)"
    using example_rekey by (simp add: rekey_def)
  from removed_member_locked_out[OF data_env_ok example_secrets_wf(1) example_secrets_wf(2)[of "[1, 2, 3]" 1] members group
      data_group_settled fresh remove example_forged(1) example_send example_forged(2), where fuel = 0]
  show ?thesis
    using fine unfolding sha by (auto simp: numeral_2_eq_2)
qed

end
