(* ===== verification/Store_AddressBook.thy ===== *)
theory Store_AddressBook
  imports Prelude
begin

section \<open>The address book\<close>

text \<open>
  \<open>p2panda-store/src/address_book\<close>: the trait of a node's information and the SQLite tables of known nodes and
  of the topics nodes are interested in. The \<open>NodeInfo\<close> trait is the record of what its methods return. A
  table is the list of its rows; a stored information decodes to itself, and failures of the database are not
  modelled. The time of the database is the argument \<open>now\<close>, the random order of rows a number that picks
  one of them. Age limits are cast to signed 64 bit numbers as in the code.
\<close>

type_synonym topic = bytes

record ('id, 't) node_info =
  ni_id :: 'id
  ni_is_bootstrap :: bool
  ni_is_stale :: bool
  ni_transports :: "'t option"

record ('id, 't) node_row =
  nr_node_id :: 'id
  nr_node_info :: "('id, 't) node_info"
  nr_bootstrap :: bool
  nr_stale :: bool
  nr_updated_at :: int

record ('id, 't) address_book =
  ab_nodes :: "('id, 't) node_row list"
  ab_topics :: "('id \<times> topic) list"

definition insert_node_info ::
  "int \<Rightarrow> ('id, 't) address_book \<Rightarrow> ('id, 't) node_info \<Rightarrow> ('id, 't) address_book \<times> bool" where
  "insert_node_info now db info =
     (let is_upsert = (length (filter (\<lambda>r. nr_node_id r = ni_id info) (ab_nodes db)) = 1);
          row = \<lparr>nr_node_id = ni_id info, nr_node_info = info, nr_bootstrap = ni_is_bootstrap info,
                 nr_stale = ni_is_stale info, nr_updated_at = now\<rparr>
      in (db\<lparr>ab_nodes :=
             (if list_ex (\<lambda>r. nr_node_id r = ni_id info) (ab_nodes db)
              then map (\<lambda>r. if nr_node_id r = ni_id info then row else r) (ab_nodes db)
              else ab_nodes db @ [row])\<rparr>, \<not> is_upsert))"

definition remove_node_info :: "('id, 't) address_book \<Rightarrow> 'id \<Rightarrow> ('id, 't) address_book \<times> bool" where
  "remove_node_info db i =
     (db\<lparr>ab_nodes := filter (\<lambda>r. nr_node_id r \<noteq> i) (ab_nodes db),
         ab_topics := filter (\<lambda>(j, _). j \<noteq> i) (ab_topics db)\<rparr>,
      0 < length (filter (\<lambda>r. nr_node_id r = i) (ab_nodes db)))"

definition remove_older_than :: "int \<Rightarrow> ('id, 't) address_book \<Rightarrow> u64 \<Rightarrow> ('id, 't) address_book \<times> nat" where
  "remove_older_than now db secs =
     (let result = map nr_node_id (filter (\<lambda>r. nr_updated_at r < now - sint secs) (ab_nodes db))
      in (db\<lparr>ab_nodes := filter (\<lambda>r. \<not> nr_updated_at r < now - sint secs) (ab_nodes db),
             ab_topics := filter (\<lambda>(j, _). j \<notin> set result) (ab_topics db)\<rparr>, length result))"

definition node_info_of :: "('id, 't) address_book \<Rightarrow> 'id \<Rightarrow> ('id, 't) node_info option" where
  "node_info_of db i = map_option nr_node_info (List.find (\<lambda>r. nr_node_id r = i) (ab_nodes db))"

definition node_topics :: "('id, 't) address_book \<Rightarrow> 'id \<Rightarrow> topic set" where
  "node_topics db i = set (map snd (filter (\<lambda>(j, _). j = i) (ab_topics db)))"

definition all_node_infos :: "('id, 't) address_book \<Rightarrow> ('id, 't) node_info list" where
  "all_node_infos db = map nr_node_info (filter (\<lambda>r. \<not> nr_stale r) (ab_nodes db))"

definition all_nodes_len :: "('id, 't) address_book \<Rightarrow> nat" where
  "all_nodes_len db = length (filter (\<lambda>r. \<not> nr_stale r) (ab_nodes db))"

definition all_bootstrap_nodes_len :: "('id, 't) address_book \<Rightarrow> nat" where
  "all_bootstrap_nodes_len db = length (filter (\<lambda>r. nr_bootstrap r \<and> \<not> nr_stale r) (ab_nodes db))"

definition selected_node_infos :: "('id, 't) address_book \<Rightarrow> 'id list \<Rightarrow> ('id, 't) node_info list" where
  "selected_node_infos db ids = map nr_node_info (filter (\<lambda>r. nr_node_id r \<in> set ids) (ab_nodes db))"

definition set_topics :: "('id, 't) address_book \<Rightarrow> 'id \<Rightarrow> topic list \<Rightarrow> ('id, 't) address_book" where
  "set_topics db i ts =
     db\<lparr>ab_topics :=
       fold (\<lambda>t tbl. if (i, t) \<in> set tbl then tbl else tbl @ [(i, t)]) ts
         (filter (\<lambda>(j, _). j \<noteq> i) (ab_topics db))\<rparr>"

definition node_infos_by_topics :: "('id, 't) address_book \<Rightarrow> topic list \<Rightarrow> ('id, 't) node_info list" where
  "node_infos_by_topics db ts =
     map nr_node_info
       (filter (\<lambda>r. list_ex (\<lambda>(j, t). j = nr_node_id r \<and> t \<in> set ts) (ab_topics db) \<and> \<not> nr_stale r) (ab_nodes db))"

definition pick_row :: "nat \<Rightarrow> ('id, 't) node_row list \<Rightarrow> ('id, 't) node_info option" where
  "pick_row rnd rows = (if rows = [] then None else Some (nr_node_info (rows ! (rnd mod length rows))))"

definition random_node :: "nat \<Rightarrow> ('id, 't) address_book \<Rightarrow> ('id, 't) node_info option" where
  "random_node rnd db = pick_row rnd (filter (\<lambda>r. \<not> nr_stale r) (ab_nodes db))"

definition random_bootstrap_node :: "nat \<Rightarrow> ('id, 't) address_book \<Rightarrow> ('id, 't) node_info option" where
  "random_bootstrap_node rnd db = pick_row rnd (filter (\<lambda>r. nr_bootstrap r \<and> \<not> nr_stale r) (ab_nodes db))"

subsection \<open>What the tables stand for\<close>

text \<open>
  The rows stand for a map from node ids to informations with the time of their last change, and for
  a relation between nodes and topics.
\<close>

definition row_wf :: "('id, 't) node_row \<Rightarrow> bool" where
  "row_wf r \<longleftrightarrow> nr_node_id r = ni_id (nr_node_info r) \<and> nr_bootstrap r = ni_is_bootstrap (nr_node_info r) \<and>
     nr_stale r = ni_is_stale (nr_node_info r)"

definition address_book_ok :: "('id, 't) address_book \<Rightarrow> bool" where
  "address_book_ok db \<longleftrightarrow>
     distinct (map nr_node_id (ab_nodes db)) \<and> list_all row_wf (ab_nodes db) \<and> distinct (ab_topics db)"

definition known_nodes :: "('id, 't) address_book \<Rightarrow> 'id \<rightharpoonup> ('id, 't) node_info \<times> int" where
  "known_nodes db = map_of (map (\<lambda>r. (nr_node_id r, (nr_node_info r, nr_updated_at r))) (ab_nodes db))"

definition interests :: "('id, 't) address_book \<Rightarrow> ('id \<times> topic) set" where
  "interests db = set (ab_topics db)"

lemma known_nodes_Some:
  assumes "address_book_ok db"
  shows "known_nodes db i = Some (info, updated) \<longleftrightarrow>
    (\<exists>r \<in> set (ab_nodes db). nr_node_id r = i \<and> nr_node_info r = info \<and> nr_updated_at r = updated)"
proof -
  have "distinct (map fst (map (\<lambda>r. (nr_node_id r, (nr_node_info r, nr_updated_at r))) (ab_nodes db)))"
    using assms by (simp add: address_book_ok_def comp_def)
  then show ?thesis
    unfolding known_nodes_def by (subst map_of_eq_Some_iff) auto
qed

lemma known_nodes_None: "known_nodes db i = None \<longleftrightarrow> i \<notin> nr_node_id ` set (ab_nodes db)"
  by (auto simp: known_nodes_def map_of_eq_None_iff image_image)

lemma dom_known_nodes: "dom (known_nodes db) = nr_node_id ` set (ab_nodes db)"
  by (simp add: known_nodes_def dom_map_of_conv_image_fst image_image)

lemma known_nodes_filter:
  assumes "address_book_ok db" "ab_nodes db' = filter Q (ab_nodes db)"
    and "\<And>r. r \<in> set (ab_nodes db) \<Longrightarrow> Q r = Q' (nr_node_id r) (nr_node_info r) (nr_updated_at r)"
  shows "known_nodes db' i =
    (case known_nodes db i of None \<Rightarrow> None | Some (info, updated) \<Rightarrow> if Q' i info updated then Some (info, updated) else None)"
proof -
  have ok: "address_book_ok (db\<lparr>ab_nodes := filter Q (ab_nodes db)\<rparr>)"
    using assms(1) by (auto simp: address_book_ok_def list_all_iff distinct_map_filter)
  have db': "known_nodes db' = known_nodes (db\<lparr>ab_nodes := filter Q (ab_nodes db)\<rparr>)"
    using assms(2) by (simp add: known_nodes_def)
  have "known_nodes db' i = Some (info, updated) \<longleftrightarrow> known_nodes db i = Some (info, updated) \<and> Q' i info updated" for info updated
    unfolding db' known_nodes_Some[OF ok] known_nodes_Some[OF assms(1)] using assms(3) by auto
  then show ?thesis
    by (cases "known_nodes db' i"; cases "known_nodes db i") (force split: if_splits)+
qed

lemma length_filter_key:
  "distinct (map f xs) \<Longrightarrow> length (filter (\<lambda>x. f x = i) xs) = (if i \<in> f ` set xs then 1 else 0)"
  by (induction xs) (auto simp: filter_empty_conv)

lemma insert_node_info_rows:
  fixes rows :: "('id, 't) node_row list"
  assumes "distinct (map nr_node_id rows)" "nr_node_id row = i" "i \<in> nr_node_id ` set rows"
  shows "map_of (map (\<lambda>r. (nr_node_id r, (nr_node_info r, nr_updated_at r)))
      (map (\<lambda>r. if nr_node_id r = i then row else r) rows)) =
    (map_of (map (\<lambda>r. (nr_node_id r, (nr_node_info r, nr_updated_at r))) rows))(i \<mapsto> (nr_node_info row, nr_updated_at row))"
  using assms
proof (induction rows)
  case (Cons r rows)
  show ?case
  proof (cases "nr_node_id r = i")
    case True
    with Cons.prems have "map (\<lambda>r. if nr_node_id r = i then row else r) rows = rows"
      by (intro map_idI) (auto simp: image_iff)
    with True Cons.prems(2) show ?thesis
      by (auto simp: fun_eq_iff)
  next
    case False
    with Cons show ?thesis
      by (auto simp: fun_upd_twist)
  qed
qed simp

lemma insert_node_info_refines:
  assumes ok: "address_book_ok db" and ins: "insert_node_info now db info = (db', inserted)"
  shows "address_book_ok db'" "known_nodes db' = (known_nodes db)(ni_id info \<mapsto> (info, now))"
    "interests db' = interests db" "inserted \<longleftrightarrow> known_nodes db (ni_id info) = None"
proof -
  let ?i = "ni_id info"
  let ?row = "\<lparr>nr_node_id = ?i, nr_node_info = info, nr_bootstrap = ni_is_bootstrap info, nr_stale = ni_is_stale info,
    nr_updated_at = now\<rparr>"
  have dist: "distinct (map nr_node_id (ab_nodes db))"
    using ok by (simp add: address_book_ok_def)
  have count: "length (filter (\<lambda>r. nr_node_id r = ?i) (ab_nodes db)) = (if ?i \<in> nr_node_id ` set (ab_nodes db) then 1 else 0)"
    using dist by (rule length_filter_key)
  show inserted: "inserted \<longleftrightarrow> known_nodes db ?i = None"
    using ins count by (auto simp: insert_node_info_def Let_def known_nodes_None)
  have db': "db' = db\<lparr>ab_nodes := if ?i \<in> nr_node_id ` set (ab_nodes db)
      then map (\<lambda>r. if nr_node_id r = ?i then ?row else r) (ab_nodes db) else ab_nodes db @ [?row]\<rparr>"
  proof -
    have "list_ex (\<lambda>r. nr_node_id r = ?i) (ab_nodes db) \<longleftrightarrow> ?i \<in> nr_node_id ` set (ab_nodes db)"
      by (auto simp: list_ex_iff intro: rev_image_eqI)
    with ins show ?thesis
      by (simp add: insert_node_info_def Let_def)
  qed
  have ids: "map nr_node_id (map (\<lambda>r. if nr_node_id r = ?i then ?row else r) (ab_nodes db)) = map nr_node_id (ab_nodes db)"
    by simp
  show "interests db' = interests db"
    by (simp add: interests_def db')
  show "address_book_ok db'"
  proof (cases "?i \<in> nr_node_id ` set (ab_nodes db)")
    case True
    then have "ab_nodes db' = map (\<lambda>r. if nr_node_id r = ?i then ?row else r) (ab_nodes db)" "ab_topics db' = ab_topics db"
      by (simp_all add: db')
    with ok show ?thesis
      unfolding address_book_ok_def by (simp only: ids) (auto simp: list_all_iff row_wf_def)
  next
    case False
    with ok show ?thesis
      by (auto simp: address_book_ok_def db' list_all_iff row_wf_def)
  qed
  show "known_nodes db' = (known_nodes db)(?i \<mapsto> (info, now))"
  proof (cases "?i \<in> nr_node_id ` set (ab_nodes db)")
    case True
    then show ?thesis
      using insert_node_info_rows[OF dist, of ?row ?i] by (simp add: known_nodes_def db')
  next
    case False
    then have "known_nodes db ?i = None"
      by (simp add: known_nodes_None)
    then show ?thesis
      using False by (auto simp: known_nodes_def db' fun_eq_iff map_add_def split: option.splits)
  qed
qed

lemma remove_node_info_refines:
  assumes ok: "address_book_ok db" and rem: "remove_node_info db i = (db', removed)"
  shows "address_book_ok db'" "known_nodes db' = (known_nodes db)(i := None)"
    "interests db' = {(j, t) \<in> interests db. j \<noteq> i}" "removed \<longleftrightarrow> known_nodes db i \<noteq> None"
proof -
  have db': "db' = db\<lparr>ab_nodes := filter (\<lambda>r. nr_node_id r \<noteq> i) (ab_nodes db),
      ab_topics := filter (\<lambda>(j, _). j \<noteq> i) (ab_topics db)\<rparr>"
    and removed: "removed \<longleftrightarrow> filter (\<lambda>r. nr_node_id r = i) (ab_nodes db) \<noteq> []"
    using rem by (auto simp: remove_node_info_def)
  show "removed \<longleftrightarrow> known_nodes db i \<noteq> None"
    unfolding removed known_nodes_None by (auto simp: filter_empty_conv)
  show "address_book_ok db'"
    using ok by (auto simp: address_book_ok_def db' list_all_iff distinct_map_filter)
  show "interests db' = {(j, t) \<in> interests db. j \<noteq> i}"
    by (auto simp: interests_def db')
  show "known_nodes db' = (known_nodes db)(i := None)"
    using known_nodes_filter[OF ok, of db' "\<lambda>r. nr_node_id r \<noteq> i" "\<lambda>j _ _. j \<noteq> i"]
    by (auto simp: db' fun_eq_iff split: option.splits)
qed

lemma remove_older_than_refines:
  assumes ok: "address_book_ok db" and rem: "remove_older_than now db secs = (db', n)"
  defines "old \<equiv> {j. \<exists>info updated. known_nodes db j = Some (info, updated) \<and> updated < now - sint secs}"
  shows "address_book_ok db'" "known_nodes db' = known_nodes db |` (- old)"
    "interests db' = {(j, t) \<in> interests db. j \<notin> old}" "n = card old"
proof -
  let ?result = "map nr_node_id (filter (\<lambda>r. nr_updated_at r < now - sint secs) (ab_nodes db))"
  have db': "db' = db\<lparr>ab_nodes := filter (\<lambda>r. \<not> nr_updated_at r < now - sint secs) (ab_nodes db),
      ab_topics := filter (\<lambda>(j, _). j \<notin> set ?result) (ab_topics db)\<rparr>" and n: "n = length ?result"
    using rem by (auto simp: remove_older_than_def Let_def)
  have old: "old = set ?result"
    unfolding old_def known_nodes_Some[OF ok] by auto
  have "distinct ?result"
    using ok by (simp add: address_book_ok_def distinct_map_filter)
  then show "n = card old"
    unfolding n old by (rule distinct_card[symmetric])
  show "address_book_ok db'"
    using ok by (auto simp: address_book_ok_def db' list_all_iff distinct_map_filter)
  show "interests db' = {(j, t) \<in> interests db. j \<notin> old}"
    unfolding old by (auto simp: interests_def db')
  show "known_nodes db' = known_nodes db |` (- old)"
    using known_nodes_filter[OF ok, of db' "\<lambda>r. \<not> nr_updated_at r < now - sint secs" "\<lambda>_ _ u. \<not> u < now - sint secs"]
    by (auto simp: db' fun_eq_iff old_def restrict_map_def split: option.splits)
qed

lemma insert_or_ignore:
  assumes "distinct tbl"
  shows "distinct (fold (\<lambda>t tbl. if (i, t) \<in> set tbl then tbl else tbl @ [(i, t)]) ts tbl)"
    and "set (fold (\<lambda>t tbl. if (i, t) \<in> set tbl then tbl else tbl @ [(i, t)]) ts tbl) = set tbl \<union> {i} \<times> set ts"
  using assms by (induction ts arbitrary: tbl) auto

lemma set_topics_refines:
  assumes "address_book_ok db"
  shows "address_book_ok (set_topics db i ts)" "known_nodes (set_topics db i ts) = known_nodes db"
    "interests (set_topics db i ts) = {(j, t) \<in> interests db. j \<noteq> i} \<union> {i} \<times> set ts"
  using assms insert_or_ignore[of "filter (\<lambda>(j, _). j \<noteq> i) (ab_topics db)" i ts]
  by (auto simp: address_book_ok_def set_topics_def known_nodes_def interests_def)

subsection \<open>Queries\<close>

lemma node_info_of_known:
  assumes "address_book_ok db"
  shows "node_info_of db i = map_option fst (known_nodes db i)"
proof -
  have "map_option nr_node_info (List.find (\<lambda>r. nr_node_id r = i) rows) =
      map_option fst (map_of (map (\<lambda>r. (nr_node_id r, (nr_node_info r, nr_updated_at r))) rows) i)"
    for rows :: "('a, 'b) node_row list"
    by (induction rows) auto
  then show ?thesis
    by (simp add: node_info_of_def known_nodes_def)
qed

lemma query_known:
  assumes ok: "address_book_ok db" and Q: "\<And>r. r \<in> set (ab_nodes db) \<Longrightarrow> Q r = Q' (nr_node_info r)"
  shows "distinct (map ni_id (map nr_node_info (filter Q (ab_nodes db))))"
    and "set (map nr_node_info (filter Q (ab_nodes db))) =
      {info. Q' info \<and> (\<exists>updated. known_nodes db (ni_id info) = Some (info, updated))}"
proof -
  have wf: "r \<in> set (ab_nodes db) \<Longrightarrow> ni_id (nr_node_info r) = nr_node_id r" for r
    using ok by (simp add: address_book_ok_def list_all_iff row_wf_def)
  have "map ni_id (map nr_node_info (filter Q (ab_nodes db))) = map nr_node_id (filter Q (ab_nodes db))"
    using wf by simp
  moreover have "distinct (map nr_node_id (filter Q (ab_nodes db)))"
    using ok by (simp add: address_book_ok_def distinct_map_filter)
  ultimately show "distinct (map ni_id (map nr_node_info (filter Q (ab_nodes db))))"
    by (simp only:)
  show "set (map nr_node_info (filter Q (ab_nodes db))) =
      {info. Q' info \<and> (\<exists>updated. known_nodes db (ni_id info) = Some (info, updated))}"
    unfolding known_nodes_Some[OF ok] using Q wf by force
qed

definition fresh_info :: "('id, 't) address_book \<Rightarrow> ('id, 't) node_info \<Rightarrow> bool" where
  "fresh_info db info \<longleftrightarrow> \<not> ni_is_stale info \<and> (\<exists>updated. known_nodes db (ni_id info) = Some (info, updated))"

lemma row_flags:
  assumes "address_book_ok db" "r \<in> set (ab_nodes db)"
  shows "nr_stale r = ni_is_stale (nr_node_info r)" "nr_bootstrap r = ni_is_bootstrap (nr_node_info r)"
    "nr_node_id r = ni_id (nr_node_info r)"
  using assms by (simp_all add: address_book_ok_def list_all_iff row_wf_def)

lemma all_node_infos_known:
  assumes "address_book_ok db"
  shows "distinct (map ni_id (all_node_infos db))" "set (all_node_infos db) = {info. fresh_info db info}"
    "length (all_node_infos db) = all_nodes_len db"
  using query_known[OF assms, of "\<lambda>r. \<not> nr_stale r" "\<lambda>info. \<not> ni_is_stale info"] row_flags[OF assms]
  by (simp_all add: all_node_infos_def fresh_info_def all_nodes_len_def)

lemma node_infos_by_topics_known:
  assumes "address_book_ok db"
  shows "distinct (map ni_id (node_infos_by_topics db ts))"
    "set (node_infos_by_topics db ts) = {info. fresh_info db info \<and> (\<exists>t \<in> set ts. (ni_id info, t) \<in> interests db)}"
proof -
  let ?Q = "\<lambda>r. list_ex (\<lambda>(j, t). j = nr_node_id r \<and> t \<in> set ts) (ab_topics db) \<and> \<not> nr_stale r"
  let ?Q' = "\<lambda>info. (\<exists>t \<in> set ts. (ni_id info, t) \<in> interests db) \<and> \<not> ni_is_stale info"
  have Q: "?Q r = ?Q' (nr_node_info r)" if "r \<in> set (ab_nodes db)" for r
    using row_flags[OF assms that] by (auto simp: interests_def list_ex_iff)
  show "distinct (map ni_id (node_infos_by_topics db ts))"
    unfolding node_infos_by_topics_def using query_known(1)[where Q = ?Q and Q' = ?Q', OF assms Q] .
  show "set (node_infos_by_topics db ts) = {info. fresh_info db info \<and> (\<exists>t \<in> set ts. (ni_id info, t) \<in> interests db)}"
    using query_known(2)[where Q = ?Q and Q' = ?Q', OF assms Q]
    unfolding node_infos_by_topics_def fresh_info_def by blast
qed

lemma pick_row_mem: "pick_row rnd rows = Some info \<Longrightarrow> info \<in> set (map nr_node_info rows)"
  by (auto simp: pick_row_def split: if_splits)

lemma random_bootstrap_known:
  assumes ok: "address_book_ok db"
  shows "random_bootstrap_node rnd db = Some info \<Longrightarrow> fresh_info db info \<and> ni_is_bootstrap info"
    and "random_bootstrap_node rnd db = None \<longleftrightarrow> all_bootstrap_nodes_len db = 0"
proof -
  have "(nr_bootstrap r \<and> \<not> nr_stale r) = (ni_is_bootstrap (nr_node_info r) \<and> \<not> ni_is_stale (nr_node_info r))"
    if "r \<in> set (ab_nodes db)" for r
    using row_flags[OF ok that] by simp
  from query_known(2)[where Q = "\<lambda>r. nr_bootstrap r \<and> \<not> nr_stale r" and Q' = "\<lambda>info. ni_is_bootstrap info \<and> \<not> ni_is_stale info",
      OF ok this]
  show "random_bootstrap_node rnd db = Some info \<Longrightarrow> fresh_info db info \<and> ni_is_bootstrap info"
    unfolding random_bootstrap_node_def fresh_info_def by (blast dest: pick_row_mem)
  show "random_bootstrap_node rnd db = None \<longleftrightarrow> all_bootstrap_nodes_len db = 0"
    by (simp add: random_bootstrap_node_def pick_row_def all_bootstrap_nodes_len_def)
qed

text \<open>
  C22: the two tables implement a map from node ids to informations and a relation between nodes and topics. On every
  well-formed database, inserting an information updates the map at its id and reports whether the id was new;
  removing a node removes it from the map and the relation; removing old nodes removes exactly those whose
  last change lies before the limit, with their topics, and counts them; setting topics replaces those of one node.
  All of them keep the database well formed. The nodes found for a list of topics are exactly the known nodes that are not
  stale and interested in one of the topics, each once.
\<close>

theorem address_book_refines:
  assumes "address_book_ok db"
  shows "(case insert_node_info now db info of (db', inserted) \<Rightarrow>
      address_book_ok db' \<and> known_nodes db' = (known_nodes db)(ni_id info \<mapsto> (info, now)) \<and>
      interests db' = interests db \<and> inserted = (known_nodes db (ni_id info) = None)) \<and>
    (case remove_node_info db i of (db', removed) \<Rightarrow>
      address_book_ok db' \<and> known_nodes db' = (known_nodes db)(i := None) \<and>
      interests db' = {(j, t) \<in> interests db. j \<noteq> i} \<and> removed = (known_nodes db i \<noteq> None)) \<and>
    (let old = {j. \<exists>info updated. known_nodes db j = Some (info, updated) \<and> updated < now - sint secs}
     in case remove_older_than now db secs of (db', n) \<Rightarrow>
      address_book_ok db' \<and> known_nodes db' = known_nodes db |` (- old) \<and>
      interests db' = {(j, t) \<in> interests db. j \<notin> old} \<and> n = card old) \<and>
    (let db' = set_topics db i ts
     in address_book_ok db' \<and> known_nodes db' = known_nodes db \<and>
      interests db' = {(j, t) \<in> interests db. j \<noteq> i} \<union> {i} \<times> set ts) \<and>
    distinct (map ni_id (node_infos_by_topics db ts)) \<and>
    set (node_infos_by_topics db ts) =
      {info. \<not> ni_is_stale info \<and> (\<exists>updated. known_nodes db (ni_id info) = Some (info, updated)) \<and>
         (\<exists>t \<in> set ts. (ni_id info, t) \<in> interests db)}"
proof (intro conjI)
  show "case insert_node_info now db info of (db', inserted) \<Rightarrow>
      address_book_ok db' \<and> known_nodes db' = (known_nodes db)(ni_id info \<mapsto> (info, now)) \<and>
      interests db' = interests db \<and> inserted = (known_nodes db (ni_id info) = None)"
    using insert_node_info_refines[OF assms] by (auto split: prod.splits)
  show "case remove_node_info db i of (db', removed) \<Rightarrow>
      address_book_ok db' \<and> known_nodes db' = (known_nodes db)(i := None) \<and>
      interests db' = {(j, t) \<in> interests db. j \<noteq> i} \<and> removed = (known_nodes db i \<noteq> None)"
    using remove_node_info_refines[OF assms] by (auto split: prod.splits)
  show "let old = {j. \<exists>info updated. known_nodes db j = Some (info, updated) \<and> updated < now - sint secs}
     in case remove_older_than now db secs of (db', n) \<Rightarrow>
      address_book_ok db' \<and> known_nodes db' = known_nodes db |` (- old) \<and>
      interests db' = {(j, t) \<in> interests db. j \<notin> old} \<and> n = card old"
    using remove_older_than_refines[OF assms, of now secs] unfolding Let_def by (simp split: prod.splits)
  show "let db' = set_topics db i ts
     in address_book_ok db' \<and> known_nodes db' = known_nodes db \<and>
      interests db' = {(j, t) \<in> interests db. j \<noteq> i} \<union> {i} \<times> set ts"
    using set_topics_refines[OF assms] by (simp add: Let_def)
qed (use node_infos_by_topics_known[OF assms] in \<open>auto simp: fresh_info_def\<close>)

definition example_book :: "(nat, nat) address_book" where
  "example_book =
     set_topics (fst (insert_node_info 7 \<lparr>ab_nodes = [], ab_topics = []\<rparr>
       \<lparr>ni_id = 1, ni_is_bootstrap = True, ni_is_stale = False, ni_transports = Some 5\<rparr>)) 1 [[4], [5]]"

lemma example_book_ok: "address_book_ok example_book"
  by code_simp

theorem address_book_refines_witness:
  "set (node_infos_by_topics example_book [[5]]) =
     {info. \<not> ni_is_stale info \<and> (\<exists>updated. known_nodes example_book (ni_id info) = Some (info, updated)) \<and>
        (\<exists>t \<in> set [[5]]. (ni_id info, t) \<in> interests example_book)}"
  using address_book_refines[OF example_book_ok] by blast

end
