(* ===== verification/Discovery.thy ===== *)
theory Discovery
  imports Store_AddressBook
begin

section \<open>Discovery\<close>

text \<open>
  \<open>p2panda-discovery/src/psi_hash.rs\<close> and \<open>random_walk.rs\<close>: the private set intersection that two nodes run to find
  their common topics and exchange transport informations, and the walk that picks the next node to ask. The hash
  function is the argument \<open>blake\<close>, which does not fail; random bytes and choices are arguments. A
  hash set is a list without duplicates. What \<open>rx.next\<close> yields is \<open>None\<close> for a closed stream, \<open>Some None\<close> for
  an error of the stream and otherwise a message; whether a message can be sent is the argument \<open>sink\<close>.
\<close>

subsection \<open>Private set intersection\<close>

datatype ('id, 't) psi_message =
    AliceSaltHalf bytes
  | BobSaltHalfAndHashedData bytes "topic list"
  | AliceHashedData "topic list"
  | Nodes "('id, 't) amap"

datatype psi_error = Subscription | UnexpectedMessage | StreamClosed | SinkClosed

record ('id, 't) discovery_result =
  dr_remote_node_id :: 'id
  dr_transport_infos :: "('id, 't) amap"
  dr_topics :: "topic list"

record ('id, 't) psi_protocol =
  ps_store :: "('id, 't) address_book"
  ps_topics :: "topic list option"
  ps_my_node_id :: 'id
  ps_remote_node_id :: 'id
  ps_share_nodes_with_common_topics :: bool
  ps_salt_half :: bytes

definition ALICE_SALT_BYTE :: u8 where
  "ALICE_SALT_BYTE = 0"

definition BOB_SALT_BYTE :: u8 where
  "BOB_SALT_BYTE = 1"

definition topic_hash :: "(bytes \<Rightarrow> bytes) \<Rightarrow> topic \<Rightarrow> bytes \<Rightarrow> topic" where
  "topic_hash blake t salt = blake (t @ salt)"

definition hash_vector :: "(bytes \<Rightarrow> bytes) \<Rightarrow> topic list \<Rightarrow> bytes \<Rightarrow> topic list" where
  "hash_vector blake ts salt = map (\<lambda>t. topic_hash blake t salt) ts"

definition combine_salt :: "bytes \<Rightarrow> bytes \<Rightarrow> u8 \<Rightarrow> bytes" where
  "combine_salt alice_salt_half bob_salt_half pair_byte = alice_salt_half @ bob_salt_half @ [pair_byte]"

definition compute_intersection :: "(bytes \<Rightarrow> bytes) \<Rightarrow> topic list \<Rightarrow> topic list \<Rightarrow> bytes \<Rightarrow> topic list" where
  "compute_intersection blake local_topics remote_hashes salt =
     fold (\<lambda>(t, h) intersection.
        if h \<in> set remote_hashes then List.insert t intersection else intersection)
       (zip local_topics (hash_vector blake local_topics salt)) []"

definition gather_node_infos :: "('id, 't) psi_protocol \<Rightarrow> topic list \<Rightarrow> ('id, 't) node_info list" where
  "gather_node_infos E ts =
     (if ps_share_nodes_with_common_topics E then
        (let result = node_infos_by_topics (ps_store E) ts
         in if list_ex (\<lambda>info. ni_id info = ps_my_node_id E) result then result
            else (case node_info_of (ps_store E) (ps_my_node_id E) of
                    Some my_node_info \<Rightarrow> result @ [my_node_info]
                  | None \<Rightarrow> result))
      else all_node_infos (ps_store E))"

definition gather_transport_infos :: "('id, 't) psi_protocol \<Rightarrow> topic list \<Rightarrow> ('id, 't) amap" where
  "gather_transport_infos E ts =
     fold (\<lambda>info m. case ni_transports info of
          Some transport_info \<Rightarrow> amap_insert (ni_id info) transport_info m
        | None \<Rightarrow> m) (gather_node_infos E ts) []"

datatype ('id, 't) alice_phase =
    AliceStart
  | AliceAwaitsSalt
  | AliceAwaitsNodes "topic list"
  | AliceDone "('id, 't) discovery_result"
  | AliceFailed psi_error

datatype ('id, 't) bob_phase =
    BobAwaitsSalt
  | BobAwaitsHashes "topic list" bytes
  | BobAwaitsNodes "topic list"
  | BobDone "('id, 't) discovery_result"
  | BobFailed psi_error

definition alice_await_salt ::
  "(bytes \<Rightarrow> bytes) \<Rightarrow> ('id, 't) psi_protocol \<Rightarrow> bool \<Rightarrow> ('id, 't) psi_message option option \<Rightarrow>
   ('id, 't) alice_phase \<times> ('id, 't) psi_message list" where
  "alice_await_salt blake E sink rx =
     (case rx of
        Some (Some (BobSaltHalfAndHashedData bob_salt_half topics_for_alice)) \<Rightarrow>
          (case ps_topics E of
             None \<Rightarrow> (AliceFailed Subscription, [])
           | Some my_topics \<Rightarrow>
               (let alice_final_salt = combine_salt (ps_salt_half E) bob_salt_half ALICE_SALT_BYTE;
                    bob_final_salt = combine_salt (ps_salt_half E) bob_salt_half BOB_SALT_BYTE;
                    topics_intersection = compute_intersection blake my_topics topics_for_alice bob_final_salt;
                    topics_for_bob = remdups (hash_vector blake my_topics alice_final_salt)
                in if sink then (AliceAwaitsNodes topics_intersection, [AliceHashedData topics_for_bob])
                   else (AliceFailed SinkClosed, [])))
      | Some (Some _) \<Rightarrow> (AliceFailed UnexpectedMessage, [])
      | _ \<Rightarrow> (AliceFailed StreamClosed, []))"

definition alice_await_nodes ::
  "('id, 't) psi_protocol \<Rightarrow> bool \<Rightarrow> topic list \<Rightarrow> ('id, 't) psi_message option option \<Rightarrow>
   ('id, 't) alice_phase \<times> ('id, 't) psi_message list" where
  "alice_await_nodes E sink topics_intersection rx =
     (case rx of
        Some (Some (Nodes transport_infos)) \<Rightarrow>
          (if sink then
             (AliceDone \<lparr>dr_remote_node_id = ps_remote_node_id E, dr_transport_infos = transport_infos,
                dr_topics = topics_intersection\<rparr>,
              [Nodes (gather_transport_infos E topics_intersection)])
           else (AliceFailed SinkClosed, []))
      | Some (Some _) \<Rightarrow> (AliceFailed UnexpectedMessage, [])
      | _ \<Rightarrow> (AliceFailed StreamClosed, []))"

fun alice_step ::
  "(bytes \<Rightarrow> bytes) \<Rightarrow> ('id, 't) psi_protocol \<Rightarrow> bool \<Rightarrow> ('id, 't) alice_phase \<Rightarrow> ('id, 't) psi_message option option \<Rightarrow>
   ('id, 't) alice_phase \<times> ('id, 't) psi_message list" where
  "alice_step blake E sink AliceStart _ =
     (if sink then (AliceAwaitsSalt, [AliceSaltHalf (ps_salt_half E)]) else (AliceFailed SinkClosed, []))"
| "alice_step blake E sink AliceAwaitsSalt rx = alice_await_salt blake E sink rx"
| "alice_step blake E sink (AliceAwaitsNodes ts) rx = alice_await_nodes E sink ts rx"
| "alice_step blake E sink (AliceDone r) _ = (AliceDone r, [])"
| "alice_step blake E sink (AliceFailed e) _ = (AliceFailed e, [])"

definition bob_await_salt ::
  "(bytes \<Rightarrow> bytes) \<Rightarrow> ('id, 't) psi_protocol \<Rightarrow> bool \<Rightarrow> ('id, 't) psi_message option option \<Rightarrow>
   ('id, 't) bob_phase \<times> ('id, 't) psi_message list" where
  "bob_await_salt blake E sink rx =
     (case rx of
        Some (Some (AliceSaltHalf alice_salt_half)) \<Rightarrow>
          (let alice_final_salt = combine_salt alice_salt_half (ps_salt_half E) ALICE_SALT_BYTE;
               bob_final_salt = combine_salt alice_salt_half (ps_salt_half E) BOB_SALT_BYTE
           in case ps_topics E of
                None \<Rightarrow> (BobFailed Subscription, [])
              | Some my_topics \<Rightarrow>
                  if sink then
                    (BobAwaitsHashes my_topics alice_final_salt,
                     [BobSaltHalfAndHashedData (ps_salt_half E) (remdups (hash_vector blake my_topics bob_final_salt))])
                  else (BobFailed SinkClosed, []))
      | Some (Some _) \<Rightarrow> (BobFailed UnexpectedMessage, [])
      | _ \<Rightarrow> (BobFailed StreamClosed, []))"

definition bob_await_hashes ::
  "(bytes \<Rightarrow> bytes) \<Rightarrow> ('id, 't) psi_protocol \<Rightarrow> bool \<Rightarrow> topic list \<Rightarrow> bytes \<Rightarrow> ('id, 't) psi_message option option \<Rightarrow>
   ('id, 't) bob_phase \<times> ('id, 't) psi_message list" where
  "bob_await_hashes blake E sink my_topics alice_final_salt rx =
     (case rx of
        Some (Some (AliceHashedData topics_for_bob)) \<Rightarrow>
          (let topics_intersection = compute_intersection blake my_topics topics_for_bob alice_final_salt
           in if sink then (BobAwaitsNodes topics_intersection, [Nodes (gather_transport_infos E topics_intersection)])
              else (BobFailed SinkClosed, []))
      | Some (Some _) \<Rightarrow> (BobFailed UnexpectedMessage, [])
      | _ \<Rightarrow> (BobFailed StreamClosed, []))"

definition bob_await_nodes ::
  "('id, 't) psi_protocol \<Rightarrow> topic list \<Rightarrow> ('id, 't) psi_message option option \<Rightarrow> ('id, 't) bob_phase \<times> ('id, 't) psi_message list" where
  "bob_await_nodes E topics_intersection rx =
     (case rx of
        Some (Some (Nodes transport_infos)) \<Rightarrow>
          (BobDone \<lparr>dr_remote_node_id = ps_remote_node_id E, dr_transport_infos = transport_infos,
             dr_topics = topics_intersection\<rparr>, [])
      | Some (Some _) \<Rightarrow> (BobFailed UnexpectedMessage, [])
      | _ \<Rightarrow> (BobFailed StreamClosed, []))"

fun bob_step ::
  "(bytes \<Rightarrow> bytes) \<Rightarrow> ('id, 't) psi_protocol \<Rightarrow> bool \<Rightarrow> ('id, 't) bob_phase \<Rightarrow> ('id, 't) psi_message option option \<Rightarrow>
   ('id, 't) bob_phase \<times> ('id, 't) psi_message list" where
  "bob_step blake E sink BobAwaitsSalt rx = bob_await_salt blake E sink rx"
| "bob_step blake E sink (BobAwaitsHashes ts salt) rx = bob_await_hashes blake E sink ts salt rx"
| "bob_step blake E sink (BobAwaitsNodes ts) rx = bob_await_nodes E ts rx"
| "bob_step blake E sink (BobDone r) _ = (BobDone r, [])"
| "bob_step blake E sink (BobFailed e) _ = (BobFailed e, [])"

subsection \<open>A session of two nodes\<close>

record ('id, 't) psi_session =
  ses_alice :: "('id, 't) alice_phase"
  ses_bob :: "('id, 't) bob_phase"
  ses_to_bob :: "('id, 't) psi_message list"
  ses_to_alice :: "('id, 't) psi_message list"

definition alice_ended :: "('id, 't) alice_phase \<Rightarrow> bool" where
  "alice_ended p = (case p of AliceDone _ \<Rightarrow> True | AliceFailed _ \<Rightarrow> True | _ \<Rightarrow> False)"

definition bob_ended :: "('id, 't) bob_phase \<Rightarrow> bool" where
  "bob_ended p = (case p of BobDone _ \<Rightarrow> True | BobFailed _ \<Rightarrow> True | _ \<Rightarrow> False)"

text \<open>
  A side that waits for a message takes the next one from its stream; the stream is closed once it is empty and
  the other side has ended. A message can be sent as long as the other side has not ended.
\<close>

definition alice_moves ::
  "(bytes \<Rightarrow> bytes) \<Rightarrow> ('id, 't) psi_protocol \<Rightarrow> ('id, 't) psi_session \<Rightarrow> ('id, 't) psi_message option option \<Rightarrow>
   ('id, 't) psi_message list \<Rightarrow> ('id, 't) psi_session" where
  "alice_moves blake E s rx rest =
     (case alice_step blake E (\<not> bob_ended (ses_bob s)) (ses_alice s) rx of
        (p, ms) \<Rightarrow> s\<lparr>ses_alice := p, ses_to_bob := ses_to_bob s @ ms, ses_to_alice := rest\<rparr>)"

definition bob_moves ::
  "(bytes \<Rightarrow> bytes) \<Rightarrow> ('id, 't) psi_protocol \<Rightarrow> ('id, 't) psi_session \<Rightarrow> ('id, 't) psi_message option option \<Rightarrow>
   ('id, 't) psi_message list \<Rightarrow> ('id, 't) psi_session" where
  "bob_moves blake E s rx rest =
     (case bob_step blake E (\<not> alice_ended (ses_alice s)) (ses_bob s) rx of
        (p, ms) \<Rightarrow> s\<lparr>ses_bob := p, ses_to_alice := ses_to_alice s @ ms, ses_to_bob := rest\<rparr>)"

inductive psi_step ::
  "(bytes \<Rightarrow> bytes) \<Rightarrow> ('id, 't) psi_protocol \<Rightarrow> ('id, 't) psi_protocol \<Rightarrow> ('id, 't) psi_session \<Rightarrow> ('id, 't) psi_session \<Rightarrow> bool"
  for blake A B where
  alice_starts: "ses_alice s = AliceStart \<Longrightarrow> psi_step blake A B s (alice_moves blake A s None (ses_to_alice s))"
| alice_receives: "ses_alice s \<noteq> AliceStart \<Longrightarrow> \<not> alice_ended (ses_alice s) \<Longrightarrow> ses_to_alice s = m # rest \<Longrightarrow>
     psi_step blake A B s (alice_moves blake A s (Some (Some m)) rest)"
| alice_closed: "ses_alice s \<noteq> AliceStart \<Longrightarrow> \<not> alice_ended (ses_alice s) \<Longrightarrow> ses_to_alice s = [] \<Longrightarrow> bob_ended (ses_bob s) \<Longrightarrow>
     psi_step blake A B s (alice_moves blake A s None [])"
| bob_receives: "\<not> bob_ended (ses_bob s) \<Longrightarrow> ses_to_bob s = m # rest \<Longrightarrow>
     psi_step blake A B s (bob_moves blake B s (Some (Some m)) rest)"
| bob_closed: "\<not> bob_ended (ses_bob s) \<Longrightarrow> ses_to_bob s = [] \<Longrightarrow> alice_ended (ses_alice s) \<Longrightarrow>
     psi_step blake A B s (bob_moves blake B s None [])"

definition psi_start :: "('id, 't) psi_session" where
  "psi_start = \<lparr>ses_alice = AliceStart, ses_bob = BobAwaitsSalt, ses_to_bob = [], ses_to_alice = []\<rparr>"

inductive_simps psi_step_iff: "psi_step blake A B s s'"

definition common :: "topic list \<Rightarrow> topic list \<Rightarrow> topic list" where
  "common xs ys = fold (\<lambda>t acc. if t \<in> set ys then List.insert t acc else acc) xs []"

lemma set_common: "set (common xs ys) = set xs \<inter> set ys"
proof -
  have "set (fold (\<lambda>t acc. if t \<in> set ys then List.insert t acc else acc) xs acc) = set acc \<union> set xs \<inter> set ys" for acc
    by (induction xs arbitrary: acc) auto
  then show ?thesis
    by (simp add: common_def)
qed

lemma distinct_common: "distinct (common xs ys)"
proof -
  have "distinct acc \<Longrightarrow> distinct (fold (\<lambda>t acc. if t \<in> set ys then List.insert t acc else acc) xs acc)" for acc
    by (induction xs arbitrary: acc) auto
  then show ?thesis
    by (simp add: common_def)
qed

definition collision_free :: "(bytes \<Rightarrow> bytes) \<Rightarrow> topic set \<Rightarrow> bytes \<Rightarrow> bool" where
  "collision_free blake ts salt \<longleftrightarrow> (\<forall>t \<in> ts. \<forall>u \<in> ts. blake (t @ salt) = blake (u @ salt) \<longrightarrow> t = u)"

lemma compute_intersection_common:
  assumes "collision_free blake (set xs \<union> set ys) salt"
  shows "compute_intersection blake xs (remdups (hash_vector blake ys salt)) salt = common xs ys"
proof -
  have mem: "topic_hash blake t salt \<in> set (remdups (hash_vector blake ys salt)) \<longleftrightarrow> t \<in> set ys" if "t \<in> set xs" for t
    using assms that by (auto simp: hash_vector_def topic_hash_def collision_free_def image_iff)
  have "fold (\<lambda>(t, h) acc. if h \<in> set (remdups (hash_vector blake ys salt)) then List.insert t acc else acc)
      (zip zs (hash_vector blake zs salt)) acc =
    fold (\<lambda>t acc. if t \<in> set ys then List.insert t acc else acc) zs acc" if "set zs \<subseteq> set xs" for zs acc
    using that
  proof (induction zs arbitrary: acc)
    case (Cons z zs)
    then have "z \<in> set xs" "set zs \<subseteq> set xs"
      by auto
    then show ?case
      using Cons.IH mem[of z] by (simp add: hash_vector_def)
  qed (simp add: hash_vector_def)
  then show ?thesis
    by (simp add: compute_intersection_def common_def)
qed

definition psi_states ::
  "(bytes \<Rightarrow> bytes) \<Rightarrow> ('id, 't) psi_protocol \<Rightarrow> ('id, 't) psi_protocol \<Rightarrow> topic list \<Rightarrow> topic list \<Rightarrow> ('id, 't) psi_session list" where
  "psi_states blake A B ta tb =
     (let alice_salt = combine_salt (ps_salt_half A) (ps_salt_half B) ALICE_SALT_BYTE;
          bob_salt = combine_salt (ps_salt_half A) (ps_salt_half B) BOB_SALT_BYTE;
          alice_nodes = gather_transport_infos A (common ta tb);
          bob_nodes = gather_transport_infos B (common tb ta);
          alice_done = AliceDone \<lparr>dr_remote_node_id = ps_remote_node_id A, dr_transport_infos = bob_nodes, dr_topics = common ta tb\<rparr>;
          bob_done = BobDone \<lparr>dr_remote_node_id = ps_remote_node_id B, dr_transport_infos = alice_nodes, dr_topics = common tb ta\<rparr>
      in [psi_start,
          \<lparr>ses_alice = AliceAwaitsSalt, ses_bob = BobAwaitsSalt, ses_to_bob = [AliceSaltHalf (ps_salt_half A)], ses_to_alice = []\<rparr>,
          \<lparr>ses_alice = AliceAwaitsSalt, ses_bob = BobAwaitsHashes tb alice_salt, ses_to_bob = [],
           ses_to_alice = [BobSaltHalfAndHashedData (ps_salt_half B) (remdups (hash_vector blake tb bob_salt))]\<rparr>,
          \<lparr>ses_alice = AliceAwaitsNodes (common ta tb), ses_bob = BobAwaitsHashes tb alice_salt,
           ses_to_bob = [AliceHashedData (remdups (hash_vector blake ta alice_salt))], ses_to_alice = []\<rparr>,
          \<lparr>ses_alice = AliceAwaitsNodes (common ta tb), ses_bob = BobAwaitsNodes (common tb ta), ses_to_bob = [],
           ses_to_alice = [Nodes bob_nodes]\<rparr>,
          \<lparr>ses_alice = alice_done, ses_bob = BobAwaitsNodes (common tb ta), ses_to_bob = [Nodes alice_nodes], ses_to_alice = []\<rparr>,
          \<lparr>ses_alice = alice_done, ses_bob = bob_done, ses_to_bob = [], ses_to_alice = []\<rparr>])"

lemmas psi_step_defs = psi_step_iff psi_start_def alice_moves_def bob_moves_def alice_ended_def bob_ended_def
  alice_await_salt_def alice_await_nodes_def bob_await_salt_def bob_await_hashes_def bob_await_nodes_def

lemma length_psi_states [simp]: "length (psi_states blake A B ta tb) = 7"
  by (simp add: psi_states_def Let_def)

lemma psi_step_states:
  assumes topics: "ps_topics A = Some ta" "ps_topics B = Some tb"
    and free: "\<And>b. collision_free blake (set ta \<union> set tb) (combine_salt (ps_salt_half A) (ps_salt_half B) b)"
    and n: "n < 7"
  shows "psi_step blake A B (psi_states blake A B ta tb ! n) s' \<longleftrightarrow> n < 6 \<and> s' = psi_states blake A B ta tb ! Suc n"
proof -
  note common = compute_intersection_common[OF free] compute_intersection_common[OF free[unfolded Un_commute[of "set ta"]]]
  have "n = 0 \<or> n = 1 \<or> n = 2 \<or> n = 3 \<or> n = 4 \<or> n = 5 \<or> n = 6"
    using n by arith
  then show ?thesis
    by (elim disjE) (auto simp: psi_states_def psi_step_defs Let_def topics common)
qed

lemma psi_run_states:
  assumes topics: "ps_topics A = Some ta" "ps_topics B = Some tb"
    and free: "\<And>b. collision_free blake (set ta \<union> set tb) (combine_salt (ps_salt_half A) (ps_salt_half B) b)"
    and run: "(psi_step blake A B ^^ n) psi_start s"
  shows "n < 7 \<and> s = psi_states blake A B ta tb ! n"
  using run
proof (induction n arbitrary: s)
  case 0
  then show ?case
    by (auto simp: psi_states_def Let_def)
next
  case (Suc n)
  then obtain t where t: "(psi_step blake A B ^^ n) psi_start t" "psi_step blake A B t s"
    by auto
  with Suc.IH[OF t(1)] show ?case
    using psi_step_states[OF topics free, of n s] by auto
qed

subsection \<open>What a node shares\<close>

text \<open>
  The transport informations a node may share for a set of topics: those of all known nodes that are not stale, or,
  when it shares only nodes with common topics, its own and those of the nodes interested in one of the topics.
\<close>

definition shared_transports :: "('id, 't) psi_protocol \<Rightarrow> topic set \<Rightarrow> 'id \<rightharpoonup> 't" where
  "shared_transports E ts i =
     (case known_nodes (ps_store E) i of
        None \<Rightarrow> None
      | Some (info, _) \<Rightarrow>
          if (if ps_share_nodes_with_common_topics E
              then i = ps_my_node_id E \<or> \<not> ni_is_stale info \<and> (\<exists>t \<in> ts. (i, t) \<in> interests (ps_store E))
              else \<not> ni_is_stale info)
          then ni_transports info else None)"

lemma fold_transports:
  assumes "distinct (map ni_id infos)" "fst ` set m \<inter> ni_id ` set infos = {}"
  shows "map_of (fold (\<lambda>info m. case ni_transports info of
        Some transport_info \<Rightarrow> amap_insert (ni_id info) transport_info m | None \<Rightarrow> m) infos m) i = Some t \<longleftrightarrow>
    map_of m i = Some t \<or> (\<exists>info \<in> set infos. ni_id info = i \<and> ni_transports info = Some t)"
  using assms
proof (induction infos arbitrary: m)
  case (Cons info infos)
  show ?case
  proof (cases "ni_transports info")
    case None
    with Cons show ?thesis
      by auto
  next
    case (Some u)
    have "map_of m (ni_id info) = None"
      using Cons.prems(2) by (auto simp: map_of_eq_None_iff)
    with Cons.prems Some show ?thesis
      by (simp, subst Cons.IH) auto
  qed
qed simp

lemma known_id: "address_book_ok db \<Longrightarrow> known_nodes db i = Some (info, updated) \<Longrightarrow> ni_id info = i"
  by (auto simp: known_nodes_Some row_flags(3))

lemma gather_node_infos_known:
  assumes "address_book_ok (ps_store E)"
  shows "distinct (map ni_id (gather_node_infos E ts))"
    and "info \<in> set (gather_node_infos E ts) \<longleftrightarrow>
      (\<exists>updated. known_nodes (ps_store E) (ni_id info) = Some (info, updated)) \<and>
      (if ps_share_nodes_with_common_topics E
       then ni_id info = ps_my_node_id E \<or> \<not> ni_is_stale info \<and> (\<exists>t \<in> set ts. (ni_id info, t) \<in> interests (ps_store E))
       else \<not> ni_is_stale info)"
proof -
  note by_topics = node_infos_by_topics_known[OF assms, of ts] and all = all_node_infos_known[OF assms]
  have own: "node_info_of (ps_store E) (ps_my_node_id E) = Some own \<longleftrightarrow>
      (\<exists>updated. known_nodes (ps_store E) (ps_my_node_id E) = Some (own, updated))" for own
    unfolding node_info_of_known[OF assms] by auto
  show "distinct (map ni_id (gather_node_infos E ts))"
    using by_topics(1) all(1) own known_id[OF assms]
    by (auto simp: gather_node_infos_def Let_def list_ex_iff split: option.splits)
  have result: "info \<in> set (node_infos_by_topics (ps_store E) ts) \<longleftrightarrow>
      (\<exists>updated. known_nodes (ps_store E) (ni_id info) = Some (info, updated)) \<and> \<not> ni_is_stale info \<and>
      (\<exists>t \<in> set ts. (ni_id info, t) \<in> interests (ps_store E))" for info
    unfolding by_topics(2) fresh_info_def by blast
  let ?my = "ps_my_node_id E"
  have "info \<in> set (gather_node_infos E ts) \<longleftrightarrow> info \<in> set (node_infos_by_topics (ps_store E) ts) \<or>
      ni_id info = ?my \<and> (\<exists>updated. known_nodes (ps_store E) ?my = Some (info, updated))"
    if share: "ps_share_nodes_with_common_topics E"
  proof (cases "\<exists>own \<in> set (node_infos_by_topics (ps_store E) ts). ni_id own = ?my")
    case True
    then have "gather_node_infos E ts = node_infos_by_topics (ps_store E) ts"
      using share by (auto simp: gather_node_infos_def list_ex_iff)
    moreover obtain own updated where "own \<in> set (node_infos_by_topics (ps_store E) ts)"
        "known_nodes (ps_store E) ?my = Some (own, updated)"
      using True result by metis
    ultimately show ?thesis
      by auto
  next
    case False
    then have "gather_node_infos E ts = node_infos_by_topics (ps_store E) ts @
        (case node_info_of (ps_store E) ?my of Some own \<Rightarrow> [own] | None \<Rightarrow> [])"
      using share by (auto simp: gather_node_infos_def list_ex_iff split: option.split)
    then have "info \<in> set (gather_node_infos E ts) \<longleftrightarrow> info \<in> set (node_infos_by_topics (ps_store E) ts) \<or>
        node_info_of (ps_store E) ?my = Some info"
      by (auto split: option.splits)
    then show ?thesis
      using own known_id[OF assms] by blast
  qed
  moreover have "info \<in> set (gather_node_infos E ts) \<longleftrightarrow> fresh_info (ps_store E) info"
    if "\<not> ps_share_nodes_with_common_topics E"
    using that all(2) by (simp add: gather_node_infos_def)
  ultimately show "info \<in> set (gather_node_infos E ts) \<longleftrightarrow>
      (\<exists>updated. known_nodes (ps_store E) (ni_id info) = Some (info, updated)) \<and>
      (if ps_share_nodes_with_common_topics E
       then ni_id info = ?my \<or> \<not> ni_is_stale info \<and> (\<exists>t \<in> set ts. (ni_id info, t) \<in> interests (ps_store E))
       else \<not> ni_is_stale info)"
    unfolding result fresh_info_def by auto
qed

lemma gather_transport_infos_shared:
  assumes "address_book_ok (ps_store E)"
  shows "map_of (gather_transport_infos E ts) = shared_transports E (set ts)"
proof
  fix i
  have "map_of (gather_transport_infos E ts) i = Some t \<longleftrightarrow>
      (\<exists>info \<in> set (gather_node_infos E ts). ni_id info = i \<and> ni_transports info = Some t)" for t
    unfolding gather_transport_infos_def
    by (subst fold_transports[OF gather_node_infos_known(1)[OF assms]]) auto
  also have "(\<exists>info \<in> set (gather_node_infos E ts). ni_id info = i \<and> ni_transports info = Some t) \<longleftrightarrow>
      shared_transports E (set ts) i = Some t" for t
  proof (cases "known_nodes (ps_store E) i")
    case None
    then show ?thesis
      unfolding Bex_def gather_node_infos_known(2)[OF assms] shared_transports_def by auto
  next
    case (Some known)
    then obtain a updated where known: "known_nodes (ps_store E) i = Some (a, updated)" "ni_id a = i"
      using known_id[OF assms] by (cases known) auto
    have "(\<exists>info \<in> set (gather_node_infos E ts). ni_id info = i \<and> ni_transports info = Some t) \<longleftrightarrow>
        a \<in> set (gather_node_infos E ts) \<and> ni_transports a = Some t"
      unfolding Bex_def gather_node_infos_known(2)[OF assms] using known by auto
    then show ?thesis
      unfolding gather_node_infos_known(2)[OF assms] shared_transports_def using known by auto
  qed
  finally show "map_of (gather_transport_infos E ts) i = shared_transports E (set ts) i"
    by (metis option.exhaust)
qed


lemma psi_run_exists:
  assumes "ps_topics A = Some ta" "ps_topics B = Some tb"
    and "\<And>b. collision_free blake (set ta \<union> set tb) (combine_salt (ps_salt_half A) (ps_salt_half B) b)"
    and "n < 7"
  shows "(psi_step blake A B ^^ n) psi_start (psi_states blake A B ta tb ! n)"
  using assms(4)
proof (induction n)
  case 0
  then show ?case
    by (simp add: psi_states_def Let_def)
next
  case (Suc n)
  then have "psi_step blake A B (psi_states blake A B ta tb ! n) (psi_states blake A B ta tb ! Suc n)"
    using psi_step_states[OF assms(1-3), of n] by simp
  with Suc show ?case
    by auto
qed

definition example_peer :: "nat \<Rightarrow> nat \<Rightarrow> topic list \<Rightarrow> bytes \<Rightarrow> (nat, nat) psi_protocol" where
  "example_peer i j ts salt =
     \<lparr>ps_store = example_book, ps_topics = Some ts, ps_my_node_id = i, ps_remote_node_id = j,
      ps_share_nodes_with_common_topics = True, ps_salt_half = salt\<rparr>"


end
