(* ===== verification/Discovery_Walk.thy ===== *)
theory Discovery_Walk
  imports Discovery
begin

section \<open>The random walk\<close>

text \<open>
  \<open>p2panda-discovery/src/random_walk.rs\<close>: the strategy that picks the next node to run the discovery protocol with.
  The coin of a step, the numbers that pick random rows of the address book and the choice of an element of a set are
  arguments. The loop that looks for a bootstrap node consumes one number per draw; without a number left it has not
  returned, which is \<open>None\<close>.
\<close>

record 'id walker =
  wk_unvisited :: "'id set"
  wk_visited :: "'id set"

definition walker_default :: "'id walker" where
  "walker_default = \<lparr>wk_unvisited = {}, wk_visited = {}\<rparr>"

definition walker_reset :: "'id \<Rightarrow> ('id, 't) address_book \<Rightarrow> 'id walker \<Rightarrow> 'id walker" where
  "walker_reset my_id db w =
     (let all_nodes = filter (\<lambda>i. i \<noteq> my_id) (map ni_id (all_node_infos db))
      in w\<lparr>wk_unvisited := wk_unvisited w \<union> set all_nodes, wk_visited := {my_id}\<rparr>)"

definition random_unvisited_node :: "('id set \<Rightarrow> 'id option) \<Rightarrow> 'id walker \<Rightarrow> 'id option" where
  "random_unvisited_node pick w = pick (wk_unvisited w)"

datatype 'id drawn = Drawn 'id | NoBootstrap | OnlyOurselves

fun draw_bootstrap :: "'id \<Rightarrow> ('id, 't) address_book \<Rightarrow> nat list \<Rightarrow> 'id drawn option" where
  "draw_bootstrap my_id db [] = None"
| "draw_bootstrap my_id db (rnd # draws) =
     (case random_bootstrap_node rnd db of
        None \<Rightarrow> Some NoBootstrap
      | Some info \<Rightarrow>
          if ni_id info \<noteq> my_id then Some (Drawn (ni_id info))
          else if all_bootstrap_nodes_len db = 1 then Some OnlyOurselves
          else draw_bootstrap my_id db draws)"

definition walker_bootstrap_node ::
  "'id \<Rightarrow> ('id, 't) address_book \<Rightarrow> nat list \<Rightarrow> ('id set \<Rightarrow> 'id option) \<Rightarrow> 'id walker \<Rightarrow> 'id option option" where
  "walker_bootstrap_node my_id db draws pick w =
     (case draw_bootstrap my_id db draws of
        None \<Rightarrow> None
      | Some (Drawn i) \<Rightarrow> Some (Some i)
      | Some NoBootstrap \<Rightarrow> Some (random_unvisited_node pick w)
      | Some OnlyOurselves \<Rightarrow> Some None)"

definition merge_previous :: "('id, 't) discovery_result \<Rightarrow> 'id walker \<Rightarrow> 'id walker" where
  "merge_previous previous w =
     fold (\<lambda>i w. if i \<notin> wk_visited w then w\<lparr>wk_unvisited := insert i (wk_unvisited w)\<rparr> else w)
       (map fst (dr_transport_infos previous)) w"

definition mark_visited :: "'id \<Rightarrow> 'id walker \<Rightarrow> 'id walker" where
  "mark_visited i w = w\<lparr>wk_visited := insert i (wk_visited w), wk_unvisited := wk_unvisited w - {i}\<rparr>"

definition merged :: "('id, 't) discovery_result option \<Rightarrow> 'id walker \<Rightarrow> 'id walker" where
  "merged previous w = (case previous of Some r \<Rightarrow> merge_previous r w | None \<Rightarrow> w)"

definition resets :: "bool \<Rightarrow> ('id, 't) discovery_result option \<Rightarrow> 'id walker \<Rightarrow> bool" where
  "resets coin previous w \<longleftrightarrow>
     (if previous = None then True else if wk_unvisited w = {} then True else coin)"

definition next_node ::
  "'id \<Rightarrow> ('id, 't) address_book \<Rightarrow> bool \<Rightarrow> nat list \<Rightarrow> ('id set \<Rightarrow> 'id option) \<Rightarrow> ('id, 't) discovery_result option \<Rightarrow>
   'id walker \<Rightarrow> ('id walker \<times> 'id option) option" where
  "next_node my_id db coin draws pick previous w =
     (let w = merged previous w;
          (w, node_id) =
            (if resets coin previous w
             then (let w = walker_reset my_id db w in (w, walker_bootstrap_node my_id db draws pick w))
             else (w, Some (random_unvisited_node pick w)))
      in case node_id of
           None \<Rightarrow> None
         | Some None \<Rightarrow> Some (w, None)
         | Some (Some i) \<Rightarrow> Some (mark_visited i w, Some i))"

subsection \<open>Every learned node is visited once\<close>

text \<open>
  A walk with what it has done since its last reset: the nodes it returned and the nodes it learned about, from the
  address book at the reset and from the results of the discovery protocol. The address book may change between
  the steps; the walk carries that of its last step.
\<close>

definition pick_ok :: "('id set \<Rightarrow> 'id option) \<Rightarrow> bool" where
  "pick_ok pick \<longleftrightarrow> (\<forall>S. finite S \<longrightarrow> (case pick S of None \<Rightarrow> S = {} | Some i \<Rightarrow> i \<in> S))"

lemma pick_ok_cases:
  assumes "pick_ok pick" "finite S"
  shows "case pick S of None \<Rightarrow> S = {} | Some i \<Rightarrow> i \<in> S"
  using assms by (simp add: pick_ok_def)

inductive walk :: "'id \<Rightarrow> ('id, 't) address_book \<Rightarrow> 'id walker \<Rightarrow> 'id list \<Rightarrow> 'id set \<Rightarrow> bool" for my_id where
  first: "address_book_ok db \<Longrightarrow> pick_ok pick \<Longrightarrow>
     next_node my_id db coin draws pick None walker_default = Some (w, node) \<Longrightarrow>
     walk my_id db w (case node of Some i \<Rightarrow> [i] | None \<Rightarrow> []) (ni_id ` set (all_node_infos db))"
| restart: "walk my_id db0 w0 trail learned \<Longrightarrow> address_book_ok db \<Longrightarrow> pick_ok pick \<Longrightarrow>
     resets coin previous (merged previous w0) \<Longrightarrow>
     next_node my_id db coin draws pick previous w0 = Some (w, node) \<Longrightarrow>
     walk my_id db w (case node of Some i \<Rightarrow> [i] | None \<Rightarrow> []) (ni_id ` set (all_node_infos db))"
| continue: "walk my_id db0 w0 trail learned \<Longrightarrow> pick_ok pick \<Longrightarrow>
     \<not> resets coin (Some previous) (merged (Some previous) w0) \<Longrightarrow>
     next_node my_id db coin draws pick (Some previous) w0 = Some (w, node) \<Longrightarrow>
     walk my_id db w (trail @ (case node of Some i \<Rightarrow> [i] | None \<Rightarrow> [])) (learned \<union> set (map fst (dr_transport_infos previous)))"

definition walk_ok :: "'id \<Rightarrow> 'id walker \<Rightarrow> 'id list \<Rightarrow> 'id set \<Rightarrow> bool" where
  "walk_ok my_id w trail learned \<longleftrightarrow>
     wk_visited w = insert my_id (set trail) \<and> wk_unvisited w \<inter> wk_visited w = {} \<and>
     finite (wk_unvisited w) \<and> distinct trail \<and> my_id \<notin> set trail \<and> learned \<subseteq> wk_visited w \<union> wk_unvisited w"

lemma merge_previous_sets [simp]:
  "wk_visited (merge_previous r w) = wk_visited w"
  "wk_unvisited (merge_previous r w) = wk_unvisited w \<union> (set (map fst (dr_transport_infos r)) - wk_visited w)"
proof -
  have "wk_visited (fold (\<lambda>i w. if i \<notin> wk_visited w then w\<lparr>wk_unvisited := insert i (wk_unvisited w)\<rparr> else w) is w) = wk_visited w \<and>
      wk_unvisited (fold (\<lambda>i w. if i \<notin> wk_visited w then w\<lparr>wk_unvisited := insert i (wk_unvisited w)\<rparr> else w) is w) =
        wk_unvisited w \<union> (set is - wk_visited w)" for "is" and w :: "'a walker"
    by (induction "is" arbitrary: w) auto
  then show "wk_visited (merge_previous r w) = wk_visited w"
    "wk_unvisited (merge_previous r w) = wk_unvisited w \<union> (set (map fst (dr_transport_infos r)) - wk_visited w)"
    unfolding merge_previous_def by blast+
qed

lemma draw_bootstrap_Drawn:
  assumes "address_book_ok db" "draw_bootstrap my_id db draws = Some (Drawn i)"
  shows "i \<noteq> my_id \<and> i \<in> ni_id ` set (all_node_infos db)"
  using assms(2)
proof (induction draws)
  case (Cons rnd draws)
  then show ?case
    using random_bootstrap_known(1)[OF assms(1), of rnd] all_node_infos_known(2)[OF assms(1)]
    by (auto split: option.splits if_splits)
qed simp

lemma next_node_reset:
  assumes ok: "address_book_ok db" "pick_ok pick" and reset: "resets coin previous (merged previous w0)"
    and w0: "my_id \<notin> wk_unvisited (merged previous w0)" "finite (wk_unvisited (merged previous w0))"
    and step: "next_node my_id db coin draws pick previous w0 = Some (w, node)"
  shows "walk_ok my_id w (case node of Some i \<Rightarrow> [i] | None \<Rightarrow> []) (ni_id ` set (all_node_infos db))"
proof -
  let ?w = "walker_reset my_id db (merged previous w0)"
  have sets: "wk_visited ?w = {my_id}" "my_id \<notin> wk_unvisited ?w" "finite (wk_unvisited ?w)" "ni_id ` set (all_node_infos db) \<subseteq> insert my_id (wk_unvisited ?w)"
    using w0 by (auto simp: walker_reset_def Let_def)
  have new: "i \<in> wk_unvisited ?w" if "walker_bootstrap_node my_id db draws pick ?w = Some (Some i)" for i
  proof (cases "draw_bootstrap my_id db draws")
    case None
    with that show ?thesis
      by (simp add: walker_bootstrap_node_def)
  next
    case (Some drawn)
    with that show ?thesis
      using draw_bootstrap_Drawn[OF ok(1), of my_id draws] pick_ok_cases[OF ok(2) sets(3)] sets(4)
      by (cases drawn) (auto simp: walker_bootstrap_node_def random_unvisited_node_def)
  qed
  show ?thesis
    using step reset sets new
    by (auto simp: next_node_def Let_def walk_ok_def mark_visited_def split: option.splits)
qed

lemma next_node_continue:
  assumes pick: "pick_ok pick" and walk: "walk_ok my_id w0 trail learned"
    and no_reset: "\<not> resets coin (Some r) (merged (Some r) w0)"
    and step: "next_node my_id db coin draws pick (Some r) w0 = Some (w, node)"
  shows "walk_ok my_id w (trail @ (case node of Some i \<Rightarrow> [i] | None \<Rightarrow> [])) (learned \<union> set (map fst (dr_transport_infos r)))"
proof -
  let ?w = "merge_previous r w0"
  have sets: "wk_visited ?w = insert my_id (set trail)" "wk_unvisited ?w \<inter> wk_visited ?w = {}" "finite (wk_unvisited ?w)"
      "learned \<union> set (map fst (dr_transport_infos r)) \<subseteq> wk_visited ?w \<union> wk_unvisited ?w"
    and trail: "distinct trail" "my_id \<notin> set trail"
    using walk by (auto simp: walk_ok_def)
  have "wk_unvisited ?w \<noteq> {}"
    using no_reset by (auto simp: resets_def merged_def)
  then obtain i where i: "pick (wk_unvisited ?w) = Some i" "i \<in> wk_unvisited ?w"
    using pick_ok_cases[OF pick sets(3)] by (auto split: option.splits)
  then have w: "w = mark_visited i ?w" "node = Some i"
    using step no_reset by (auto simp: next_node_def Let_def merged_def random_unvisited_node_def)
  with i sets trail show ?thesis
    by (auto simp: walk_ok_def mark_visited_def)
qed

lemma walk_walk_ok: "walk my_id db w trail learned \<Longrightarrow> walk_ok my_id w trail learned"
proof (induction rule: walk.induct)
  case (first db pick coin draws w node)
  then show ?case
    by (intro next_node_reset) (auto simp: resets_def merged_def walker_default_def)
next
  case (restart db0 w0 trail learned db pick coin previous draws w node)
  then show ?case
    by (intro next_node_reset) (auto simp: walk_ok_def merged_def split: option.splits)
next
  case (continue db0 w0 trail learned pick coin previous db draws w node)
  then show ?case
    by (intro next_node_continue)
qed

text \<open>
  C40: between two resets the walk returns no node twice and never the local node, and once no node is left unvisited it has
  returned every node it learned about, from the address book at the reset and from the results of the discovery sessions.
\<close>

theorem walk_visits_each_once:
  assumes "walk my_id db w trail learned"
  shows "distinct trail \<and> my_id \<notin> set trail \<and> (wk_unvisited w = {} \<longrightarrow> learned \<subseteq> insert my_id (set trail))"
  using walk_walk_ok[OF assms] by (auto simp: walk_ok_def)

definition least :: "nat set \<Rightarrow> nat option" where
  "least S = (if S = {} then None else Some (Min S))"

lemma pick_ok_least: "pick_ok least"
  by (simp add: pick_ok_def least_def)

theorem walk_visits_each_once_witness:
  "walk 9 example_book \<lparr>wk_unvisited = {}, wk_visited = {1, 9}\<rparr> [1] {1} \<and> {1} \<subseteq> insert 9 (set [1])"
proof -
  have "next_node 9 example_book False [0] least None walker_default = Some (\<lparr>wk_unvisited = {}, wk_visited = {1, 9}\<rparr>, Some 1)"
    by code_simp
  from walk.first[OF example_book_ok pick_ok_least this]
  have walk: "walk 9 example_book \<lparr>wk_unvisited = {}, wk_visited = {1, 9}\<rparr> [1] (ni_id ` set (all_node_infos example_book))"
    by simp
  moreover have "ni_id ` set (all_node_infos example_book) = {1}"
    by code_simp
  ultimately show ?thesis
    using walk_visits_each_once[OF walk] by simp
qed

subsection \<open>When the walk stops\<close>

definition bootstrap_ids :: "('id, 't) address_book \<Rightarrow> 'id list" where
  "bootstrap_ids db = map nr_node_id (filter (\<lambda>r. nr_bootstrap r \<and> \<not> nr_stale r) (ab_nodes db))"

lemma random_bootstrap_ids:
  assumes "address_book_ok db" "random_bootstrap_node rnd db = Some info"
  shows "ni_id info \<in> set (bootstrap_ids db)"
  using assms row_flags(3)[OF assms(1)]
  by (auto simp: random_bootstrap_node_def bootstrap_ids_def dest!: pick_row_mem intro: rev_image_eqI)

lemma length_bootstrap_ids: "length (bootstrap_ids db) = all_bootstrap_nodes_len db"
  by (simp add: bootstrap_ids_def all_bootstrap_nodes_len_def)

lemma draw_bootstrap_result:
  assumes ok: "address_book_ok db" and draw: "draw_bootstrap my_id db draws = Some drawn"
  shows "case drawn of Drawn i \<Rightarrow> bootstrap_ids db \<noteq> [my_id] \<and> bootstrap_ids db \<noteq> []
    | NoBootstrap \<Rightarrow> bootstrap_ids db = [] | OnlyOurselves \<Rightarrow> bootstrap_ids db = [my_id]"
  using draw
proof (induction draws)
  case (Cons rnd draws)
  show ?case
  proof (cases "random_bootstrap_node rnd db")
    case None
    with Cons.prems show ?thesis
      using random_bootstrap_known(2)[OF ok] length_bootstrap_ids[of db] by auto
  next
    case (Some info)
    have mem: "ni_id info \<in> set (bootstrap_ids db)"
      using random_bootstrap_ids[OF ok Some] .
    then have one: "bootstrap_ids db = [ni_id info]" if "all_bootstrap_nodes_len db = 1"
      using that length_bootstrap_ids[of db] by (auto simp: length_Suc_conv)
    show ?thesis
      using Cons Some mem one by (auto split: if_splits)
  qed
qed simp

text \<open>
  a step of the walk that returns yields no node exactly when it starts over and either there is no bootstrap node and
  nothing to visit, or the local node itself is the only bootstrap node. In the second case it yields no node
  although other nodes may be known and unvisited: it does not fall back to them.
\<close>

lemma next_node_none_iff:
  assumes "address_book_ok db" and "pick_ok pick" and "finite (wk_unvisited w0)"
    and "next_node my_id db coin draws pick previous w0 = Some (w, node)"
  shows "node = None \<longleftrightarrow> resets coin previous (merged previous w0) \<and>
    (bootstrap_ids db = [] \<and> wk_unvisited (walker_reset my_id db (merged previous w0)) = {} \<or> bootstrap_ids db = [my_id])"
proof -
  have finite: "finite (wk_unvisited (merged previous w0))"
    using assms(3) by (simp add: merged_def split: option.splits)
  show ?thesis
  proof (cases "resets coin previous (merged previous w0)")
    case True
    let ?w = "walker_reset my_id db (merged previous w0)"
    obtain drawn where drawn: "draw_bootstrap my_id db draws = Some drawn"
      using assms(4) True by (auto simp: next_node_def Let_def walker_bootstrap_node_def split: option.splits)
    have "finite (wk_unvisited ?w)"
      using finite by (simp add: walker_reset_def Let_def)
    then have "pick (wk_unvisited ?w) = None \<longleftrightarrow> wk_unvisited ?w = {}"
      using pick_ok_cases[OF assms(2)] by (fastforce split: option.splits)
    then show ?thesis
      using assms(4) True drawn draw_bootstrap_result[OF assms(1) drawn]
      by (cases drawn)
        (auto simp: next_node_def Let_def walker_bootstrap_node_def random_unvisited_node_def split: option.splits)
  next
    case False
    then have "wk_unvisited (merged previous w0) \<noteq> {}"
      by (auto simp: resets_def split: if_splits)
    then show ?thesis
      using assms(4) False pick_ok_cases[OF assms(2) finite]
      by (auto simp: next_node_def Let_def random_unvisited_node_def split: option.splits)
  qed
qed

definition self_bootstrap_book :: "(nat, nat) address_book" where
  "self_bootstrap_book =
     fst (insert_node_info 8 (fst (insert_node_info 7 \<lparr>ab_nodes = [], ab_topics = []\<rparr>
       \<lparr>ni_id = 1, ni_is_bootstrap = True, ni_is_stale = False, ni_transports = Some 5\<rparr>))
       \<lparr>ni_id = 2, ni_is_bootstrap = False, ni_is_stale = False, ni_transports = Some 6\<rparr>)"

lemma next_node_none_iff_example:
  "snd (the (next_node 1 self_bootstrap_book False [0] least None walker_default)) = None \<and>
   wk_unvisited (fst (the (next_node 1 self_bootstrap_book False [0] least None walker_default))) = {2}"
proof -
  let ?r = "the (next_node 1 self_bootstrap_book False [0] least None walker_default)"
  have step: "next_node 1 self_bootstrap_book False [0] least None walker_default = Some (fst ?r, snd ?r)"
    and ok: "address_book_ok self_bootstrap_book" and unvisited: "wk_unvisited (fst ?r) = {2}"
    and ids: "bootstrap_ids self_bootstrap_book = [1]"
    by code_simp+
  have "finite (wk_unvisited (walker_default :: nat walker))"
    by (simp add: walker_default_def)
  from next_node_none_iff[OF ok pick_ok_least this step] have "snd ?r = None"
    using ids by (simp add: resets_def)
  with unvisited show ?thesis
    by blast
qed

end
