(* ===== verification/Spec2Isabelle.thy ===== *)
theory Spec2Isabelle
  imports Core_Logs Core_Validation Auth_Resolver Store_Orderer Stream_Ingest Sync_Ranges
    Encryption_Ratchet Spaces_Encryption Discovery_Walk
begin

text \<open>
  A verification library for p2panda, a set of Rust crates for peer-to-peer applications. Peers write signed operations
  into append-only logs, find each other, exchange the operations the other lacks, order them by their dependencies, and
  manage groups whose members share encrypted data. Paths below are relative to \<open>src/\<close>.

  \<^bold>\<open>Conventions.\<close> Rust integers are words of their width and wrap as in a release build. Structs are records, enums
  datatypes, \<open>Result\<close> is a sum with the error on the left, maps are association lists with distinct keys (\<open>amap\<close> in
  \<open>Prelude\<close>). A panic is the value \<open>None\<close>, or an error of its own where the text of the theory says so. Hash sets and maps that the code iterates over are lists, and the
  lemmas hold for every order. Third-party code (CBOR, BLAKE3, Ed25519, petgraph, HKDF, HPKE, AEAD, Curve25519, SHA-256) is a
  record or a function argument; what is documented of it is a hypothesis (\<open>cbor_ok\<close>, \<open>crypto_ok\<close>, \<open>graph_ok\<close>, \<open>digraph_ok\<close>,
  \<open>curve_ok\<close>, \<open>party_ok\<close>, \<open>codec_ok\<close>, \<open>sha_ok\<close> and similar), with a concrete instance in each witness. The clock and
  random bytes are arguments. Database queries are functions on tables that do not fail.

  \<^bold>\<open>Logs and operations\<close> (\<open>p2panda-core\<close>). \<open>Core_Logs\<close> has the state vectors of \<open>logs.rs\<close> and the cursors of
  \<open>cursor.rs\<close>: \<open>compare\<close> returns exactly what the remote lacks, and exchanging it makes replicas agree. \<open>Core_Operation\<close> and
  \<open>Core_Validation\<close> have the header codec, the builder, validation and pruning: headers round trip, built operations
  are valid, and a log accepted item by item is a hash chain of one author.

  \<^bold>\<open>Authorization\<close> (\<open>p2panda-auth\<close>). \<open>Auth_Access\<close> and \<open>Auth_State\<close> have access levels and the membership CRDT of one
  group, with merges as an instance of the locale \<open>merge_contract\<close> of \<open>Prelude\<close>. \<open>Auth_Groups\<close> has nested groups, \<open>Auth_Graph\<close> the
  operation graph with its concurrent bubbles, \<open>Auth_Authority\<close> the authority graphs of mutual removals, and
  \<open>Auth_Resolver\<close> the strong-remove resolver and the whole group CRDT. The lemmas show who can change a group and how, that merging does not
  depend on order, that nested membership is reachability, that the bubbles are connected components, and that the
  resolver always returns on a well-formed graph, with a state for every operation.

  \<^bold>\<open>Streams and stores\<close> (\<open>p2panda-stream\<close>, \<open>p2panda-store\<close>). \<open>Stream_Orderer\<close> is the causal orderer over the locale
  \<open>orderer_store_contract\<close>; \<open>Store_Orderer\<close> has the SQLite tables and interprets the locale on them: operations are forwarded
  only after their dependencies. \<open>Store_Logs\<close> has the tables of operations, topics and cursors, \<open>Stream_Ingest\<close> the ingest with its
  out-of-order buffer: stored logs stay chains. \<open>Store_AddressBook\<close> refines the two tables of known nodes to a map and a
  relation.

  \<^bold>\<open>Sync\<close> (\<open>p2panda-sync\<close>). \<open>Sync_Dedup\<close> is the deduplication buffer, \<open>Sync_Log\<close> one peer of the log sync protocol and the
  session of two as a step relation, \<open>Sync_Session\<close> its invariant, \<open>Sync_Ranges\<close> the link to the stores: every session of two
  well-formed stores ends, and both peers have what they lacked, once and in log order.

  \<^bold>\<open>Encryption\<close> (\<open>p2panda-encryption\<close>, \<open>p2panda-spaces\<close>). \<open>Encryption_Ratchet\<close> is the message ratchet, \<open>Encryption_Secrets\<close> the secrets
  of a group, \<open>Encryption_Keys\<close> lifetimes, pre-keys, key manager and registry, \<open>Encryption_TwoParty\<close> X3DH and two-party messages.
  \<open>Encryption_Session\<close> proves that two parties decrypt each other's messages in every interleaving. \<open>Encryption_Dcgka\<close> is the key
  agreement of the data scheme and \<open>Encryption_Network\<close> any number of members who run it: secrets reach the members they were
  made for. \<open>Encryption_Ordering\<close> has the locale \<open>ordering_contract\<close>, \<open>Encryption_Group\<close> the group interface over it: after an update or a
  removal the other members decrypt and the removed one does not. \<open>Spaces_Encryption\<close> has the membership, messages and
  orderer of \<open>p2panda-spaces\<close>, interprets the locale on that orderer, and applies the theorems to a group over it.

  \<^bold>\<open>Discovery\<close> (\<open>p2panda-discovery\<close>). \<open>Discovery\<close> is the private set intersection, \<open>Discovery_Walk\<close> the random walk: both nodes learn
  exactly the common topics, and the walk visits every node it learns of once between two resets.

  \<^bold>\<open>Bounds and fuel.\<close> The causal orderer recurses through the pending items to a depth that is an argument, with \<open>None\<close> when it is
  exceeded; \<open>orderer_process_terminates\<close> shows that one more than the greatest rank of an item is enough. The loops of the group CRDT, the nested
  groups and the out-of-order buffer are functions with a termination proof. The loop over ready messages of \<open>Encryption_Ordering\<close> has fuel; one more than the number of waiting messages
  is enough for the orderer of spaces (\<open>spaces_orderer_in_order\<close>). Runs of the two-party and group protocols are shorter than
  \<open>2 ^ 64 - 2\<close> steps, since key indices are 64 bit counters.

  \<^bold>\<open>Not modelled.\<close> Network I/O and actors (\<open>p2panda-net\<close>), files (\<open>p2panda-blobs\<close>), the composition of the crates into a node (\<open>p2panda\<close>), and the
  asynchronous managers around the modelled protocols (\<open>p2panda-sync/src/manager\<close>, the processors and pipelines of
  \<open>p2panda-stream\<close>, \<open>p2panda-spaces\<close> outside of \<open>encryption\<close>) pass messages through tasks and channels. The stores of serialized states write and
  read one value. Wrappers of third-party cryptography and encodings are the parameters above. The
  key agreement and groups of the message scheme, the live mode and handshake of the sync protocol, and \<open>p2panda-auth/src/validation.rs\<close> are left out.
\<close>

end
